(* ===== verification/Prelude.thy ===== *)
theory Prelude
  imports Main "HOL-Library.Word"
begin

text \<open>
  The shared layer of the development: the machine integers of the C sources, the single-bit
  words \<open>1 << n\<close>, circular buffers read as lists, the abort of \<open>hw_error\<close>, and the interfaces of the devices.

  \<^item> \<open>u8\<close> .. \<open>u64\<close> are C's \<open>uint8_t\<close> .. \<open>uint64_t\<close>; \<open>shl1 n\<close> is \<open>1 << n\<close> at the width of its
    context. The collection \<open>bits\<close> holds the rules that turn an equation between words into one
    between their bits.
  \<^item> \<open>ring_list\<close> reads a circular buffer as the list of the bytes it holds; the PS/2 queues and the
    serial FIFOs are such buffers.
  \<^item> The locale \<open>inv_system\<close> is the contract of a device: an invariant and a step function that
    keeps it. Its lemmas lift the invariant to every run of the device. \<open>err_system\<close> and
    \<open>safe_system\<close> are the same for steps that may abort, and for steps that never do.
  \<^item> The locale \<open>byte_fifo\<close> is the contract of a bounded byte queue, stated against lists.
\<close>

unbundle bit_operations_syntax

section \<open>Machine integers\<close>

type_synonym u8 = "8 word"
type_synonym u16 = "16 word"
type_synonym u32 = "32 word"
type_synonym u64 = "64 word"

named_theorems bits \<open>equations between words, bit by bit\<close>

definition shl1 :: "nat \<Rightarrow> 'a::len word" where
  "shl1 n = push_bit n 1"

lemma bit_shl1 [bits, simp]: "bit (shl1 n :: 'a::len word) m \<longleftrightarrow> m = n \<and> n < LENGTH('a)"
  by (auto simp: shl1_def bit_exp_iff)

lemma shl1_eq_0_iff [simp]: "(shl1 n :: 'a::len word) = 0 \<longleftrightarrow> LENGTH('a) \<le> n"
  by (simp add: shl1_def)

lemmas [bits] = bit_and_iff bit_or_iff bit_xor_iff bit_not_iff

lemma word_eq_bits:
  fixes x y :: "'a::len word"
  shows "x = y \<longleftrightarrow> (\<forall>n < LENGTH('a). bit x n = bit y n)"
  by (auto intro: bit_word_eqI)

lemma and_shl1_eq_0_iff [simp]:
  fixes x :: "'a::len word"
  shows "x AND shl1 n = 0 \<longleftrightarrow> \<not> bit x n"
proof -
  have "(x AND shl1 n = 0) \<longleftrightarrow> (\<forall>m < LENGTH('a). \<not> (bit x m \<and> m = n))"
    by (auto simp: word_eq_bits bits dest: bit_imp_le_length)
  then show ?thesis
    by (auto dest: bit_imp_le_length)
qed

lemma u8_eqI: "(\<And>n. n < 8 \<Longrightarrow> bit x n = bit y n) \<Longrightarrow> x = (y :: u8)"
  by (rule bit_word_eqI) simp

lemma word_neq_0_bit:
  fixes x :: "'a::len word"
  shows "x \<noteq> 0 \<longleftrightarrow> (\<exists>n < LENGTH('a). bit x n)"
  by (auto simp: word_eq_bits)

lemma nat_and_7 [simp]: "(n::nat) AND 7 = n mod 8"
  using and_exp_eq_0_iff_not_bit take_bit_eq_mask [of 3 n]
  by (simp add: take_bit_eq_mod mask_eq_exp_minus_1)

lemma mod8_forth:
  fixes i p :: nat
  assumes "i < 8"
  shows "((i + p) mod 8 + (8 - p mod 8)) mod 8 = i"
proof -
  obtain q r where p: "p = r + q * 8" and r: "r < 8"
    by (metis add.commute div_mult_mod_eq mod_less_divisor zero_less_numeral)
  then have "i + p + (8 - p mod 8) = i + (q + 1) * 8" by simp
  then have "(i + p + (8 - p mod 8)) mod 8 = i"
    using assms by (simp only: mod_mult_self1) simp
  then show ?thesis by (simp only: mod_add_left_eq)
qed

lemma mod8_back:
  fixes i p :: nat
  assumes "i < 8"
  shows "(p + (i + (8 - p mod 8)) mod 8) mod 8 = i"
  using mod8_forth [OF assms, of p] by (simp only: mod_add_left_eq mod_add_right_eq) (simp add: ac_simps)

lemma nat_and_1 [simp]: "(n::nat) AND 1 = n mod 2"
  by (simp add: and_one_eq)

lemma unat_u8_less [simp]: "unat (x :: u8) < 256"
  using unsigned_less [of x] by simp

lemma unat_ucast8: "unat (ucast (x :: 'a::len word) :: u8) = unat x mod 256"
  by (simp add: unsigned_ucast_eq take_bit_eq_mod)

lemma unat_and_le: "unat (x AND y) \<le> unat (y :: 'a::len word)"
  by (simp add: word_le_nat_alt [symmetric] word_and_le1)

lemma word_and_255: "(v :: 'a::len word) AND 0xff = take_bit 8 v"
  by (simp add: take_bit_eq_mask mask_eq_exp_minus_1)

lemma ucast_ucast8: "(ucast (ucast (v :: u32) :: u8) :: u32) = v AND 0xff"
  unfolding word_and_255 by (rule bit_word_eqI) (auto simp: bit_simps)

lemma drop_bit_and_1: "drop_bit n (b :: 'a::len word) AND 1 = of_bool (bit b n)"
  by (rule bit_word_eqI) (auto simp: bit_simps bit_1_iff)

text \<open>The value of a field masked with a small constant, after the store into a \<open>uint8_t\<close>.\<close>

lemma ucast8_and_le:
  assumes "unat m < 256"
  shows "unat (ucast (x AND m :: 'a::len word) :: u8) \<le> unat m"
  using unat_and_le [of x m] by (simp add: unat_ucast8 mod_less_eq_dividend [THEN le_trans])

text \<open>\<open>hw_error\<close> prints its message and aborts: the operations that can reach it return \<open>Inl\<close>.\<close>

datatype hw_error = HwError string

section \<open>Byte pairs in an int\<close>

lemma unat_byte: "unat h \<le> 255" for h :: u8
proof -
  have "unat h < 2 ^ LENGTH(8)" by (rule unsigned_less)
  also have "2 ^ LENGTH(8) = Suc 255" by simp
  finally show ?thesis by (rule less_Suc_eq_le [THEN iffD1])
qed

lemma unat_ucast_byte: "unat (ucast h :: u32) = unat h" for h :: u8
  by (simp add: unsigned_ucast_eq take_bit_nat_eq_self_iff le_less_trans [OF unat_byte])

lemma sint_small: "unat x < 2 ^ 31 \<Longrightarrow> sint x = int (unat x)" for x :: u32
proof -
  assume "unat x < 2 ^ 31"
  then have "int (unat x) < int (2 ^ 31)" by (simp only: of_nat_less_iff)
  then have "uint x < 2 ^ 31" by simp
  moreover have "- (2 ^ 31) \<le> uint x" by (rule order_trans [OF _ unsigned_greater_eq]) simp
  ultimately have "signed_take_bit 31 (uint x) = uint x" by (intro signed_take_bit_int_eq_self)
  then show ?thesis by (simp add: sint_uint)
qed

lemma unat_byte_hi: "unat (push_bit 8 (ucast h) :: u32) = 256 * unat h" for h :: u8
proof -
  have "unat h * 256 < 2 ^ 32" using unat_byte [of h] by simp
  then have "take_bit 32 (unat h * 256) = unat h * 256" by (rule take_bit_nat_eq_self)
  then show ?thesis by (simp add: unsigned_push_bit_eq push_bit_nat_def unat_ucast_byte)
qed

lemma unat_bytes: "unat (ucast l OR push_bit 8 (ucast h) :: u32) = unat l + 256 * unat h" for l h :: u8
proof -
  let ?l = "ucast l :: u32" and ?h = "push_bit 8 (ucast h) :: u32"
  have "?l OR ?h = ?l + ?h"
    by (rule disjunctive_add [symmetric]) (auto simp: bit_simps dest: bit_imp_le_length)
  moreover have "unat l + 256 * unat h < 2 ^ 32" using unat_byte [of l] unat_byte [of h] by simp
  then have "unat (?l + ?h) = unat l + 256 * unat h"
    by (subst unat_word_ariths(1)) (simp add: unat_byte_hi unat_ucast_byte)
  ultimately show ?thesis by simp
qed

lemma sint_bytes:
  "sint (ucast l OR push_bit 8 (ucast h) :: u32) = int (unat l + 256 * unat h)"
  "sint (push_bit 8 (ucast h) :: u32) = int (256 * unat h)" "sint (ucast l :: u32) = int (unat l)"
  for l h :: u8
proof -
  have b: "unat l + 256 * unat h < 2 ^ 31" "256 * unat h < 2 ^ 31" "unat l < 2 ^ 31"
    using unat_byte [of l] unat_byte [of h] by simp_all
  show "sint (ucast l OR push_bit 8 (ucast h) :: u32) = int (unat l + 256 * unat h)"
    using b(1) by (simp only: sint_small unat_bytes)
  show "sint (push_bit 8 (ucast h) :: u32) = int (256 * unat h)"
    using b(2) by (simp only: sint_small unat_byte_hi)
  show "sint (ucast l :: u32) = int (unat l)"
    using b(3) by (simp only: sint_small unat_ucast_byte)
qed

section \<open>Circular buffers as lists\<close>

definition ring_list :: "'a list \<Rightarrow> nat \<Rightarrow> nat \<Rightarrow> 'a list" where
  "ring_list buf r n = map (\<lambda>i. buf ! ((r + i) mod length buf)) [0..<n]"

lemma length_ring_list [simp]: "length (ring_list buf r n) = n"
  by (simp add: ring_list_def)

lemma ring_list_0 [simp]: "ring_list buf r 0 = []"
  by (simp add: ring_list_def)

lemma ring_list_Suc_front:
  "ring_list buf r (Suc n) = buf ! (r mod length buf) # ring_list buf (Suc r) n"
proof -
  have "[0..<Suc n] = 0 # map Suc [0..<n]"
    by (metis map_Suc_upt upt_conv_Cons zero_less_Suc)
  then show ?thesis
    by (simp add: ring_list_def comp_def)
qed

lemma ring_list_mod_start: "ring_list buf (r mod length buf) n = ring_list buf r n"
  by (simp add: ring_list_def mod_add_left_eq)

lemma ring_list_hd: "0 < n \<Longrightarrow> hd (ring_list buf r n) = buf ! (r mod length buf)"
  by (cases n) (simp_all add: ring_list_Suc_front)

lemma ring_list_tl: "tl (ring_list buf r n) = ring_list buf (Suc r) (n - 1)"
  by (cases n) (simp_all add: ring_list_Suc_front)

lemma Suc_mod_wrap:
  "w < n \<Longrightarrow> (if Suc w = n then 0 else Suc w) = Suc w mod n"
  by auto

lemma mod_add_inj:
  fixes i j r m :: nat
  assumes "i < m" "j < m" "(r + i) mod m = (r + j) mod m"
  shows "i = j"
proof -
  have "m dvd (r + max i j) - (r + min i j)"
    using assms(3) mod_eq_dvd_iff_nat [of "r + min i j" "r + max i j" m]
    by (auto simp: max_def min_def)
  then have "m dvd max i j - min i j" by simp
  moreover have "max i j - min i j < m" using assms(1,2) by linarith
  ultimately have "max i j - min i j = 0"
    by (metis dvd_imp_le gr_zeroI not_le)
  then show ?thesis by linarith
qed

lemma ring_list_put:
  assumes "n < length buf" "w = (r + n) mod length buf"
  shows "ring_list (buf[w := x]) r (Suc n) = ring_list buf r n @ [x]"
proof -
  have "(buf[w := x]) ! ((r + i) mod length buf) = buf ! ((r + i) mod length buf)" if "i < n" for i
    using that assms mod_add_inj [of i "length buf" n r]
    by (metis dual_order.strict_trans less_irrefl nth_list_update_neq)
  moreover have "(buf[w := x]) ! ((r + n) mod length buf) = x"
    using assms by (metis length_greater_0_conv length_0_conv less_nat_zero_code mod_less_divisor nth_list_update_eq)
  ultimately show ?thesis
    by (simp add: ring_list_def)
qed

section \<open>Interfaces\<close>

text \<open>
  A device: every input it can receive leads from a state in its invariant to another.
\<close>

locale inv_system =
  fixes step :: "'s \<Rightarrow> 'e \<Rightarrow> 's"
    and inv :: "'s \<Rightarrow> bool"
  assumes inv_step: "inv s \<Longrightarrow> inv (step s e)"
begin

lemma inv_run: "inv s \<Longrightarrow> inv (foldl step s es)"
  by (induction es arbitrary: s) (auto intro: inv_step)

lemma inv_run_all:
  assumes "inv s"
  shows "\<forall>n \<le> length es. inv (foldl step s (take n es))"
  using assms by (blast intro: inv_run)

end

text \<open>Sequencing of operations that may fail.\<close>

definition ebind :: "'e + 'a \<Rightarrow> ('a \<Rightarrow> 'e + 'b) \<Rightarrow> 'e + 'b" where
  "ebind r f = (case r of Inl e \<Rightarrow> Inl e | Inr x \<Rightarrow> f x)"

lemma ebind_Inr [simp]: "ebind (Inr x) f = f x" "ebind (Inl e) f = Inl e"
  by (simp_all add: ebind_def)

lemma ebind_eq_Inr: "ebind r f = Inr y \<longleftrightarrow> (\<exists>x. r = Inr x \<and> f x = Inr y)"
  by (cases r) auto

text \<open>
  A device some of whose inputs abort the emulator (\<open>hw_error\<close>): the run stops there.
\<close>

fun run_err :: "('s \<Rightarrow> 'e \<Rightarrow> 'x + 's) \<Rightarrow> 's \<Rightarrow> 'e list \<Rightarrow> 'x + 's" where
  "run_err step s [] = Inr s"
| "run_err step s (e # es) = (case step s e of Inl x \<Rightarrow> Inl x | Inr s' \<Rightarrow> run_err step s' es)"

locale err_system =
  fixes estep :: "'s \<Rightarrow> 'e \<Rightarrow> 'x + 's"
    and einv :: "'s \<Rightarrow> bool"
  assumes einv_step: "einv s \<Longrightarrow> estep s e = Inr s' \<Longrightarrow> einv s'"
begin

lemma einv_run: "einv s \<Longrightarrow> run_err estep s es = Inr s' \<Longrightarrow> einv s'"
  by (induction es arbitrary: s) (auto split: sum.splits intro: einv_step)

end

text \<open>
  A device whose invariant excludes the abort altogether: every run ends, in the invariant.
\<close>

locale safe_system = err_system +
  assumes no_err: "einv s \<Longrightarrow> \<exists>s'. estep s e = Inr s'"
begin

lemma safe_run: "einv s \<Longrightarrow> \<exists>s'. run_err estep s es = Inr s' \<and> einv s'"
proof (induction es arbitrary: s)
  case (Cons e es)
  then obtain s' where "estep s e = Inr s'" using no_err by blast
  with Cons einv_step [of s e s'] show ?case by simp
qed simp

end

text \<open>
  A bounded byte queue, specified by the list of the bytes it holds: a put appends while there is
  room and is dropped when there is none, a get takes the first byte.
\<close>

locale byte_fifo =
  fixes invar :: "'q \<Rightarrow> bool"
    and contents :: "'q \<Rightarrow> u8 list"
    and cap :: nat
    and put :: "'q \<Rightarrow> u8 \<Rightarrow> 'q"
    and get :: "'q \<Rightarrow> u8 \<times> 'q"
  assumes cap_bound: "invar q \<Longrightarrow> length (contents q) \<le> cap"
    and put_invar: "invar q \<Longrightarrow> invar (put q b)"
    and put_room: "invar q \<Longrightarrow> length (contents q) < cap \<Longrightarrow> contents (put q b) = contents q @ [b]"
    and put_full: "invar q \<Longrightarrow> length (contents q) = cap \<Longrightarrow> contents (put q b) = contents q"
    and get_invar: "invar q \<Longrightarrow> invar (snd (get q))"
    and get_contents: "invar q \<Longrightarrow> contents (snd (get q)) = tl (contents q)"
    and get_head: "invar q \<Longrightarrow> contents q \<noteq> [] \<Longrightarrow> fst (get q) = hd (contents q)"
begin

lemma put_contents: "invar q \<Longrightarrow> contents (put q b) = take cap (contents q @ [b])"
  using cap_bound [of q] put_room [of q b] put_full [of q b]
  by (cases "length (contents q) < cap") auto

lemma puts_invar: "invar q \<Longrightarrow> invar (foldl put q bs)"
  by (induction bs arbitrary: q) (auto intro: put_invar)

text \<open>A burst of puts keeps the oldest bytes: it appends and cuts at the capacity.\<close>

lemma puts_contents: "invar q \<Longrightarrow> contents (foldl put q bs) = take cap (contents q @ bs)"
proof (induction bs arbitrary: q)
  case Nil
  then show ?case using cap_bound by simp
next
  case (Cons b bs)
  then have "contents (foldl put q (b # bs)) = take cap (take cap (contents q @ [b]) @ bs)"
    by (simp add: put_invar put_contents)
  also have "\<dots> = take cap ((contents q @ [b]) @ bs)"
    by (simp only: take_append [of cap] take_take min.idem) (simp add: min_def)
  finally show ?case by simp
qed

fun drain :: "nat \<Rightarrow> 'q \<Rightarrow> u8 list \<times> 'q" where
  "drain 0 q = ([], q)"
| "drain (Suc n) q = (case get q of (b, q') \<Rightarrow> case drain n q' of (bs, q'') \<Rightarrow> (b # bs, q''))"

text \<open>Reading as many bytes as are held returns them in order and leaves the queue empty.\<close>

lemma drain_contents:
  "invar q \<Longrightarrow> n \<le> length (contents q) \<Longrightarrow>
    fst (drain n q) = take n (contents q) \<and> contents (snd (drain n q)) = drop n (contents q)
      \<and> invar (snd (drain n q))"
proof (induction n arbitrary: q)
  case 0
  then show ?case by simp
next
  case (Suc n)
  obtain b q' where g: "get q = (b, q')" by fastforce
  from Suc.prems have ne: "contents q \<noteq> []" by auto
  have q': "invar q'" "contents q' = tl (contents q)" "b = hd (contents q)"
    using g get_invar [of q] get_contents [of q] get_head [of q] Suc.prems ne by auto
  with Suc.prems have "n \<le> length (contents q')" by simp
  with q' Suc.IH [of q'] have
    "fst (drain n q') = take n (tl (contents q)) \<and> contents (snd (drain n q')) = drop n (tl (contents q))
      \<and> invar (snd (drain n q'))"
    by simp
  then show ?case
    using g q' ne by (cases "contents q") (auto split: prod.splits)
qed

lemma fill_drain:
  assumes "invar q" "contents q = []" "length bs \<le> cap"
  shows "fst (drain (length bs) (foldl put q bs)) = bs"
  using assms drain_contents [OF puts_invar [OF assms(1)], of "length bs" bs]
  by (simp add: puts_contents)

end

end
