(* ===== verification/Irq.thy ===== *)
theory Irq
  imports Prelude
begin

text \<open>
  Interrupt lines, \<open>hw/irq.c\<close> and \<open>hw/irq.h\<close>. An \<open>IRQState\<close> is a handler and a line number; the
  C handler's \<open>opaque\<close> pointer is the state \<open>'m\<close> the handler acts on. A \<open>qemu_irq\<close> may be NULL.

  The device theories keep, for each of their output lines, the sequence of levels the device has
  driven on it (\<open>irq_line\<close>): \<open>set_line\<close> is \<open>qemu_set_irq\<close> on a line whose handler records.
\<close>

record 'm IRQState =
  handler :: "int \<Rightarrow> int \<Rightarrow> 'm \<Rightarrow> 'm"
  line :: int

type_synonym 'm qemu_irq = "'m IRQState option"

definition qemu_set_irq :: "'m qemu_irq \<Rightarrow> int \<Rightarrow> 'm \<Rightarrow> 'm" where
  "qemu_set_irq irq level m =
     (case irq of None \<Rightarrow> m | Some i \<Rightarrow> handler i (line i) level m)"

definition qemu_irq_raise :: "'m qemu_irq \<Rightarrow> 'm \<Rightarrow> 'm" where
  "qemu_irq_raise irq m = qemu_set_irq irq 1 m"

definition qemu_irq_lower :: "'m qemu_irq \<Rightarrow> 'm \<Rightarrow> 'm" where
  "qemu_irq_lower irq m = qemu_set_irq irq 0 m"

definition qemu_irq_pulse :: "'m qemu_irq \<Rightarrow> 'm \<Rightarrow> 'm" where
  "qemu_irq_pulse irq m = qemu_set_irq irq 0 (qemu_set_irq irq 1 m)"

definition qemu_allocate_irqs :: "(int \<Rightarrow> int \<Rightarrow> 'm \<Rightarrow> 'm) \<Rightarrow> nat \<Rightarrow> 'm qemu_irq list" where
  "qemu_allocate_irqs h n = map (\<lambda>i. Some \<lparr>handler = h, line = int i\<rparr>) [0..<n]"

text \<open>\<open>qemu_notirq\<close> and \<open>qemu_splitirq\<close> dereference their lines: the arguments are not NULL.\<close>

definition qemu_notirq :: "'m IRQState \<Rightarrow> int \<Rightarrow> int \<Rightarrow> 'm \<Rightarrow> 'm" where
  "qemu_notirq irq ln level m = handler irq (line irq) (if level = 0 then 1 else 0) m"

definition qemu_irq_invert :: "'m IRQState \<Rightarrow> 'm \<Rightarrow> 'm qemu_irq \<times> 'm" where
  "qemu_irq_invert irq m =
     (let m' = qemu_irq_raise (Some irq) m in (qemu_allocate_irqs (qemu_notirq irq) 1 ! 0, m'))"

definition qemu_splitirq :: "'m IRQState \<Rightarrow> 'm IRQState \<Rightarrow> int \<Rightarrow> int \<Rightarrow> 'm \<Rightarrow> 'm" where
  "qemu_splitirq irq0 irq1 ln level m =
     handler irq1 (line irq1) level (handler irq0 (line irq0) level m)"

definition qemu_irq_split :: "'m IRQState \<Rightarrow> 'm IRQState \<Rightarrow> 'm qemu_irq" where
  "qemu_irq_split irq1 irq2 = qemu_allocate_irqs (qemu_splitirq irq1 irq2) 1 ! 0"

section \<open>Output lines of the devices\<close>

type_synonym irq_line = "int list"

definition line_irq :: "irq_line qemu_irq" where
  "line_irq = Some \<lparr>handler = (\<lambda>n level l. l @ [level]), line = 0\<rparr>"

definition set_line :: "int \<Rightarrow> irq_line \<Rightarrow> irq_line" where
  "set_line level l = qemu_set_irq line_irq level l"

definition raise_line :: "irq_line \<Rightarrow> irq_line" where
  "raise_line l = qemu_irq_raise line_irq l"

definition lower_line :: "irq_line \<Rightarrow> irq_line" where
  "lower_line l = qemu_irq_lower line_irq l"

lemma set_line_eq [simp]: "set_line level l = l @ [level]"
  by (simp add: set_line_def qemu_set_irq_def line_irq_def)

lemma raise_line_eq [simp]: "raise_line l = l @ [1]"
  by (simp add: raise_line_def qemu_irq_raise_def qemu_set_irq_def line_irq_def)

lemma lower_line_eq [simp]: "lower_line l = l @ [0]"
  by (simp add: lower_line_def qemu_irq_lower_def qemu_set_irq_def line_irq_def)

text \<open>The level a line is at: the last one driven, low before that.\<close>

definition line_level :: "irq_line \<Rightarrow> int" where
  "line_level l = (if l = [] then 0 else last l)"

lemma line_level_snoc [simp]: "line_level (l @ [x]) = x" "line_level [] = 0"
  by (simp_all add: line_level_def)

section \<open>Lemmas\<close>

lemma qemu_set_irq_null: "qemu_set_irq None level m = m"
  by (simp add: qemu_set_irq_def)

lemma qemu_allocate_irqs_nth:
  "i < n \<Longrightarrow> qemu_set_irq (qemu_allocate_irqs h n ! i) level m = h (int i) level m"
  by (simp add: qemu_allocate_irqs_def qemu_set_irq_def)

lemma qemu_irq_invert_set:
  "qemu_set_irq (fst (qemu_irq_invert irq m0)) level m
     = qemu_set_irq (Some irq) (if level = 0 then 1 else 0) m"
  by (simp add: qemu_irq_invert_def Let_def qemu_allocate_irqs_def qemu_set_irq_def qemu_notirq_def)

text \<open>
  A line made by \<open>qemu_irq_split\<close> drives both of its lines with the level it is driven with,
  the first one first, and an inverted line fed by a split reaches its target with the level
  complemented: the combinators compose as the wiring diagram says.
\<close>

theorem irq_split_invert:
  "qemu_set_irq (qemu_irq_split i (the (fst (qemu_irq_invert j m0)))) level m
     = qemu_set_irq (Some j) (if level = 0 then 1 else 0) (qemu_set_irq (Some i) level m)"
  by (simp add: qemu_irq_split_def qemu_splitirq_def qemu_irq_invert_def Let_def
      qemu_allocate_irqs_def qemu_set_irq_def qemu_notirq_def)

end
