(* ===== verification/Pic.thy ===== *)
theory Pic
  imports Irq
begin

text \<open>
  The 8259 interrupt controllers, \<open>hw/i8259.c\<close>: the master (\<open>pics 0\<close>) and the slave (\<open>pics 1\<close>)
  of a PC. A C pointer to a \<open>PicState\<close> is its index, so that the test
  \<open>s == &s->pics_state->pics[0]\<close> is \<open>n = 0\<close>. Masks are declared \<open>int\<close> in the source and hold
  values of \<open>uint8_t\<close> fields; they are \<open>u8\<close> here. \<open>parent_irq\<close> is the sequence of levels driven
  on the CPU's interrupt line. \<open>pic_get_irq\<close> returns \<open>None\<close> for the source's \<open>-1\<close>.
\<close>

record PicState =
  last_irr :: u8
  irr :: u8
  imr :: u8
  isr :: u8
  priority_add :: u8
  irq_base :: u8
  read_reg_select :: u8
  poll :: u8
  special_mask :: u8
  init_state :: u8
  auto_eoi :: u8
  rotate_on_auto_eoi :: u8
  special_fully_nested_mode :: u8
  init4 :: u8
  single_mode :: u8
  elcr :: u8
  elcr_mask :: u8

record PicState2 =
  pics :: "nat \<Rightarrow> PicState"
  parent_irq :: irq_line

section \<open>Operations\<close>

definition pic_set_irq1 :: "PicState \<Rightarrow> nat \<Rightarrow> int \<Rightarrow> PicState" where
  "pic_set_irq1 s irq level =
     (let mask = shl1 irq in
      if elcr s AND mask \<noteq> 0 then
        (if level \<noteq> 0
         then s\<lparr>irr := irr s OR mask, last_irr := last_irr s OR mask\<rparr>
         else s\<lparr>irr := irr s AND NOT mask, last_irr := last_irr s AND NOT mask\<rparr>)
      else
        (if level \<noteq> 0
         then (let s = (if last_irr s AND mask = 0 then s\<lparr>irr := irr s OR mask\<rparr> else s)
               in s\<lparr>last_irr := last_irr s OR mask\<rparr>)
         else s\<lparr>last_irr := last_irr s AND NOT mask\<rparr>))"

text \<open>
  The loop of \<open>get_priority\<close>. It is entered with a non-zero mask only; the first conjunct restates
  that, and makes the loop total: its termination is proved below.
\<close>

function get_priority_loop :: "u8 \<Rightarrow> u8 \<Rightarrow> nat \<Rightarrow> nat" where
  "get_priority_loop msk padd priority =
     (if msk \<noteq> 0 \<and> msk AND shl1 ((priority + unat padd) AND 7) = 0
      then get_priority_loop msk padd (priority + 1)
      else priority)"
  by pat_completeness auto

lemma u8_bit_after:
  fixes msk :: u8
  assumes "msk \<noteq> 0"
  shows "\<exists>k < 8. bit msk ((p + k) mod 8)"
proof -
  from assms obtain i where i: "i < 8" "bit msk i"
    by (auto simp: word_neq_0_bit)
  define k where "k = (i + (8 - p mod 8)) mod 8"
  have "(p + k) mod 8 = i"
    using i(1) unfolding k_def by (rule mod8_back)
  then show ?thesis using i k_def by (intro exI [of _ k]) auto
qed

definition hit_distance :: "u8 \<Rightarrow> nat \<Rightarrow> nat" where
  "hit_distance msk p = (LEAST k. bit msk ((p + k) mod 8))"

lemma hit_distance_Suc:
  assumes "msk \<noteq> 0" "\<not> bit msk (p mod 8)"
  shows "hit_distance msk (Suc p) < hit_distance msk p"
proof -
  let ?P = "\<lambda>k. bit msk ((p + k) mod 8)"
  obtain k where "?P k" using u8_bit_after [OF assms(1)] by blast
  moreover have "\<not> ?P 0" using assms(2) by simp
  ultimately have "(LEAST k. ?P k) = Suc (LEAST k. ?P (Suc k))"
    by (rule Least_Suc)
  then show ?thesis by (simp add: hit_distance_def)
qed

termination get_priority_loop
  by (relation "measure (\<lambda>(msk, padd, priority). hit_distance msk (priority + unat padd))")
     (auto dest: hit_distance_Suc)

declare get_priority_loop.simps [simp del]

definition get_priority :: "PicState \<Rightarrow> u8 \<Rightarrow> nat" where
  "get_priority s msk =
     (if msk = 0 then 8 else get_priority_loop msk (priority_add s) 0)"

definition pic_get_irq :: "PicState2 \<Rightarrow> nat \<Rightarrow> nat option" where
  "pic_get_irq s2 n =
     (let s = pics s2 n;
          mask = irr s AND NOT (imr s);
          priority = get_priority s mask
      in if priority = 8 then None
         else
          (let mask = isr s;
               mask = (if special_mask s \<noteq> 0 then mask AND NOT (imr s) else mask);
               mask = (if special_fully_nested_mode s \<noteq> 0 \<and> n = 0
                       then mask AND NOT (shl1 2) else mask);
               cur_priority = get_priority s mask
           in if priority < cur_priority
              then Some ((priority + unat (priority_add s)) AND 7)
              else None))"

definition upd_pic :: "nat \<Rightarrow> (PicState \<Rightarrow> PicState) \<Rightarrow> PicState2 \<Rightarrow> PicState2" where
  "upd_pic n f s2 = s2\<lparr>pics := (pics s2)(n := f (pics s2 n))\<rparr>"

lemma upd_pic_simps [simp]:
  "pics (upd_pic n f s2) m = (if m = n then f (pics s2 n) else pics s2 m)"
  "parent_irq (upd_pic n f s2) = parent_irq s2"
  by (simp_all add: upd_pic_def)

definition pic_update_irq :: "PicState2 \<Rightarrow> PicState2" where
  "pic_update_irq s =
     (let s = (case pic_get_irq s 1 of
                 None \<Rightarrow> s
               | Some irq2 \<Rightarrow>
                   upd_pic 0 (\<lambda>p. pic_set_irq1 p 2 0) (upd_pic 0 (\<lambda>p. pic_set_irq1 p 2 1) s))
      in case pic_get_irq s 0 of
           None \<Rightarrow> s
         | Some irq \<Rightarrow> s\<lparr>parent_irq := raise_line (parent_irq s)\<rparr>)"

definition i8259_set_irq :: "PicState2 \<Rightarrow> nat \<Rightarrow> int \<Rightarrow> PicState2" where
  "i8259_set_irq s irq level =
     pic_update_irq (upd_pic (irq div 8) (\<lambda>p. pic_set_irq1 p (irq AND 7) level) s)"

definition pic_intack :: "PicState \<Rightarrow> nat \<Rightarrow> PicState" where
  "pic_intack s irq =
     (let s = (if auto_eoi s \<noteq> 0 then
                 (if rotate_on_auto_eoi s \<noteq> 0
                  then s\<lparr>priority_add := of_nat ((irq + 1) AND 7)\<rparr> else s)
               else s\<lparr>isr := isr s OR shl1 irq\<rparr>)
      in if elcr s AND shl1 irq = 0 then s\<lparr>irr := irr s AND NOT (shl1 irq)\<rparr> else s)"

definition pic_read_irq :: "PicState2 \<Rightarrow> nat \<times> PicState2" where
  "pic_read_irq s =
     (let (intno, s) =
        (case pic_get_irq s 0 of
           Some irq \<Rightarrow>
             (let s = upd_pic 0 (\<lambda>p. pic_intack p irq) s in
              if irq = 2 then
                (case pic_get_irq s 1 of
                   Some irq2 \<Rightarrow>
                     (let s = upd_pic 1 (\<lambda>p. pic_intack p irq2) s
                      in (unat (irq_base (pics s 1)) + irq2, s))
                 | None \<Rightarrow> (unat (irq_base (pics s 1)) + 7, s))
              else (unat (irq_base (pics s 0)) + irq, s))
         | None \<Rightarrow> (unat (irq_base (pics s 0)) + 7, s))
      in (intno, pic_update_irq s))"

definition pic_reset :: "PicState \<Rightarrow> PicState" where
  "pic_reset s = s\<lparr>last_irr := 0, irr := 0, imr := 0, isr := 0, priority_add := 0,
     irq_base := 0, read_reg_select := 0, poll := 0, special_mask := 0, init_state := 0,
     auto_eoi := 0, rotate_on_auto_eoi := 0, special_fully_nested_mode := 0, init4 := 0,
     single_mode := 0\<rparr>"

text \<open>The command words of \<open>pic_ioport_write\<close> (even port): ICW1, OCW3 and OCW2.\<close>

definition pic_write_icw1 :: "PicState2 \<Rightarrow> nat \<Rightarrow> u32 \<Rightarrow> hw_error + PicState2" where
  "pic_write_icw1 s2 n val =
     (let s2 = upd_pic n pic_reset s2;
          s2 = s2\<lparr>parent_irq := lower_line (parent_irq s2)\<rparr>;
          s2 = upd_pic n (\<lambda>s. s\<lparr>init_state := 1, init4 := ucast (val AND 1),
                                single_mode := ucast (val AND 2)\<rparr>) s2
      in if val AND 0x08 \<noteq> 0 then Inl (HwError ''level sensitive irq not supported'')
         else Inr s2)"

definition pic_write_ocw3 :: "PicState2 \<Rightarrow> nat \<Rightarrow> u32 \<Rightarrow> PicState2" where
  "pic_write_ocw3 s2 n val =
     upd_pic n (\<lambda>s.
       (let s = (if val AND 0x04 \<noteq> 0 then s\<lparr>poll := 1\<rparr> else s);
            s = (if val AND 0x02 \<noteq> 0 then s\<lparr>read_reg_select := ucast (val AND 1)\<rparr> else s)
        in if val AND 0x40 \<noteq> 0 then s\<lparr>special_mask := ucast (drop_bit 5 val AND 1)\<rparr> else s)) s2"

definition pic_write_ocw2 :: "PicState2 \<Rightarrow> nat \<Rightarrow> u32 \<Rightarrow> PicState2" where
  "pic_write_ocw2 s2 n val =
     (let cmd = drop_bit 5 val; s = pics s2 n in
      if cmd = 0 \<or> cmd = 4 then
        upd_pic n (\<lambda>s. s\<lparr>rotate_on_auto_eoi := ucast (drop_bit 2 cmd)\<rparr>) s2
      else if cmd = 1 \<or> cmd = 5 then
        (let priority = get_priority s (isr s) in
         if priority \<noteq> 8 then
           (let irq = (priority + unat (priority_add s)) AND 7;
                s2 = upd_pic n (\<lambda>s. s\<lparr>isr := isr s AND NOT (shl1 irq)\<rparr>) s2;
                s2 = (if cmd = 5
                      then upd_pic n (\<lambda>s. s\<lparr>priority_add := of_nat ((irq + 1) AND 7)\<rparr>) s2
                      else s2)
            in pic_update_irq s2)
         else s2)
      else if cmd = 3 then
        (let irq = unat (val AND 7) in
         pic_update_irq (upd_pic n (\<lambda>s. s\<lparr>isr := isr s AND NOT (shl1 irq)\<rparr>) s2))
      else if cmd = 6 then
        pic_update_irq (upd_pic n (\<lambda>s. s\<lparr>priority_add := ucast ((val + 1) AND 7)\<rparr>) s2)
      else if cmd = 7 then
        (let irq = unat (val AND 7) in
         pic_update_irq (upd_pic n (\<lambda>s. s\<lparr>isr := isr s AND NOT (shl1 irq),
                                          priority_add := of_nat ((irq + 1) AND 7)\<rparr>) s2))
      else s2)"

text \<open>The odd port: the mask register, or the next initialisation word.\<close>

definition pic_write_data :: "PicState2 \<Rightarrow> nat \<Rightarrow> u32 \<Rightarrow> PicState2" where
  "pic_write_data s2 n val =
     (let s = pics s2 n in
      if init_state s = 0 then pic_update_irq (upd_pic n (\<lambda>s. s\<lparr>imr := ucast val\<rparr>) s2)
      else if init_state s = 1 then
        upd_pic n (\<lambda>s. s\<lparr>irq_base := ucast (val AND 0xf8),
                         init_state := (if single_mode s \<noteq> 0
                                        then (if init4 s \<noteq> 0 then 3 else 0) else 2)\<rparr>) s2
      else if init_state s = 2 then
        upd_pic n (\<lambda>s. s\<lparr>init_state := (if init4 s \<noteq> 0 then 3 else 0)\<rparr>) s2
      else if init_state s = 3 then
        upd_pic n (\<lambda>s. s\<lparr>special_fully_nested_mode := ucast (drop_bit 4 val AND 1),
                         auto_eoi := ucast (drop_bit 1 val AND 1), init_state := 0\<rparr>) s2
      else s2)"

definition pic_ioport_write :: "PicState2 \<Rightarrow> nat \<Rightarrow> u32 \<Rightarrow> u32 \<Rightarrow> hw_error + PicState2" where
  "pic_ioport_write s2 n addr val =
     (if addr AND 1 = 0 then
        (if val AND 0x10 \<noteq> 0 then pic_write_icw1 s2 n val
         else if val AND 0x08 \<noteq> 0 then Inr (pic_write_ocw3 s2 n val)
         else Inr (pic_write_ocw2 s2 n val))
      else Inr (pic_write_data s2 n val))"

definition pic_poll_read :: "PicState2 \<Rightarrow> nat \<Rightarrow> u32 \<Rightarrow> nat \<times> PicState2" where
  "pic_poll_read s2 n addr1 =
     (case pic_get_irq s2 n of
        Some ret \<Rightarrow>
          (let s2 = (if drop_bit 7 addr1 \<noteq> 0
                     then upd_pic 0 (\<lambda>s. s\<lparr>isr := isr s AND NOT (shl1 2),
                                           irr := irr s AND NOT (shl1 2)\<rparr>) s2
                     else s2);
               s2 = upd_pic n (\<lambda>s. s\<lparr>irr := irr s AND NOT (shl1 ret),
                                     isr := isr s AND NOT (shl1 ret)\<rparr>) s2
           in (ret, if drop_bit 7 addr1 \<noteq> 0 \<or> ret \<noteq> 2 then pic_update_irq s2 else s2))
      | None \<Rightarrow> (7, pic_update_irq s2))"

definition pic_ioport_read :: "PicState2 \<Rightarrow> nat \<Rightarrow> u32 \<Rightarrow> nat \<times> PicState2" where
  "pic_ioport_read s2 n addr1 =
     (let addr = addr1 AND 1 in
      if poll (pics s2 n) \<noteq> 0 then
        (let (ret, s2) = pic_poll_read s2 n addr1 in (ret, upd_pic n (\<lambda>s. s\<lparr>poll := 0\<rparr>) s2))
      else if addr = 0 then
        (if read_reg_select (pics s2 n) \<noteq> 0 then (unat (isr (pics s2 n)), s2)
         else (unat (irr (pics s2 n)), s2))
      else (unat (imr (pics s2 n)), s2))"

definition pic_intack_read :: "PicState2 \<Rightarrow> nat \<times> PicState2" where
  "pic_intack_read s =
     (let (ret, s) = pic_poll_read s 0 0x00;
          (ret, s) = (if ret = 2 then (let (r, s) = pic_poll_read s 1 0x80 in (r + 8, s))
                      else (ret, s))
      in (ret, upd_pic 0 (\<lambda>p. p\<lparr>read_reg_select := 1\<rparr>) s))"

definition elcr_ioport_write :: "PicState2 \<Rightarrow> nat \<Rightarrow> u32 \<Rightarrow> PicState2" where
  "elcr_ioport_write s2 n val =
     upd_pic n (\<lambda>s. s\<lparr>elcr := ucast (val AND ucast (elcr_mask s))\<rparr>) s2"

definition elcr_ioport_read :: "PicState2 \<Rightarrow> nat \<Rightarrow> u32" where
  "elcr_ioport_read s2 n = ucast (elcr (pics s2 n))"

definition pic_zero :: PicState where
  "pic_zero = \<lparr>last_irr = 0, irr = 0, imr = 0, isr = 0, priority_add = 0, irq_base = 0,
     read_reg_select = 0, poll = 0, special_mask = 0, init_state = 0, auto_eoi = 0,
     rotate_on_auto_eoi = 0, special_fully_nested_mode = 0, init4 = 0, single_mode = 0,
     elcr = 0, elcr_mask = 0\<rparr>"

definition i8259_init :: PicState2 where
  "i8259_init = \<lparr>pics = (\<lambda>n. pic_zero\<lparr>elcr_mask := (if n = 0 then 0xf8 else 0xde)\<rparr>),
                 parent_irq = []\<rparr>"

section \<open>Priorities\<close>

text \<open>
  The rotating priority of a line: 0 for the line \<open>priority_add\<close> points at, 7 for the one before.
\<close>

definition prio :: "PicState \<Rightarrow> nat \<Rightarrow> nat" where
  "prio s i = (i + (8 - unat (priority_add s) mod 8)) mod 8"

lemma prio_less [simp]: "prio s i < 8"
  by (simp add: prio_def)

lemma prio_of_rank: "p < 8 \<Longrightarrow> prio s ((p + unat (priority_add s)) mod 8) = p"
  unfolding prio_def by (rule mod8_forth)

lemma rank_of_prio: "i < 8 \<Longrightarrow> (prio s i + unat (priority_add s)) mod 8 = i"
  unfolding prio_def by (metis add.commute mod8_back)

lemma prio_inj: "i < 8 \<Longrightarrow> j < 8 \<Longrightarrow> prio s i = prio s j \<longleftrightarrow> i = j"
  by (metis rank_of_prio)

definition hit :: "u8 \<Rightarrow> u8 \<Rightarrow> nat \<Rightarrow> bool" where
  "hit m padd q \<longleftrightarrow> bit m ((q + unat padd) mod 8)"

lemma get_priority_loop_unfold:
  "m \<noteq> 0 \<Longrightarrow> get_priority_loop m padd p =
     (if hit m padd p then p else get_priority_loop m padd (Suc p))"
  by (subst get_priority_loop.simps) (simp add: hit_def)

lemma get_priority_loop_spec:
  "m \<noteq> 0 \<Longrightarrow> p \<le> get_priority_loop m padd p
     \<and> hit m padd (get_priority_loop m padd p)
     \<and> (\<forall>q. p \<le> q \<and> q < get_priority_loop m padd p \<longrightarrow> \<not> hit m padd q)"
proof (induction m padd p rule: get_priority_loop.induct)
  case (1 m padd p)
  show ?case
  proof (cases "hit m padd p")
    case True
    then show ?thesis using 1(2) by (auto simp: get_priority_loop_unfold [of m padd p])
  next
    case False
    then have "m AND shl1 ((p + unat padd) AND 7) = 0" by (simp add: hit_def)
    from 1(1) [OF conjI [OF 1(2) this] 1(2)]
    have "Suc p \<le> get_priority_loop m padd (Suc p)
     \<and> hit m padd (get_priority_loop m padd (Suc p))
     \<and> (\<forall>q. Suc p \<le> q \<and> q < get_priority_loop m padd (Suc p) \<longrightarrow> \<not> hit m padd q)"
      unfolding Suc_eq_plus1 .
    with get_priority_loop_unfold [OF 1(2), of padd p] False show ?thesis
      by (metis Suc_leD Suc_leI le_neq_implies_less)
  qed
qed

lemma get_priority_0 [simp]: "get_priority s 0 = 8"
  by (simp add: get_priority_def)

lemma get_priority_bit:
  "m \<noteq> 0 \<Longrightarrow> bit m ((get_priority s m + unat (priority_add s)) mod 8)"
  using get_priority_loop_spec [of m 0 "priority_add s"] by (simp add: get_priority_def hit_def)

lemma get_priority_first:
  "q < get_priority s m \<Longrightarrow> m \<noteq> 0 \<Longrightarrow> \<not> bit m ((q + unat (priority_add s)) mod 8)"
  using get_priority_loop_spec [of m 0 "priority_add s"] by (simp add: get_priority_def hit_def [symmetric])

lemma get_priority_le:
  assumes "i < 8" "bit m i"
  shows "get_priority s m \<le> prio s i"
proof (rule ccontr)
  assume "\<not> get_priority s m \<le> prio s i"
  moreover have "m \<noteq> 0" using assms(2) by auto
  ultimately have "\<not> bit m ((prio s i + unat (priority_add s)) mod 8)"
    by (simp add: get_priority_first)
  with assms show False by (simp add: rank_of_prio)
qed

lemma get_priority_attained:
  assumes "m \<noteq> 0"
  shows "\<exists>i < 8. bit m i \<and> prio s i = get_priority s m"
proof -
  let ?i = "(get_priority s m + unat (priority_add s)) mod 8"
  from assms obtain j where j: "j < 8" "bit m j"
    by (auto simp: word_neq_0_bit)
  then have "get_priority s m < 8"
    by (rule le_less_trans [OF get_priority_le prio_less])
  then have "prio s ?i = get_priority s m"
    by (rule prio_of_rank)
  moreover have "bit m ?i" using assms by (rule get_priority_bit)
  moreover have "?i < 8" by simp
  ultimately show ?thesis by blast
qed

lemma get_priority_le_8: "get_priority s m \<le> 8"
  using get_priority_attained [of m s] prio_less by (metis get_priority_0 less_imp_le order_refl)

lemma get_priority_eq_8_iff: "get_priority s m = 8 \<longleftrightarrow> m = 0"
  using get_priority_attained [of m s] prio_less by (metis get_priority_0 less_irrefl)

lemma less_get_priority_iff:
  "p < get_priority s m \<longleftrightarrow> p < 8 \<and> (\<forall>i < 8. bit m i \<longrightarrow> p < prio s i)"
proof (cases "m = 0")
  case False
  then obtain i where i: "i < 8" "bit m i" "prio s i = get_priority s m"
    using get_priority_attained by blast
  show ?thesis
  proof (intro iffI conjI allI impI)
    assume p: "p < get_priority s m"
    then show "p < 8" using get_priority_le_8 by (rule less_le_trans)
    show "p < prio s j" if "j < 8" "bit m j" for j
      using p get_priority_le [OF that] by (rule less_le_trans)
  next
    assume "p < 8 \<and> (\<forall>i < 8. bit m i \<longrightarrow> p < prio s i)"
    with i show "p < get_priority s m" by metis
  qed
qed simp

text \<open>
  C37: \<open>get_priority\<close> terminates on every mask and returns the least rotating priority among the
  lines set in the mask, and 8 exactly for the empty mask.
\<close>

theorem get_priority_correct:
  "get_priority s m = (if m = 0 then 8 else Min (prio s ` {i. i < 8 \<and> bit m i}))"
proof (cases "m = 0")
  case False
  then obtain i where i: "i < 8" "bit m i" "prio s i = get_priority s m"
    using get_priority_attained by blast
  have "Min (prio s ` {i. i < 8 \<and> bit m i}) = get_priority s m"
    by (rule Min_eqI) (use i get_priority_le in \<open>auto simp: image_iff intro!: exI [of _ i]\<close>)
  then show ?thesis using False by simp
qed simp

section \<open>The interrupt a controller wants to deliver\<close>

definition requested :: "PicState \<Rightarrow> nat \<Rightarrow> bool" where
  "requested s i \<longleftrightarrow> bit (irr s) i \<and> \<not> bit (imr s) i"

text \<open>
  The lines whose service blocks others: all in service, less the masked ones in special mask
  mode, less the cascade line of a master in special fully nested mode.
\<close>

definition blocking :: "PicState2 \<Rightarrow> nat \<Rightarrow> nat \<Rightarrow> bool" where
  "blocking s2 n j \<longleftrightarrow> bit (isr (pics s2 n)) j
     \<and> \<not> (special_mask (pics s2 n) \<noteq> 0 \<and> bit (imr (pics s2 n)) j)
     \<and> \<not> (special_fully_nested_mode (pics s2 n) \<noteq> 0 \<and> n = 0 \<and> j = 2)"

definition service_mask :: "PicState2 \<Rightarrow> nat \<Rightarrow> u8" where
  "service_mask s2 n =
     (let s = pics s2 n;
          m = (if special_mask s \<noteq> 0 then isr s AND NOT (imr s) else isr s)
      in if special_fully_nested_mode s \<noteq> 0 \<and> n = 0 then m AND NOT (shl1 2) else m)"

lemma bit_service_mask: "j < 8 \<Longrightarrow> bit (service_mask s2 n) j \<longleftrightarrow> blocking s2 n j"
  by (auto simp: service_mask_def blocking_def Let_def bits)

lemma bit_request_mask: "j < 8 \<Longrightarrow> bit (irr s AND NOT (imr s)) j \<longleftrightarrow> requested s j"
  by (auto simp: requested_def bits)

lemma pic_get_irq_eq:
  "pic_get_irq s2 n =
     (let s = pics s2 n; p = get_priority s (irr s AND NOT (imr s))
      in if p < get_priority s (service_mask s2 n)
         then Some ((p + unat (priority_add s)) mod 8) else None)"
  using get_priority_le_8 [of "pics s2 n" "service_mask s2 n"]
  by (auto simp: pic_get_irq_def service_mask_def Let_def)

lemma pic_get_irq_iff:
  "pic_get_irq s2 n = Some i \<longleftrightarrow>
     i < 8 \<and> requested (pics s2 n) i
     \<and> (\<forall>j < 8. requested (pics s2 n) j \<longrightarrow> prio (pics s2 n) i \<le> prio (pics s2 n) j)
     \<and> (\<forall>j < 8. blocking s2 n j \<longrightarrow> prio (pics s2 n) i < prio (pics s2 n) j)"
proof -
  let ?s = "pics s2 n"
  let ?m = "irr ?s AND NOT (imr ?s)"
  let ?p = "get_priority ?s ?m"
  have blk: "q < get_priority ?s (service_mask s2 n) \<longleftrightarrow>
      q < 8 \<and> (\<forall>j < 8. blocking s2 n j \<longrightarrow> q < prio ?s j)" for q
    by (auto simp: less_get_priority_iff bit_service_mask)
  show ?thesis
  proof (cases "?m = 0")
    case True
    then have "\<not> requested ?s j" if "j < 8" for j
      using bit_request_mask [OF that, of ?s] by simp
    then show ?thesis using True get_priority_le_8 [of ?s "service_mask s2 n"]
      by (simp add: pic_get_irq_eq Let_def) blast
  next
    case False
    then obtain k where k: "k < 8" "requested ?s k" "prio ?s k = ?p"
      using get_priority_attained [of ?m ?s] bit_request_mask by blast
    have least: "?p \<le> prio ?s j" if "j < 8" "requested ?s j" for j
      using that get_priority_le bit_request_mask by blast
    have kk: "(?p + unat (priority_add ?s)) mod 8 = k"
      using rank_of_prio [OF k(1), of ?s] k(3) by simp
    have "(i < 8 \<and> requested ?s i \<and> (\<forall>j < 8. requested ?s j \<longrightarrow> prio ?s i \<le> prio ?s j)) \<longleftrightarrow> i = k"
      using k least prio_inj [of i k ?s] by (metis le_antisym)
    then have *: "(i < 8 \<and> requested ?s i
        \<and> (\<forall>j < 8. requested ?s j \<longrightarrow> prio ?s i \<le> prio ?s j) \<and> R) \<longleftrightarrow> i = k \<and> R" for R
      by blast
    have "pic_get_irq s2 n = (if ?p < get_priority ?s (service_mask s2 n) then Some k else None)"
      using kk by (simp add: pic_get_irq_eq Let_def)
    moreover have "?p < get_priority ?s (service_mask s2 n) \<longleftrightarrow>
        (\<forall>j < 8. blocking s2 n j \<longrightarrow> prio ?s k < prio ?s j)"
      unfolding blk k(3) [symmetric] by simp
    ultimately show ?thesis unfolding * by (cases "i = k") auto
  qed
qed

text \<open>
  C11: \<open>pic_get_irq\<close> returns a line exactly when it is the requested, unmasked line of highest
  rotating priority and no blocking line in service has the same or a higher priority.
\<close>

theorem pic_get_irq_correct:
  "pic_get_irq s2 n = Some i \<longleftrightarrow>
     i < 8 \<and> requested (pics s2 n) i
     \<and> (\<forall>j < 8. requested (pics s2 n) j \<longrightarrow> prio (pics s2 n) i \<le> prio (pics s2 n) j)
     \<and> (\<forall>j < 8. blocking s2 n j \<longrightarrow> prio (pics s2 n) i < prio (pics s2 n) j)"
  by (rule pic_get_irq_iff)

lemma pic_get_irq_less: "pic_get_irq s2 n = Some i \<Longrightarrow> i < 8"
  by (simp add: pic_get_irq_eq Let_def split: if_splits)

section \<open>The invariant of the controllers\<close>

definition pic_ok :: "PicState \<Rightarrow> bool" where
  "pic_ok s \<longleftrightarrow> priority_add s < 8 \<and> init_state s \<le> 3 \<and> irq_base s AND 7 = 0
     \<and> elcr s AND NOT (elcr_mask s) = 0
     \<and> read_reg_select s \<le> 1 \<and> poll s \<le> 1 \<and> special_mask s \<le> 1 \<and> auto_eoi s \<le> 1
     \<and> rotate_on_auto_eoi s \<le> 1 \<and> special_fully_nested_mode s \<le> 1"

definition pic_inv :: "PicState2 \<Rightarrow> bool" where
  "pic_inv s2 \<longleftrightarrow> (\<forall>n. pic_ok (pics s2 n) \<and> elcr_mask (pics s2 n) = (if n = 0 then 0xf8 else 0xde))"

text \<open>The inputs of the controllers: the 16 lines, the CPU's acknowledge cycles, the ports.\<close>

datatype pic_input =
    SetIrq nat int
  | ReadIrq
  | IoWrite nat u32 u32
  | IoRead nat u32
  | IntackRead
  | ElcrWrite nat u32
  | PicReset nat

fun pic_step :: "PicState2 \<Rightarrow> pic_input \<Rightarrow> hw_error + PicState2" where
  "pic_step s (SetIrq irq level) = Inr (i8259_set_irq s irq level)"
| "pic_step s ReadIrq = Inr (snd (pic_read_irq s))"
| "pic_step s (IoWrite n addr val) = pic_ioport_write s n addr val"
| "pic_step s (IoRead n addr) = Inr (snd (pic_ioport_read s n addr))"
| "pic_step s IntackRead = Inr (snd (pic_intack_read s))"
| "pic_step s (ElcrWrite n val) = Inr (elcr_ioport_write s n val)"
| "pic_step s (PicReset n) = Inr (upd_pic n pic_reset s)"

lemma u8_small:
  "(ucast ((x :: u32) AND 1) :: u8) \<le> 1" "(ucast ((x :: u32) AND 7) :: u8) < 8"
  "(of_nat (k mod 8) :: u8) < 8"
  using ucast8_and_le [of 1 x] ucast8_and_le [of 7 x]
  by (simp_all add: word_le_nat_alt word_less_nat_alt unat_of_nat)

lemma ucast_f8_and_7: "(ucast ((x :: u32) AND 0xf8) :: u8) AND 7 = 0"
proof (rule u8_eqI)
  fix n :: nat
  assume "n < 8"
  then have "n \<in> {0,1,2,3,4,5,6,7}" by auto
  then show "bit ((ucast (x AND 0xf8) :: u8) AND 7) n = bit (0 :: u8) n"
    by (auto simp: bits bit_ucast_iff)
qed

lemma elcr_masked: "(ucast ((v :: u32) AND ucast (m :: u8)) :: u8) AND NOT m = 0"
  by (rule u8_eqI) (auto simp: bits bit_ucast_iff)

lemma pic_ok_set_irq1: "pic_ok (pic_set_irq1 s irq level) = pic_ok s"
  "elcr_mask (pic_set_irq1 s irq level) = elcr_mask s"
  by (simp_all add: pic_set_irq1_def pic_ok_def Let_def)

lemma pic_ok_intack: "pic_ok s \<Longrightarrow> pic_ok (pic_intack s irq)"
  "elcr_mask (pic_intack s irq) = elcr_mask s"
  by (simp_all add: pic_intack_def pic_ok_def Let_def u8_small)

lemma pic_ok_reset: "pic_ok s \<Longrightarrow> pic_ok (pic_reset s)" "elcr_mask (pic_reset s) = elcr_mask s"
  by (simp_all add: pic_reset_def pic_ok_def)

lemma pic_inv_upd:
  "pic_inv s2 \<Longrightarrow> (\<And>s. pic_ok s \<Longrightarrow> pic_ok (f s)) \<Longrightarrow> (\<And>s. elcr_mask (f s) = elcr_mask s) \<Longrightarrow>
     pic_inv (upd_pic n f s2)"
  by (auto simp: pic_inv_def)

lemma pic_inv_parent [simp]: "pic_inv (s2\<lparr>parent_irq := l\<rparr>) = pic_inv s2"
  by (simp add: pic_inv_def)

lemma pic_inv_update_irq: "pic_inv s2 \<Longrightarrow> pic_inv (pic_update_irq s2)"
  unfolding pic_update_irq_def Let_def
  by (auto intro!: pic_inv_upd simp: pic_ok_set_irq1 split: option.split)

lemma pic_inv_poll_read: "pic_inv s2 \<Longrightarrow> pic_inv (snd (pic_poll_read s2 n a))"
  unfolding pic_poll_read_def Let_def
  by (auto intro!: pic_inv_upd pic_inv_update_irq simp: pic_ok_def split: option.split)

lemma pic_inv_set_irq: "pic_inv s2 \<Longrightarrow> pic_inv (i8259_set_irq s2 irq level)"
  unfolding i8259_set_irq_def
  by (intro pic_inv_update_irq pic_inv_upd) (simp_all add: pic_ok_set_irq1)

lemma pic_inv_read_irq: "pic_inv s2 \<Longrightarrow> pic_inv (snd (pic_read_irq s2))"
  unfolding pic_read_irq_def Let_def
  by (auto intro!: pic_inv_upd pic_inv_update_irq simp: pic_ok_intack split: option.split)

lemma ocw2_cmd_bit7: "drop_bit 5 (val :: u32) = c \<Longrightarrow> drop_bit 7 val = drop_bit 2 c"
  by (auto simp: drop_bit_drop_bit)

lemma pic_inv_ocw2: "pic_inv s2 \<Longrightarrow> pic_inv (pic_write_ocw2 s2 n val)"
  unfolding pic_write_ocw2_def Let_def
  by (auto intro!: pic_inv_upd pic_inv_update_irq simp: pic_ok_def u8_small dest: ocw2_cmd_bit7)

lemma pic_inv_data: "pic_inv s2 \<Longrightarrow> pic_inv (pic_write_data s2 n val)"
  unfolding pic_write_data_def Let_def
  by (auto intro!: pic_inv_upd pic_inv_update_irq simp: pic_ok_def u8_small ucast_f8_and_7)

lemma pic_inv_ioport_write: "pic_inv s2 \<Longrightarrow> pic_ioport_write s2 n a val = Inr s2' \<Longrightarrow> pic_inv s2'"
  by (auto simp: pic_ioport_write_def pic_write_icw1_def pic_write_ocw3_def Let_def pic_ok_def u8_small
      pic_reset_def intro!: pic_inv_upd pic_inv_ocw2 pic_inv_data split: if_splits)

lemma pic_inv_ioport_read: "pic_inv s2 \<Longrightarrow> pic_inv (snd (pic_ioport_read s2 n a))"
  using pic_inv_poll_read [of s2 n a]
  by (auto simp: pic_ioport_read_def Let_def pic_ok_def split: prod.splits intro!: pic_inv_upd)

lemma pic_inv_intack_read: "pic_inv s2 \<Longrightarrow> pic_inv (snd (pic_intack_read s2))"
  using pic_inv_poll_read [of s2 0 0] pic_inv_poll_read [of "snd (pic_poll_read s2 0 0)" 1 128]
  by (auto simp: pic_intack_read_def Let_def pic_ok_def split: prod.splits intro!: pic_inv_upd)

lemma pic_inv_elcr_write: "pic_inv s2 \<Longrightarrow> pic_inv (elcr_ioport_write s2 n val)"
  by (auto simp: elcr_ioport_write_def pic_ok_def elcr_masked intro!: pic_inv_upd)

lemma pic_inv_step: "pic_inv s \<Longrightarrow> pic_step s e = Inr s' \<Longrightarrow> pic_inv s'"
  by (cases e)
     (auto intro!: pic_inv_set_irq pic_inv_read_irq pic_inv_ioport_read pic_inv_intack_read
      pic_inv_elcr_write pic_inv_upd pic_ok_reset elim: pic_inv_ioport_write)

lemma pic_inv_init: "pic_inv i8259_init"
  by (simp add: pic_inv_def i8259_init_def pic_zero_def pic_ok_def)

interpretation pic_sys: err_system pic_step pic_inv
  by unfold_locales (rule pic_inv_step)

text \<open>
  C40: in every run of the controllers from power-on, whatever the lines, the CPU and the guest's
  port accesses do, the rotation pointer stays below 8, the initialisation automaton in its four
  states, the vector base a multiple of 8, the flags boolean, and no line outside the PIIX masks
  \<open>0xf8\<close>/\<open>0xde\<close> is ever level triggered.
\<close>

theorem pic_run_invariant:
  assumes "run_err pic_step i8259_init es = Inr s"
  shows "pic_inv s"
  using pic_inv_init assms by (rule pic_sys.einv_run)


section \<open>Acknowledge and end of interrupt\<close>

lemma pic_set_irq1_frame [simp]:
  "isr (pic_set_irq1 p k l) = isr p" "imr (pic_set_irq1 p k l) = imr p"
  "elcr (pic_set_irq1 p k l) = elcr p" "irq_base (pic_set_irq1 p k l) = irq_base p"
  "priority_add (pic_set_irq1 p k l) = priority_add p"
  "auto_eoi (pic_set_irq1 p k l) = auto_eoi p"
  "special_mask (pic_set_irq1 p k l) = special_mask p"
  "special_fully_nested_mode (pic_set_irq1 p k l) = special_fully_nested_mode p"
  by (simp_all add: pic_set_irq1_def Let_def)

lemma pic_update_irq_slave [simp]: "n \<noteq> 0 \<Longrightarrow> pics (pic_update_irq s) n = pics s n"
  by (simp add: pic_update_irq_def Let_def split: option.split)

lemma pic_update_irq_frame [simp]:
  "isr (pics (pic_update_irq s) n) = isr (pics s n)"
  "imr (pics (pic_update_irq s) n) = imr (pics s n)"
  "elcr (pics (pic_update_irq s) n) = elcr (pics s n)"
  "priority_add (pics (pic_update_irq s) n) = priority_add (pics s n)"
  "auto_eoi (pics (pic_update_irq s) n) = auto_eoi (pics s n)"
  "special_mask (pics (pic_update_irq s) n) = special_mask (pics s n)"
  "special_fully_nested_mode (pics (pic_update_irq s) n) = special_fully_nested_mode (pics s n)"
  by (simp_all add: pic_update_irq_def Let_def split: option.split)

lemma prio_cong: "priority_add p = priority_add q \<Longrightarrow> prio p i = prio q i"
  by (simp add: prio_def)

lemma get_priority_cong: "priority_add p = priority_add q \<Longrightarrow> get_priority p m = get_priority q m"
  by (simp add: get_priority_def)

lemma pic_get_irq_cong: "pics s n = pics t n \<Longrightarrow> pic_get_irq s n = pic_get_irq t n"
  by (simp add: pic_get_irq_def)

lemma get_priority_eqI:
  assumes "i < 8" "bit m i" "\<And>j. j < 8 \<Longrightarrow> bit m j \<Longrightarrow> prio p i \<le> prio p j"
  shows "get_priority p m = prio p i"
proof -
  have "m \<noteq> 0" using assms(2) by auto
  then obtain k where "k < 8" "bit m k" "prio p k = get_priority p m"
    using get_priority_attained by blast
  with assms get_priority_le [of i m p] show ?thesis by (metis le_antisym)
qed

text \<open>Fully nested mode: no special mask, no special fully nested mode, no automatic EOI.\<close>

definition nested_mode :: "PicState \<Rightarrow> bool" where
  "nested_mode p \<longleftrightarrow> auto_eoi p = 0 \<and> special_mask p = 0 \<and> special_fully_nested_mode p = 0"

lemma nested_above_isr:
  assumes "nested_mode (pics s n)" "pic_get_irq s n = Some i" "j < 8" "bit (isr (pics s n)) j"
  shows "prio (pics s n) i < prio (pics s n) j"
  using assms pic_get_irq_iff [of s n i] by (auto simp: nested_mode_def blocking_def)

lemma nested_not_in_service:
  assumes "nested_mode (pics s n)" "pic_get_irq s n = Some i"
  shows "\<not> bit (isr (pics s n)) i"
  using nested_above_isr [OF assms, of i] pic_get_irq_less [OF assms(2)] by auto

lemma intack_isr: "auto_eoi p = 0 \<Longrightarrow> isr (pic_intack p i) = isr p OR shl1 i"
  and intack_padd: "auto_eoi p = 0 \<Longrightarrow> priority_add (pic_intack p i) = priority_add p"
  by (simp_all add: pic_intack_def Let_def)

lemma nested_intack_priority:
  assumes "nested_mode (pics s n)" "pic_get_irq s n = Some i"
    and "priority_add q = priority_add (pics s n)"
  shows "get_priority q (isr (pics s n) OR shl1 i) = prio (pics s n) i"
proof -
  have "get_priority (pics s n) (isr (pics s n) OR shl1 i) = prio (pics s n) i"
    using nested_above_isr [OF assms(1,2)] pic_get_irq_less [OF assms(2)]
    by (intro get_priority_eqI) (auto simp: bits intro: less_imp_le)
  then show ?thesis using get_priority_cong [OF assms(3)] by simp
qed

lemma or_and_not_shl1: "\<not> bit x i \<Longrightarrow> (x OR shl1 i) AND NOT (shl1 i) = (x :: u8)"
  by (rule u8_eqI) (auto simp: bits)

lemma eoi_after_ack:
  assumes nm: "nested_mode (pics s n)" and get: "pic_get_irq s n = Some i"
    and t: "isr (pics t n) = isr (pics s n) OR shl1 i"
      "priority_add (pics t n) = priority_add (pics s n)"
    and w: "pic_ioport_write t n (if n = 0 then 0x20 else 0xa0) 0x20 = Inr t'"
  shows "isr (pics t' n) = isr (pics s n)"
proof -
  let ?p = "get_priority (pics t n) (isr (pics t n))"
  have p: "?p = prio (pics s n) i"
    using nested_intack_priority [OF nm get t(2)] t(1) by simp
  then have ne: "?p \<noteq> 8" by (metis less_irrefl prio_less)
  have irq: "(?p + unat (priority_add (pics t n))) mod 8 = i"
    using rank_of_prio [OF pic_get_irq_less [OF get]] p t(2) by simp
  have "t' = pic_write_ocw2 t n 0x20"
    using w by (simp add: pic_ioport_write_def split: if_splits)
  then have "isr (pics t' n) = isr (pics t n) AND NOT (shl1 i)"
    using ne irq by (simp add: pic_write_ocw2_def Let_def)
  then show ?thesis
    using t(1) or_and_not_shl1 [OF nested_not_in_service [OF nm get]] by simp
qed

lemma pic_read_irq_master:
  assumes "pic_get_irq s 0 = Some i"
  shows "isr (pics (snd (pic_read_irq s)) 0) = isr (pic_intack (pics s 0) i)"
    "priority_add (pics (snd (pic_read_irq s)) 0) = priority_add (pic_intack (pics s 0) i)"
  using assms by (simp_all add: pic_read_irq_def Let_def split: option.split)

lemma pic_read_irq_slave:
  assumes "pic_get_irq s 0 = Some 2" "pic_get_irq s 1 = Some i"
  shows "pics (snd (pic_read_irq s)) 1 = pic_intack (pics s 1) i"
proof -
  have "pic_get_irq (upd_pic 0 (\<lambda>p. pic_intack p 2) s) 1 = Some i"
    using assms(2) by (subst pic_get_irq_cong [of _ 1 s]) simp_all
  then show ?thesis
    using assms(1) by (simp add: pic_read_irq_def Let_def)
qed

text \<open>
  C22: in fully nested mode, acknowledging an interrupt and then sending a non-specific EOI to the
  master leaves its in-service register as it was: the EOI retires exactly the line that was
  acknowledged, although the command does not name it. The same holds for the slave when the
  interrupt came through the cascade.
\<close>

theorem pic_ack_eoi_roundtrip:
  assumes "pic_get_irq s 0 = Some i" "nested_mode (pics s 0)"
    and "pic_ioport_write (snd (pic_read_irq s)) 0 0x20 0x20 = Inr m"
  shows "isr (pics m 0) = isr (pics s 0)
    \<and> (i = 2 \<and> pic_get_irq s 1 = Some k \<and> nested_mode (pics s 1)
         \<and> pic_ioport_write m 1 0xa0 0x20 = Inr m' \<longrightarrow> isr (pics m' 1) = isr (pics s 1))"
proof (intro conjI impI)
  have "auto_eoi (pics s 0) = 0" using assms(2) by (simp add: nested_mode_def)
  then show "isr (pics m 0) = isr (pics s 0)"
    using eoi_after_ack [OF assms(2,1), of "snd (pic_read_irq s)" m] assms(3)
      pic_read_irq_master [OF assms(1)] by (simp add: intack_isr intack_padd)
  assume "i = 2 \<and> pic_get_irq s 1 = Some k \<and> nested_mode (pics s 1)
    \<and> pic_ioport_write m 1 0xa0 0x20 = Inr m'"
  then have k: "i = 2" "pic_get_irq s 1 = Some k" "nested_mode (pics s 1)"
    "pic_ioport_write m 1 0xa0 0x20 = Inr m'" by simp_all
  have "pics m 1 = pics (snd (pic_read_irq s)) 1"
    using assms(3) by (auto simp: pic_ioport_write_def pic_write_ocw2_def Let_def split: if_splits)
  then have "pics m 1 = pic_intack (pics s 1) k"
    using pic_read_irq_slave assms(1) k(1,2) by simp
  with k show "isr (pics m' 1) = isr (pics s 1)"
    using eoi_after_ack [OF k(3,2), of m m'] by (simp add: intack_isr intack_padd nested_mode_def)
qed

lemma i8259_set_irq_frame [simp]:
  "isr (pics (i8259_set_irq s irq l) n) = isr (pics s n)"
  "priority_add (pics (i8259_set_irq s irq l) n) = priority_add (pics s n)"
  "special_mask (pics (i8259_set_irq s irq l) n) = special_mask (pics s n)"
  "special_fully_nested_mode (pics (i8259_set_irq s irq l) n) = special_fully_nested_mode (pics s n)"
  "imr (pics (i8259_set_irq s irq l) n) = imr (pics s n)"
  by (simp_all add: i8259_set_irq_def)

definition set_lines :: "PicState2 \<Rightarrow> (nat \<times> int) list \<Rightarrow> PicState2" where
  "set_lines s ls = foldl (\<lambda>s (irq, level). i8259_set_irq s irq level) s ls"

lemma set_lines_frame [simp]:
  "isr (pics (set_lines s ls) n) = isr (pics s n)"
  "priority_add (pics (set_lines s ls) n) = priority_add (pics s n)"
  "special_mask (pics (set_lines s ls) n) = special_mask (pics s n)"
  "special_fully_nested_mode (pics (set_lines s ls) n) = special_fully_nested_mode (pics s n)"
  "imr (pics (set_lines s ls) n) = imr (pics s n)"
  unfolding set_lines_def by (induction ls arbitrary: s) (auto split: prod.splits)

lemma pic_read_irq_modes:
  "nested_mode (pics s 0) \<Longrightarrow> special_mask (pics (snd (pic_read_irq s)) 0) = 0"
  "nested_mode (pics s 0) \<Longrightarrow> special_fully_nested_mode (pics (snd (pic_read_irq s)) 0) = 0"
  by (simp_all add: pic_read_irq_def Let_def nested_mode_def pic_intack_def split: option.split)

text \<open>
  C23: after an acknowledge in fully nested mode, and whatever the 16 lines do before the next EOI,
  the master delivers nothing of the same or a lower priority: a line it offers has a strictly
  higher priority than the one in service.
\<close>

theorem pic_nesting:
  assumes "pic_get_irq s 0 = Some i" "nested_mode (pics s 0)"
    and "pic_get_irq (set_lines (snd (pic_read_irq s)) ls) 0 = Some j"
  shows "prio (pics s 0) j < prio (pics s 0) i"
proof -
  let ?t = "set_lines (snd (pic_read_irq s)) ls"
  have ae: "auto_eoi (pics s 0) = 0" using assms(2) by (simp add: nested_mode_def)
  have "bit (isr (pics ?t 0)) i"
    using pic_read_irq_master(1) [OF assms(1)] pic_get_irq_less [OF assms(1)] ae
    by (simp add: intack_isr bits)
  then have "blocking ?t 0 i" using pic_read_irq_modes [OF assms(2)] by (simp add: blocking_def)
  then have "prio (pics ?t 0) j < prio (pics ?t 0) i"
    using assms(3) pic_get_irq_less [OF assms(1)] pic_get_irq_iff [of ?t 0 j] by simp
  moreover have "priority_add (pics ?t 0) = priority_add (pics s 0)"
    using pic_read_irq_master(2) [OF assms(1)] ae by (simp add: intack_padd)
  ultimately show ?thesis by (simp add: prio_def)
qed

section \<open>Delivery of a request\<close>

lemma pic_get_irq_only:
  assumes "i < 8" "irr (pics s n) = shl1 i" "isr (pics s n) = 0" "\<not> bit (imr (pics s n)) i"
  shows "pic_get_irq s n = Some i"
  using assms by (simp add: pic_get_irq_iff requested_def blocking_def)

lemma pic_get_irq_idle: "irr (pics s n) = 0 \<Longrightarrow> pic_get_irq s n = None"
  by (simp add: pic_get_irq_def get_priority_def)

text \<open>A controller with nothing requested and nothing in service, line \<open>i\<close> low and unmasked.\<close>

definition idle_for :: "PicState \<Rightarrow> nat \<Rightarrow> bool" where
  "idle_for p i \<longleftrightarrow> irr p = 0 \<and> isr p = 0 \<and> \<not> bit (imr p) i \<and> \<not> bit (last_irr p) i"

lemma set_irq1_idle: "idle_for p i \<Longrightarrow> irr (pic_set_irq1 p i 1) = shl1 i"
  by (simp add: pic_set_irq1_def idle_for_def Let_def)

lemma set_irq1_pulse_idle:
  "idle_for p i \<Longrightarrow> \<not> bit (elcr p) i \<Longrightarrow> irr (pic_set_irq1 (pic_set_irq1 p i 1) i 0) = shl1 i"
  by (simp add: pic_set_irq1_def idle_for_def Let_def)

lemma elcr_f8_2: "\<not> bit (0xf8 :: u8) 2"
  by simp

lemma elcr_cascade_edge:
  assumes "pic_inv s" shows "\<not> bit (elcr (pics s 0)) 2"
proof -
  have "pic_ok (pics s 0)" and m: "elcr_mask (pics s 0) = 0xf8"
    using spec [OF assms [unfolded pic_inv_def], of 0] by simp_all
  then have "elcr (pics s 0) AND NOT (elcr_mask (pics s 0)) = 0"
    unfolding pic_ok_def by blast
  moreover note m
  moreover have "bit (x AND NOT y) 2 \<longleftrightarrow> bit x 2 \<and> \<not> bit y 2" for x y :: u8
    by (simp add: bits)
  ultimately show ?thesis by (metis bit_0_eq bot_fun_def bot_bool_def elcr_f8_2)
qed

lemma pic_deliver_master:
  assumes "idle_for (pics s 0) i" "irr (pics s 1) = 0" "i < 8" "i \<noteq> 2"
  shows "fst (pic_read_irq (i8259_set_irq s i 1)) = unat (irq_base (pics s 0)) + i"
    and "parent_irq (i8259_set_irq s i 1) = parent_irq s @ [1]"
proof -
  let ?t = "upd_pic 0 (\<lambda>p. pic_set_irq1 p i 1) s"
  have 0: "pic_get_irq ?t 0 = Some i"
    using assms(1,3) by (intro pic_get_irq_only) (simp_all add: set_irq1_idle, simp_all add: idle_for_def)
  have 1: "pic_get_irq ?t 1 = None" using assms(2) by (intro pic_get_irq_idle) simp
  have u: "i8259_set_irq s i 1 = ?t\<lparr>parent_irq := parent_irq s @ [1]\<rparr>"
    using assms(3) 0 1 by (simp add: i8259_set_irq_def pic_update_irq_def)
  then show "parent_irq (i8259_set_irq s i 1) = parent_irq s @ [1]" by simp
  have "pic_get_irq (?t\<lparr>parent_irq := parent_irq s @ [1]\<rparr>) 0 = Some i"
    using 0 by (subst pic_get_irq_cong [of _ 0 ?t]) simp_all
  then show "fst (pic_read_irq (i8259_set_irq s i 1)) = unat (irq_base (pics s 0)) + i"
    using assms(4) by (simp add: u pic_read_irq_def Let_def pic_intack_def)
qed

lemma div8_slave: "k < 8 \<Longrightarrow> (8 + k) div 8 = Suc 0"
  by (simp add: div_add1_eq)

lemma pic_deliver_slave:
  assumes "pic_inv s" "idle_for (pics s 0) 2" "idle_for (pics s 1) k" "k < 8"
  shows "fst (pic_read_irq (i8259_set_irq s (8 + k) 1)) = unat (irq_base (pics s 1)) + k"
    and "parent_irq (i8259_set_irq s (8 + k) 1) = parent_irq s @ [1]"
proof -
  let ?t = "upd_pic 1 (\<lambda>p. pic_set_irq1 p k 1) s"
  let ?u = "upd_pic 0 (\<lambda>p. pic_set_irq1 p 2 0) (upd_pic 0 (\<lambda>p. pic_set_irq1 p 2 1) ?t)"
  have 1: "pic_get_irq ?t 1 = Some k"
    using assms(3,4) by (intro pic_get_irq_only) (simp_all add: set_irq1_idle, simp_all add: idle_for_def)
  have 0: "pic_get_irq ?u 0 = Some 2"
    using assms(2) elcr_cascade_edge [OF assms(1)]
    by (intro pic_get_irq_only) (simp_all add: set_irq1_pulse_idle, simp_all add: idle_for_def)
  have u: "i8259_set_irq s (8 + k) 1 = ?u\<lparr>parent_irq := parent_irq s @ [1]\<rparr>"
    using assms(4) 0 1 by (simp add: i8259_set_irq_def pic_update_irq_def Let_def div8_slave)
  then show "parent_irq (i8259_set_irq s (8 + k) 1) = parent_irq s @ [1]" by simp
  let ?v = "?u\<lparr>parent_irq := parent_irq s @ [1]\<rparr>"
  have v0: "pic_get_irq ?v 0 = Some 2"
    using 0 by (subst pic_get_irq_cong [of _ 0 ?u]) simp_all
  have v1: "pic_get_irq (upd_pic 0 (\<lambda>p. pic_intack p 2) ?v) 1 = Some k"
    using 1 by (subst pic_get_irq_cong [of _ 1 ?t]) simp_all
  show "fst (pic_read_irq (i8259_set_irq s (8 + k) 1)) = unat (irq_base (pics s 1)) + k"
    unfolding u using v0 v1 by (simp add: pic_read_irq_def Let_def pic_intack_def)
qed

text \<open>
  C2: delivery through both controllers. When the controllers are idle and the line is unmasked,
  raising any of the 15 lines raises the CPU's interrupt line exactly once, and the acknowledge
  cycle that follows returns the vector programmed for that line: the master's base plus the line,
  or, through the cascade input, the slave's base plus the line's number on the slave.
\<close>

theorem pic_delivery:
  assumes "pic_inv s" "irq < 16" "irq \<noteq> 2"
    and "irr (pics s 1) = 0"
    and "idle_for (pics s 0) (if irq < 8 then irq else 2)"
    and "8 \<le> irq \<longrightarrow> idle_for (pics s 1) (irq - 8)"
  shows "parent_irq (i8259_set_irq s irq 1) = parent_irq s @ [1]
    \<and> fst (pic_read_irq (i8259_set_irq s irq 1)) =
      (if irq < 8 then unat (irq_base (pics s 0)) + irq
       else unat (irq_base (pics s 1)) + (irq - 8))"
proof (cases "irq < 8")
  case True
  with assms pic_deliver_master [of s irq] show ?thesis by simp
next
  case False
  with assms pic_deliver_slave [of s "irq - 8"] show ?thesis by simp
qed

section \<open>Edge and level triggering\<close>

text \<open>
  A line that stays high after its interrupt was acknowledged requests another one exactly
  when it is level triggered: an edge is delivered once.
\<close>

theorem pic_held_line:
  assumes "i < 8"
  shows "bit (irr (pic_set_irq1 (pic_intack (pic_set_irq1 p i 1) i) i 1)) i \<longleftrightarrow> bit (elcr p) i"
  using assms by (auto simp: pic_set_irq1_def pic_intack_def Let_def bits)

section \<open>Initialisation\<close>

text \<open>
  The four initialisation command words. After ICW1 = \<open>0x11\<close> on the command port and ICW2,
  ICW3, ICW4 on the data port, from any state of the controller, it is back in normal operation
  with everything unmasked, nothing pending or in service, its vector base taken from ICW2 and
  the automatic EOI and special fully nested flags from ICW4; the trigger modes and the other
  controller are unchanged, and the CPU's line was dropped.
\<close>

theorem pic_init_sequence:
  "\<exists>t. run_err pic_step s
      [IoWrite n 0x20 0x11, IoWrite n 0x21 icw2, IoWrite n 0x21 icw3, IoWrite n 0x21 icw4] = Inr t
    \<and> init_state (pics t n) = 0 \<and> irr (pics t n) = 0 \<and> isr (pics t n) = 0
    \<and> imr (pics t n) = 0 \<and> irq_base (pics t n) = ucast (icw2 AND 0xf8)
    \<and> auto_eoi (pics t n) = ucast (drop_bit 1 icw4 AND 1)
    \<and> special_fully_nested_mode (pics t n) = ucast (drop_bit 4 icw4 AND 1)
    \<and> elcr (pics t n) = elcr (pics s n)
    \<and> (\<forall>m. m \<noteq> n \<longrightarrow> pics t m = pics s m)
    \<and> parent_irq t = parent_irq s @ [0]"
  by (simp add: pic_ioport_write_def pic_write_icw1_def pic_write_data_def pic_reset_def Let_def)

section \<open>Witnesses\<close>

definition pic_booted :: PicState2 where
  "pic_booted = i8259_init\<lparr>pics := \<lambda>n. (pics i8259_init n)\<lparr>irq_base := if n = 0 then 8 else 0x70\<rparr>\<rparr>"

definition pic_line1 :: PicState2 where
  "pic_line1 = pic_booted\<lparr>pics := \<lambda>n. (pics pic_booted n)\<lparr>irr := shl1 (1 + n)\<rparr>\<rparr>"

lemmas pic_example_defs = pic_line1_def pic_booted_def i8259_init_def pic_zero_def

lemma pic_line1_get: "pic_get_irq pic_line1 0 = Some 1"
  by (rule pic_get_irq_only) (simp_all add: pic_example_defs)

lemma pic_line1_nested: "nested_mode (pics pic_line1 n)"
  by (simp add: pic_example_defs nested_mode_def)

theorem pic_get_irq_correct_witness: "pic_get_irq pic_line1 0 = Some 1"
  unfolding pic_get_irq_correct
  by (simp add: requested_def blocking_def pic_example_defs)

theorem pic_run_invariant_witness:
  "\<exists>s. run_err pic_step i8259_init [SetIrq 9 1, ReadIrq, IoWrite 0 0x20 0x20] = Inr s \<and> pic_inv s"
proof -
  obtain s where "run_err pic_step i8259_init [SetIrq 9 1, ReadIrq, IoWrite 0 0x20 0x20] = Inr s"
    by (simp add: pic_ioport_write_def)
  with pic_run_invariant show ?thesis by blast
qed

theorem pic_ack_eoi_roundtrip_witness:
  "\<exists>m. pic_ioport_write (snd (pic_read_irq pic_line1)) 0 0x20 0x20 = Inr m
     \<and> isr (pics (snd (pic_read_irq pic_line1)) 0) = 2 \<and> isr (pics m 0) = 0"
proof -
  obtain m where m: "pic_ioport_write (snd (pic_read_irq pic_line1)) 0 0x20 0x20 = Inr m"
    by (simp add: pic_ioport_write_def)
  have "isr (pics m 0) = isr (pics pic_line1 0)"
    using pic_ack_eoi_roundtrip [OF pic_line1_get pic_line1_nested m] by blast
  moreover have "isr (pics (snd (pic_read_irq pic_line1)) 0) = 2"
    using pic_read_irq_master(1) [OF pic_line1_get]
    by (simp add: pic_intack_def pic_example_defs shl1_def)
  ultimately show ?thesis using m by (simp add: pic_example_defs)
qed

lemma pic_update_irq_bits:
  "j < 8 \<Longrightarrow> j \<noteq> 2 \<Longrightarrow> bit (irr (pics (pic_update_irq s) n)) j = bit (irr (pics s n)) j"
  "j < 8 \<Longrightarrow> j \<noteq> 2 \<Longrightarrow> bit (last_irr (pics (pic_update_irq s) n)) j = bit (last_irr (pics s n)) j"
  by (simp_all add: pic_update_irq_def pic_set_irq1_def Let_def bits split: option.split)

lemma pic_intack_frame [simp]:
  "last_irr (pic_intack p i) = last_irr p" "imr (pic_intack p i) = imr p"
  by (simp_all add: pic_intack_def Let_def)

lemma pic_read_irq_lines:
  "imr (pics (snd (pic_read_irq s)) n) = imr (pics s n)"
  "j < 8 \<Longrightarrow> j \<noteq> 2 \<Longrightarrow>
     bit (last_irr (pics (snd (pic_read_irq s)) n)) j = bit (last_irr (pics s n)) j"
  by (simp_all add: pic_read_irq_def Let_def pic_update_irq_bits split: option.split)

lemma i8259_set_irq_rise:
  "i < 8 \<Longrightarrow> i \<noteq> 2 \<Longrightarrow> \<not> bit (last_irr (pics s 0)) i \<Longrightarrow> bit (irr (pics (i8259_set_irq s i 1) 0)) i"
  by (simp add: i8259_set_irq_def pic_update_irq_bits pic_set_irq1_def Let_def bits)

theorem pic_nesting_witness:
  "pic_get_irq (set_lines (snd (pic_read_irq pic_line1)) [(0, 1)]) 0 = Some 0
    \<and> prio (pics pic_line1 0) 0 < prio (pics pic_line1 0) 1"
proof -
  let ?t = "set_lines (snd (pic_read_irq pic_line1)) [(0, 1)]"
  have t: "isr (pics ?t 0) = shl1 1" "priority_add (pics ?t 0) = 0"
    using pic_read_irq_master [OF pic_line1_get]
    by (simp_all add: pic_intack_def pic_example_defs)
  have "bit (irr (pics ?t 0)) 0 \<and> imr (pics ?t 0) = 0"
    using i8259_set_irq_rise [of 0 "snd (pic_read_irq pic_line1)"]
    by (simp add: set_lines_def pic_read_irq_lines) (simp add: pic_example_defs)
  then have "pic_get_irq ?t 0 = Some 0"
    unfolding pic_get_irq_iff using t
    by (auto simp: requested_def blocking_def prio_def)
  with pic_nesting [OF pic_line1_get pic_line1_nested, of "[(0, 1)]" 0] show ?thesis by simp
qed

theorem pic_delivery_witness:
  "fst (pic_read_irq (i8259_set_irq pic_booted 9 1)) = 0x71
    \<and> fst (pic_read_irq (i8259_set_irq pic_booted 1 1)) = 9"
proof -
  have "pic_inv pic_booted" by (simp add: pic_inv_def pic_ok_def pic_example_defs)
  then show ?thesis
    using pic_delivery [of pic_booted 9] pic_delivery [of pic_booted 1]
    by (simp add: idle_for_def pic_example_defs)
qed

theorem pic_held_line_witness:
  "\<not> bit (irr (pic_set_irq1 (pic_intack (pic_set_irq1 pic_zero 4 1) 4) 4 1)) 4"
  using pic_held_line [of 4 pic_zero] by (simp add: pic_zero_def)


theorem pic_init_sequence_witness:
  "\<exists>t. run_err pic_step pic_line1
      [IoWrite 0 0x20 0x11, IoWrite 0 0x21 0x30, IoWrite 0 0x21 4, IoWrite 0 0x21 3] = Inr t
    \<and> irr (pics t 0) = 0 \<and> irq_base (pics t 0) = 0x30 \<and> auto_eoi (pics t 0) = 1
    \<and> irr (pics t 1) = 4"
proof -
  obtain t where t: "run_err pic_step pic_line1
      [IoWrite 0 0x20 0x11, IoWrite 0 0x21 0x30, IoWrite 0 0x21 4, IoWrite 0 0x21 3] = Inr t"
    and f: "irr (pics t 0) = 0" "irq_base (pics t 0) = ucast ((0x30 :: u32) AND 0xf8)"
      "auto_eoi (pics t 0) = ucast (drop_bit 1 (3 :: u32) AND 1)" "pics t 1 = pics pic_line1 1"
    using pic_init_sequence [of pic_line1 0 "0x30" 4 3] by auto
  from f have "irr (pics t 0) = 0 \<and> irq_base (pics t 0) = 0x30 \<and> auto_eoi (pics t 0) = 1
      \<and> irr (pics t 1) = 4"
    by (simp add: pic_example_defs shl1_def)
  with t show ?thesis by blast
qed

end
