(* ===== verification/Ps2.thy ===== *)
theory Ps2
  imports Prelude
begin

text \<open>
  The PS/2 keyboard and mouse, \<open>hw/ps2.c\<close>. The callback \<open>update_irq\<close> of a device is modelled by
  the sequence of levels it was called with; the keyboard controller (theory \<open>Pckbd\<close>) replays them.
  \<open>kbd_put_ledstate\<close> hands the LED bits to the display code: its arguments are recorded in \<open>leds\<close>.
  Values of type \<open>int\<close> in the source that are stored into \<open>uint8_t\<close> fields are truncated at the
  store. The two 128-byte scancode tables are copied. The motion a mouse accumulates is an \<open>int\<close> of the
  source and unbounded here; the property about it is for motions far inside the C type.
\<close>

definition PS2_QUEUE_SIZE :: nat where "PS2_QUEUE_SIZE = 256"

record PS2Queue =
  data :: "u8 list"
  rptr :: nat
  wptr :: nat
  count :: nat

record PS2State =
  queue :: PS2Queue
  write_cmd :: int
  update_irq :: "int list"

record PS2KbdState =
  kcommon :: PS2State
  scan_enabled :: int
  translate :: int
  scancode_set :: int
  leds :: "int list"

record PS2MouseState =
  mcommon :: PS2State
  mouse_status :: u8
  mouse_resolution :: u8
  mouse_sample_rate :: u8
  mouse_wrap :: u8
  mouse_type :: u8
  mouse_detect_state :: u8
  mouse_dx :: int
  mouse_dy :: int
  mouse_dz :: int
  mouse_buttons :: u8

definition ps2_raw_keycode :: "int list" where
  "ps2_raw_keycode = [
  0, 118,  22,  30,  38,  37,  46,  54,  61,  62,  70,  69,  78,  85, 102,  13,
 21,  29,  36,  45,  44,  53,  60,  67,  68,  77,  84,  91,  90,  20,  28,  27,
 35,  43,  52,  51,  59,  66,  75,  76,  82,  14,  18,  93,  26,  34,  33,  42,
 50,  49,  58,  65,  73,  74,  89, 124,  17,  41,  88,   5,   6,   4,  12,   3,
 11,   2,  10,   1,   9, 119, 126, 108, 117, 125, 123, 107, 115, 116, 121, 105,
114, 122, 112, 113, 127,  96,  97, 120,   7,  15,  23,  31,  39,  47,  55,  63,
 71,  79,  86,  94,   8,  16,  24,  32,  40,  48,  56,  64,  72,  80,  87, 111,
 19,  25,  57,  81,  83,  92,  95,  98,  99, 100, 101, 103, 104, 106, 109, 110]"

definition ps2_raw_keycode_set3 :: "int list" where
  "ps2_raw_keycode_set3 = [
  0,   8,  22,  30,  38,  37,  46,  54,  61,  62,  70,  69,  78,  85, 102,  13,
 21,  29,  36,  45,  44,  53,  60,  67,  68,  77,  84,  91,  90,  17,  28,  27,
 35,  43,  52,  51,  59,  66,  75,  76,  82,  14,  18,  92,  26,  34,  33,  42,
 50,  49,  58,  65,  73,  74,  89, 126,  25,  41,  20,   7,  15,  23,  31,  39,
 47,   2,  63,  71,  79, 118,  95, 108, 117, 125, 132, 107, 115, 116, 124, 105,
114, 122, 112, 113, 127,  96,  97,  86,  94,  15,  23,  31,  39,  47,  55,  63,
 71,  79,  86,  94,   8,  16,  24,  32,  40,  48,  56,  64,  72,  80,  87, 111,
 19,  25,  57,  81,  83,  92,  95,  98,  99, 100, 101, 103, 104, 106, 109, 110]"

section \<open>The byte queue\<close>

definition ps2_queue :: "PS2State \<Rightarrow> int \<Rightarrow> PS2State" where
  "ps2_queue s b =
     (let q = queue s in
      if count q \<ge> PS2_QUEUE_SIZE then s
      else
        (let q = q\<lparr>data := (data q)[wptr q := word_of_int b]\<rparr>;
             q = q\<lparr>wptr := wptr q + 1\<rparr>;
             q = (if wptr q = PS2_QUEUE_SIZE then q\<lparr>wptr := 0\<rparr> else q);
             q = q\<lparr>count := count q + 1\<rparr>
         in s\<lparr>queue := q, update_irq := update_irq s @ [1]\<rparr>))"

definition ps2_read_data :: "PS2State \<Rightarrow> u8 \<times> PS2State" where
  "ps2_read_data s =
     (let q = queue s in
      if count q = 0 then
        (let index = int (rptr q) - 1;
             index = (if index < 0 then int PS2_QUEUE_SIZE - 1 else index)
         in (data q ! nat index, s))
      else
        (let val = data q ! rptr q;
             q = q\<lparr>rptr := rptr q + 1\<rparr>;
             q = (if rptr q = PS2_QUEUE_SIZE then q\<lparr>rptr := 0\<rparr> else q);
             q = q\<lparr>count := count q - 1\<rparr>
         in (val, s\<lparr>queue := q,
                   update_irq := update_irq s @ [0] @ [if count q \<noteq> 0 then 1 else 0]\<rparr>)))"

definition ps2_common_reset :: "PS2State \<Rightarrow> PS2State" where
  "ps2_common_reset s =
     s\<lparr>write_cmd := -1, queue := (queue s)\<lparr>rptr := 0, wptr := 0, count := 0\<rparr>,
       update_irq := update_irq s @ [0]\<rparr>"

section \<open>The keyboard\<close>

abbreviation kqueue :: "int \<Rightarrow> PS2KbdState \<Rightarrow> PS2KbdState" where
  "kqueue b s \<equiv> s\<lparr>kcommon := ps2_queue (kcommon s) b\<rparr>"

definition ps2_put_keycode :: "PS2KbdState \<Rightarrow> int \<Rightarrow> PS2KbdState" where
  "ps2_put_keycode s keycode =
     (let (s, keycode) =
        (if translate s = 0 \<and> keycode < 0xe0 \<and> scancode_set s > 1 then
           (let s = (if keycode AND 0x80 \<noteq> 0 then kqueue 0xf0 s else s)
            in if scancode_set s = 2 then (s, ps2_raw_keycode ! nat (keycode AND 0x7f))
               else if scancode_set s = 3 then (s, ps2_raw_keycode_set3 ! nat (keycode AND 0x7f))
               else (s, keycode))
         else (s, keycode))
      in kqueue keycode s)"

definition ps2_reset_keyboard :: "PS2KbdState \<Rightarrow> PS2KbdState" where
  "ps2_reset_keyboard s = s\<lparr>scan_enabled := 1, scancode_set := 2, leds := leds s @ [0]\<rparr>"

text \<open>A command byte of \<open>ps2_write_keyboard\<close> (no parameter pending), then its parameter bytes.\<close>

definition ps2_kbd_command :: "PS2KbdState \<Rightarrow> int \<Rightarrow> PS2KbdState" where
  "ps2_kbd_command s val =
     (if val = 0x00 then kqueue 0xFA s
      else if val = 0x05 then kqueue 0xFE s
      else if val = 0xF2 then
        (let s = kqueue 0xAB (kqueue 0xFA s) in if translate s \<noteq> 0 then kqueue 0x41 s else kqueue 0x83 s)
      else if val = 0xEE then kqueue 0xEE s
      else if val = 0xF4 then kqueue 0xFA (s\<lparr>scan_enabled := 1\<rparr>)
      else if val = 0xF0 \<or> val = 0xED \<or> val = 0xF3 then
        kqueue 0xFA (s\<lparr>kcommon := (kcommon s)\<lparr>write_cmd := val\<rparr>\<rparr>)
      else if val = 0xF5 then kqueue 0xFA ((ps2_reset_keyboard s)\<lparr>scan_enabled := 0\<rparr>)
      else if val = 0xF6 then kqueue 0xFA ((ps2_reset_keyboard s)\<lparr>scan_enabled := 1\<rparr>)
      else if val = 0xFF then kqueue 0xAA (kqueue 0xFA (ps2_reset_keyboard s))
      else kqueue 0xFA s)"

definition ps2_kbd_parameter :: "PS2KbdState \<Rightarrow> int \<Rightarrow> PS2KbdState" where
  "ps2_kbd_parameter s val =
     (let s =
        (if write_cmd (kcommon s) = 0xF0 then
           (if val = 0 then
              (if scancode_set s = 1 then ps2_put_keycode s 0x43
               else if scancode_set s = 2 then ps2_put_keycode s 0x41
               else if scancode_set s = 3 then ps2_put_keycode s 0x3f
               else s)
            else
              kqueue 0xFA (if val \<ge> 1 \<and> val \<le> 3 then s\<lparr>scancode_set := val\<rparr> else s))
         else if write_cmd (kcommon s) = 0xED then kqueue 0xFA (s\<lparr>leds := leds s @ [val]\<rparr>)
         else kqueue 0xFA s)
      in s\<lparr>kcommon := (kcommon s)\<lparr>write_cmd := -1\<rparr>\<rparr>)"

definition ps2_write_keyboard :: "PS2KbdState \<Rightarrow> int \<Rightarrow> PS2KbdState" where
  "ps2_write_keyboard s val =
     (if write_cmd (kcommon s) = 0xF0 \<or> write_cmd (kcommon s) = 0xED \<or> write_cmd (kcommon s) = 0xF3
      then ps2_kbd_parameter s val else ps2_kbd_command s val)"

definition ps2_keyboard_set_translation :: "PS2KbdState \<Rightarrow> int \<Rightarrow> PS2KbdState" where
  "ps2_keyboard_set_translation s mode = s\<lparr>translate := mode\<rparr>"

definition ps2_kbd_reset :: "PS2KbdState \<Rightarrow> PS2KbdState" where
  "ps2_kbd_reset s =
     s\<lparr>kcommon := ps2_common_reset (kcommon s), scan_enabled := 0, translate := 0, scancode_set := 0\<rparr>"

definition ps2_kbd_post_load :: "PS2KbdState \<Rightarrow> int \<Rightarrow> PS2KbdState" where
  "ps2_kbd_post_load s version_id = (if version_id = 2 then s\<lparr>scancode_set := 2\<rparr> else s)"

section \<open>The mouse\<close>

abbreviation mqueue :: "int \<Rightarrow> PS2MouseState \<Rightarrow> PS2MouseState" where
  "mqueue b s \<equiv> s\<lparr>mcommon := ps2_queue (mcommon s) b\<rparr>"

definition clamp :: "int \<Rightarrow> int \<Rightarrow> int" where
  "clamp lim d = (if d > lim then lim else if d < - lim then - lim else d)"

definition ps2_mouse_send_packet :: "PS2MouseState \<Rightarrow> PS2MouseState" where
  "ps2_mouse_send_packet s =
     (let dx1 = clamp 127 (mouse_dx s);
          dy1 = clamp 127 (mouse_dy s);
          dz1 = mouse_dz s;
          b = 0x08 OR push_bit 4 (of_bool (dx1 < 0)) OR push_bit 5 (of_bool (dy1 < 0))
              OR (uint (mouse_buttons s) AND 0x07);
          s = mqueue b s;
          s = mqueue (dx1 AND 0xff) s;
          s = mqueue (dy1 AND 0xff) s;
          (s, dz1) =
            (if mouse_type s = 3 then
               (let dz1 = clamp 127 dz1 in (mqueue (dz1 AND 0xff) s, dz1))
             else if mouse_type s = 4 then
               (let dz1 = clamp 7 dz1;
                    b = (dz1 AND 0x0f) OR push_bit 1 (uint (mouse_buttons s) AND 0x18)
                in (mqueue b s, dz1))
             else (s, dz1))
      in s\<lparr>mouse_dx := mouse_dx s - dx1, mouse_dy := mouse_dy s - dy1, mouse_dz := mouse_dz s - dz1\<rparr>)"

abbreviation no_motion :: "PS2MouseState \<Rightarrow> bool" where
  "no_motion s \<equiv> mouse_dx s = 0 \<and> mouse_dy s = 0 \<and> mouse_dz s = 0"

definition motion :: "PS2MouseState \<Rightarrow> nat" where
  "motion s = nat \<bar>mouse_dx s\<bar> + nat \<bar>mouse_dy s\<bar> + nat \<bar>mouse_dz s\<bar>"

text \<open>What a packet takes off the pending motion.\<close>

definition packet_dz :: "PS2MouseState \<Rightarrow> int" where
  "packet_dz s = (if mouse_type s = 3 then clamp 127 (mouse_dz s)
                  else if mouse_type s = 4 then clamp 7 (mouse_dz s) else mouse_dz s)"

lemma send_packet_motion [simp]:
  "mouse_dx (ps2_mouse_send_packet s) = mouse_dx s - clamp 127 (mouse_dx s)"
  "mouse_dy (ps2_mouse_send_packet s) = mouse_dy s - clamp 127 (mouse_dy s)"
  "mouse_dz (ps2_mouse_send_packet s) = mouse_dz s - packet_dz s"
  by (simp_all add: ps2_mouse_send_packet_def packet_dz_def Let_def)

lemma clamp_progress:
  "0 < lim \<Longrightarrow> d \<noteq> 0 \<Longrightarrow> nat \<bar>d - clamp lim d\<bar> < nat \<bar>d\<bar>"
  "0 < lim \<Longrightarrow> nat \<bar>d - clamp lim d\<bar> \<le> nat \<bar>d\<bar>"
  "clamp lim 0 = (if 0 \<le> lim then 0 else lim)"
  by (auto simp: clamp_def)

lemma packet_dz_progress:
  "nat \<bar>mouse_dz s - packet_dz s\<bar> \<le> nat \<bar>mouse_dz s\<bar>"
  "mouse_dz s \<noteq> 0 \<Longrightarrow> nat \<bar>mouse_dz s - packet_dz s\<bar> < nat \<bar>mouse_dz s\<bar>"
  by (auto simp: packet_dz_def clamp_def)

lemma sum3_less:
  fixes a b c a' b' c' :: nat
  shows "a' \<le> a \<Longrightarrow> b' \<le> b \<Longrightarrow> c' \<le> c \<Longrightarrow> a' < a \<or> b' < b \<or> c' < c \<Longrightarrow> a' + b' + c' < a + b + c"
  by linarith

lemma send_packet_progress:
  assumes "\<not> no_motion (ps2_mouse_send_packet s)"
  shows "motion (ps2_mouse_send_packet s) < motion s"
proof -
  let ?x = "mouse_dx s" and ?y = "mouse_dy s" and ?z = "mouse_dz s"
  have le: "nat \<bar>?x - clamp 127 ?x\<bar> \<le> nat \<bar>?x\<bar>" "nat \<bar>?y - clamp 127 ?y\<bar> \<le> nat \<bar>?y\<bar>"
    "nat \<bar>?z - packet_dz s\<bar> \<le> nat \<bar>?z\<bar>"
    by (auto simp: clamp_def packet_dz_def)
  have "?x \<noteq> 0 \<or> ?y \<noteq> 0 \<or> ?z \<noteq> 0"
    using assms by (auto simp: clamp_def packet_dz_def split: if_splits)
  then have "nat \<bar>?x - clamp 127 ?x\<bar> < nat \<bar>?x\<bar> \<or> nat \<bar>?y - clamp 127 ?y\<bar> < nat \<bar>?y\<bar>
      \<or> nat \<bar>?z - packet_dz s\<bar> < nat \<bar>?z\<bar>"
    using clamp_progress(1) [OF zero_less_numeral] packet_dz_progress(2) by blast
  with le show ?thesis unfolding motion_def send_packet_motion by (rule sum3_less)
qed

text \<open>The sending loop of \<open>ps2_mouse_event\<close>.\<close>

function ps2_mouse_send_all :: "PS2MouseState \<Rightarrow> PS2MouseState" where
  "ps2_mouse_send_all s =
     (let s' = ps2_mouse_send_packet s in if no_motion s' then s' else ps2_mouse_send_all s')"
  by pat_completeness auto
termination
  by (relation "measure motion") (use send_packet_progress in \<open>auto simp: Let_def\<close>)

declare ps2_mouse_send_all.simps [simp del]

definition ps2_mouse_event :: "PS2MouseState \<Rightarrow> int \<Rightarrow> int \<Rightarrow> int \<Rightarrow> int \<Rightarrow> PS2MouseState" where
  "ps2_mouse_event s dx dy dz buttons_state =
     (if mouse_status s AND 0x20 = 0 then s
      else
       (let s = s\<lparr>mouse_dx := mouse_dx s + dx, mouse_dy := mouse_dy s - dy, mouse_dz := mouse_dz s + dz\<rparr>
        in if no_motion s \<and> uint (mouse_buttons s) = buttons_state then s
           else
            (let s = s\<lparr>mouse_buttons := word_of_int buttons_state\<rparr>
             in if mouse_status s AND 0x40 = 0 \<and> count (queue (mcommon s)) < PS2_QUEUE_SIZE - 16
                then ps2_mouse_send_all s else s)))"

definition ps2_mouse_fake_event :: "PS2MouseState \<Rightarrow> PS2MouseState" where
  "ps2_mouse_fake_event s = ps2_mouse_event s 1 0 0 0"

text \<open>\<open>ps2_write_mouse\<close>: the commands outside wrap mode, the sample-rate detector, the rest.\<close>

definition ps2_mouse_command :: "PS2MouseState \<Rightarrow> int \<Rightarrow> PS2MouseState" where
  "ps2_mouse_command s val =
     (if val = 0xE6 then mqueue 0xFA (s\<lparr>mouse_status := mouse_status s AND NOT 0x10\<rparr>)
      else if val = 0xE7 then mqueue 0xFA (s\<lparr>mouse_status := mouse_status s OR 0x10\<rparr>)
      else if val = 0xEA then mqueue 0xFA (s\<lparr>mouse_status := mouse_status s AND NOT 0x40\<rparr>)
      else if val = 0xEE then mqueue 0xFA (s\<lparr>mouse_wrap := 1\<rparr>)
      else if val = 0xF0 then mqueue 0xFA (s\<lparr>mouse_status := mouse_status s OR 0x40\<rparr>)
      else if val = 0xF2 then mqueue (uint (mouse_type s)) (mqueue 0xFA s)
      else if val = 0xE8 \<or> val = 0xF3 then
        mqueue 0xFA (s\<lparr>mcommon := (mcommon s)\<lparr>write_cmd := val\<rparr>\<rparr>)
      else if val = 0xE9 then
        mqueue (uint (mouse_sample_rate s)) (mqueue (uint (mouse_resolution s))
          (mqueue (uint (mouse_status s)) (mqueue 0xFA s)))
      else if val = 0xEB then ps2_mouse_send_packet (mqueue 0xFA s)
      else if val = 0xF4 then mqueue 0xFA (s\<lparr>mouse_status := mouse_status s OR 0x20\<rparr>)
      else if val = 0xF5 then mqueue 0xFA (s\<lparr>mouse_status := mouse_status s AND NOT 0x20\<rparr>)
      else if val = 0xF6 then
        mqueue 0xFA (s\<lparr>mouse_sample_rate := 100, mouse_resolution := 2, mouse_status := 0\<rparr>)
      else if val = 0xFF then
        (let s = s\<lparr>mouse_sample_rate := 100, mouse_resolution := 2, mouse_status := 0, mouse_type := 0\<rparr>
         in mqueue (uint (mouse_type s)) (mqueue 0xaa (mqueue 0xFA s)))
      else s)"

definition ps2_mouse_set_sample :: "PS2MouseState \<Rightarrow> int \<Rightarrow> PS2MouseState" where
  "ps2_mouse_set_sample s val =
     (let s = s\<lparr>mouse_sample_rate := word_of_int val\<rparr>;
          s = (if mouse_detect_state s = 1 then
                 (if val = 100 then s\<lparr>mouse_detect_state := 2\<rparr>
                  else if val = 200 then s\<lparr>mouse_detect_state := 3\<rparr>
                  else s\<lparr>mouse_detect_state := 0\<rparr>)
               else if mouse_detect_state s = 2 then
                 (if val = 80 then s\<lparr>mouse_type := 3\<rparr> else s)\<lparr>mouse_detect_state := 0\<rparr>
               else if mouse_detect_state s = 3 then
                 (if val = 80 then s\<lparr>mouse_type := 4\<rparr> else s)\<lparr>mouse_detect_state := 0\<rparr>
               else (if val = 200 then s\<lparr>mouse_detect_state := 1\<rparr> else s));
          s = mqueue 0xFA s
      in s\<lparr>mcommon := (mcommon s)\<lparr>write_cmd := -1\<rparr>\<rparr>)"

definition ps2_write_mouse :: "PS2MouseState \<Rightarrow> int \<Rightarrow> PS2MouseState" where
  "ps2_write_mouse s val =
     (if write_cmd (mcommon s) = 0xF3 then ps2_mouse_set_sample s val
      else if write_cmd (mcommon s) = 0xE8 then
        (let s = mqueue 0xFA (s\<lparr>mouse_resolution := word_of_int val\<rparr>)
         in s\<lparr>mcommon := (mcommon s)\<lparr>write_cmd := -1\<rparr>\<rparr>)
      else if mouse_wrap s \<noteq> 0 \<and> val = 0xEC then mqueue 0xFA (s\<lparr>mouse_wrap := 0\<rparr>)
      else if mouse_wrap s \<noteq> 0 \<and> val \<noteq> 0xFF then mqueue val s
      else ps2_mouse_command s val)"

definition ps2_mouse_reset :: "PS2MouseState \<Rightarrow> PS2MouseState" where
  "ps2_mouse_reset s =
     s\<lparr>mcommon := ps2_common_reset (mcommon s), mouse_status := 0, mouse_resolution := 0,
       mouse_sample_rate := 0, mouse_wrap := 0, mouse_type := 0, mouse_detect_state := 0,
       mouse_dx := 0, mouse_dy := 0, mouse_dz := 0, mouse_buttons := 0\<rparr>"

text \<open>\<open>ps2_kbd_init\<close> and \<open>ps2_mouse_init\<close> start from zeroed memory.\<close>

definition ps2_zero :: PS2State where
  "ps2_zero = \<lparr>queue = \<lparr>data = replicate 256 0, rptr = 0, wptr = 0, count = 0\<rparr>, write_cmd = 0,
     update_irq = []\<rparr>"

definition ps2_kbd_init :: PS2KbdState where
  "ps2_kbd_init = \<lparr>kcommon = ps2_zero, scan_enabled = 0, translate = 0, scancode_set = 2, leds = []\<rparr>"

definition ps2_mouse_init :: PS2MouseState where
  "ps2_mouse_init = \<lparr>mcommon = ps2_zero, mouse_status = 0, mouse_resolution = 0,
     mouse_sample_rate = 0, mouse_wrap = 0, mouse_type = 0, mouse_detect_state = 0, mouse_dx = 0,
     mouse_dy = 0, mouse_dz = 0, mouse_buttons = 0\<rparr>"

section \<open>The queue is a bounded FIFO\<close>

definition ps2_ok :: "PS2State \<Rightarrow> bool" where
  "ps2_ok s \<longleftrightarrow> length (data (queue s)) = 256 \<and> rptr (queue s) < 256 \<and> count (queue s) \<le> 256
     \<and> wptr (queue s) = (rptr (queue s) + count (queue s)) mod 256"

definition ps2_bytes :: "PS2State \<Rightarrow> u8 list" where
  "ps2_bytes s = ring_list (data (queue s)) (rptr (queue s)) (count (queue s))"

lemma length_ps2_bytes [simp]: "length (ps2_bytes s) = count (queue s)"
  by (simp add: ps2_bytes_def)

lemma ps2_ok_frame [simp]:
  "ps2_ok (s\<lparr>write_cmd := w\<rparr>) = ps2_ok s" "ps2_bytes (s\<lparr>write_cmd := w\<rparr>) = ps2_bytes s"
  "ps2_ok (s\<lparr>update_irq := u\<rparr>) = ps2_ok s" "ps2_bytes (s\<lparr>update_irq := u\<rparr>) = ps2_bytes s"
  by (simp_all add: ps2_ok_def ps2_bytes_def)

lemma ps2_queue_ok: "ps2_ok s \<Longrightarrow> ps2_ok (ps2_queue s b)"
  using Suc_mod_wrap [of "wptr (queue s)" 256]
  by (auto simp: ps2_ok_def ps2_queue_def PS2_QUEUE_SIZE_def Let_def mod_Suc_eq
      split: if_splits)

lemma ps2_queue_room:
  assumes "ps2_ok s" "count (queue s) < 256"
  shows "ps2_bytes (ps2_queue s b) = ps2_bytes s @ [word_of_int b]"
proof -
  let ?q = "queue s"
  have "ring_list ((data ?q)[wptr ?q := word_of_int b]) (rptr ?q) (Suc (count ?q))
      = ring_list (data ?q) (rptr ?q) (count ?q) @ [word_of_int b]"
    using assms by (intro ring_list_put) (simp_all add: ps2_ok_def)
  then show ?thesis
    using assms by (auto simp: ps2_bytes_def ps2_queue_def PS2_QUEUE_SIZE_def Let_def)
qed

lemma ps2_queue_full: "count (queue s) \<ge> 256 \<Longrightarrow> ps2_queue s b = s"
  by (simp add: ps2_queue_def PS2_QUEUE_SIZE_def Let_def)

lemma ps2_read_ok: "ps2_ok s \<Longrightarrow> ps2_ok (snd (ps2_read_data s))"
  by (cases "count (queue s)")
     (auto simp: ps2_ok_def ps2_read_data_def PS2_QUEUE_SIZE_def Let_def)

lemma ps2_read_bytes: "ps2_ok s \<Longrightarrow> ps2_bytes (snd (ps2_read_data s)) = tl (ps2_bytes s)"
  using Suc_mod_wrap [of "rptr (queue s)" 256]
    ring_list_mod_start [of "data (queue s)" "Suc (rptr (queue s))" "count (queue s) - 1"]
  by (auto simp: ps2_ok_def ps2_bytes_def ps2_read_data_def PS2_QUEUE_SIZE_def Let_def ring_list_tl)

lemma ps2_read_head:
  "ps2_ok s \<Longrightarrow> ps2_bytes s \<noteq> [] \<Longrightarrow> fst (ps2_read_data s) = hd (ps2_bytes s)"
  by (auto simp: ps2_ok_def ps2_bytes_def ps2_read_data_def Let_def ring_list_hd)

abbreviation ps2_put :: "PS2State \<Rightarrow> u8 \<Rightarrow> PS2State" where
  "ps2_put s b \<equiv> ps2_queue s (uint b)"

interpretation ps2q: byte_fifo ps2_ok ps2_bytes 256 ps2_put ps2_read_data
proof unfold_locales
  fix q :: PS2State and b :: u8
  assume q: "ps2_ok q"
  show "length (ps2_bytes q) \<le> 256" using q by (simp add: ps2_ok_def)
  show "ps2_ok (ps2_put q b)" using q by (rule ps2_queue_ok)
  show "ps2_bytes (ps2_put q b) = ps2_bytes q @ [b]" if "length (ps2_bytes q) < 256"
    using q that by (simp add: ps2_queue_room)
  show "ps2_bytes (ps2_put q b) = ps2_bytes q" if "length (ps2_bytes q) = 256"
    using that by (simp add: ps2_queue_full)
  show "ps2_ok (snd (ps2_read_data q))" using q by (rule ps2_read_ok)
  show "ps2_bytes (snd (ps2_read_data q)) = tl (ps2_bytes q)" using q by (rule ps2_read_bytes)
  show "fst (ps2_read_data q) = hd (ps2_bytes q)" if "ps2_bytes q \<noteq> []"
    using q that by (rule ps2_read_head)
qed

lemma ps2_queue_word: "ps2_queue s b = ps2_put s (word_of_int b :: u8)"
  by (simp only: ps2_queue_def word_of_int_uint)

lemma ps2_zero_ok [simp]: "ps2_ok ps2_zero" "ps2_bytes ps2_zero = []"
  by (simp_all add: ps2_ok_def ps2_zero_def ps2_bytes_def)

text \<open>
  C39: the PS/2 queue is a FIFO of 256 bytes. From any consistent state with an empty queue, the
  bytes of a burst that fits are read back in order; a longer burst keeps its first 256 bytes.
\<close>

theorem ps2_fifo:
  assumes "ps2_ok s" "ps2_bytes s = []"
  shows "fst (ps2q.drain (min 256 (length bs)) (foldl ps2_put s bs)) = take 256 bs"
proof -
  have c: "ps2_bytes (foldl ps2_put s bs) = take 256 bs"
    using assms by (simp add: ps2q.puts_contents)
  then show ?thesis
    using ps2q.drain_contents [OF ps2q.puts_invar [OF assms(1)], of "min 256 (length bs)" bs]
    by (simp add: min_def)
qed

theorem ps2_fifo_witness:
  "fst (ps2q.drain 3 (foldl ps2_put ps2_zero [0xFA, 0xAB, 0x83])) = [0xFA, 0xAB, 0x83]"
proof -
  have "min 256 (length [0xFA, 0xAB, 0x83 :: u8]) = 3"
    "take 256 [0xFA, 0xAB, 0x83 :: u8] = [0xFA, 0xAB, 0x83]" by simp_all
  then show ?thesis
    using ps2_fifo [OF ps2_zero_ok, of "[0xFA, 0xAB, 0x83]"] by (simp only:)
qed

section \<open>Mouse packets\<close>

abbreviation ps2_puts :: "PS2State \<Rightarrow> u8 list \<Rightarrow> PS2State" where
  "ps2_puts \<equiv> foldl ps2_put"

text \<open>The bytes of the packet a mouse sends next, and the packets the sending loop produces.\<close>

definition packet_bytes :: "PS2MouseState \<Rightarrow> u8 list" where
  "packet_bytes s =
     (let dx = clamp 127 (mouse_dx s); dy = clamp 127 (mouse_dy s) in
      [word_of_int (0x08 OR push_bit 4 (of_bool (dx < 0)) OR push_bit 5 (of_bool (dy < 0))
                    OR (uint (mouse_buttons s) AND 0x07)),
       word_of_int (dx AND 0xff), word_of_int (dy AND 0xff)]
      @ (if mouse_type s = 3 then [word_of_int (packet_dz s AND 0xff)]
         else if mouse_type s = 4 then
           [word_of_int ((packet_dz s AND 0x0f) OR push_bit 1 (uint (mouse_buttons s) AND 0x18))]
         else []))"

lemma send_packet_bytes:
  "mcommon (ps2_mouse_send_packet s) = ps2_puts (mcommon s) (packet_bytes s)"
  by (simp add: ps2_mouse_send_packet_def packet_bytes_def packet_dz_def Let_def
      del: of_int_uint uint_word_of_int_eq flip: ps2_queue_word)

lemma send_packet_type [simp]: "mouse_type (ps2_mouse_send_packet s) = mouse_type s"
  by (simp add: ps2_mouse_send_packet_def Let_def)

function mouse_packets :: "PS2MouseState \<Rightarrow> u8 list list" where
  "mouse_packets s =
     (let s' = ps2_mouse_send_packet s
      in packet_bytes s # (if no_motion s' then [] else mouse_packets s'))"
  by pat_completeness auto
termination
  by (relation "measure motion") (use send_packet_progress in \<open>auto simp: Let_def\<close>)

declare mouse_packets.simps [simp del]

lemma send_all_bytes:
  "mcommon (ps2_mouse_send_all s) = ps2_puts (mcommon s) (concat (mouse_packets s))"
proof (induction s rule: ps2_mouse_send_all.induct)
  case (1 s)
  then show ?case
    by (simp add: ps2_mouse_send_all.simps [of s] mouse_packets.simps [of s] Let_def send_packet_bytes)
qed

lemma sint_byte:
  fixes d :: int
  assumes "-128 \<le> d" "d < 128"
  shows "sint (word_of_int (d AND 0xff) :: u8) = d"
proof -
  have "d AND 0xff = take_bit 8 d"
    by (simp add: take_bit_eq_mask mask_eq_exp_minus_1)
  then have "(word_of_int (d AND 0xff) :: u8) = word_of_int d"
    by (simp add: word_of_int_eq_iff)
  then show ?thesis
    using assms by (simp add: sint_sbintrunc' signed_take_bit_int_eq_self)
qed

lemma clamp_range: "0 < lim \<Longrightarrow> - lim \<le> clamp lim d \<and> clamp lim d \<le> lim"
  by (simp add: clamp_def)

lemma packet_deltas:
  "sint (packet_bytes s ! Suc 0) = clamp 127 (mouse_dx s)"
  "sint (packet_bytes s ! 2) = clamp 127 (mouse_dy s)"
  using clamp_range [of 127 "mouse_dx s"] clamp_range [of 127 "mouse_dy s"]
  by (simp_all add: packet_bytes_def Let_def sint_byte)

lemma packet_wheel: "mouse_type s = 3 \<Longrightarrow> sint (packet_bytes s ! 3) = packet_dz s"
  using clamp_range [of 127 "mouse_dz s"]
  by (simp add: packet_bytes_def Let_def sint_byte packet_dz_def)

lemma packets_sum:
  "(\<Sum>p \<leftarrow> mouse_packets s. sint (p ! 1)) = mouse_dx s
     \<and> (\<Sum>p \<leftarrow> mouse_packets s. sint (p ! 2)) = mouse_dy s
     \<and> (mouse_type s = 3 \<longrightarrow> (\<Sum>p \<leftarrow> mouse_packets s. sint (p ! 3)) = mouse_dz s)"
proof (induction s rule: mouse_packets.induct)
  case (1 s)
  then show ?case
    by (auto simp: mouse_packets.simps [of s] Let_def packet_deltas packet_wheel)
qed

lemma packets_length:
  "p \<in> set (mouse_packets s) \<Longrightarrow> length p = (if mouse_type s = 3 \<or> mouse_type s = 4 then 4 else 3)"
proof (induction s rule: mouse_packets.induct)
  case (1 s)
  then show ?case
    by (auto simp: mouse_packets.simps [of s] Let_def packet_bytes_def split: if_splits)
qed

lemma packet_wheel4: "mouse_type s = 4 \<Longrightarrow> signed_take_bit 3 (uint (packet_bytes s ! 3)) = packet_dz s"
proof -
  assume t: "mouse_type s = 4"
  define z where "z = clamp 7 (mouse_dz s)"
  let ?b = "(z AND 0x0f) OR push_bit 1 (uint (mouse_buttons s) AND 0x18)"
  have z: "- 8 \<le> z" "z < 8" using clamp_range [of 7 "mouse_dz s"] by (simp_all add: z_def)
  have "packet_bytes s ! 3 = word_of_int ?b" using t by (simp add: packet_bytes_def packet_dz_def Let_def z_def)
  moreover have "signed_take_bit 3 (uint (word_of_int ?b :: u8)) = signed_take_bit 3 z"
  proof (rule bit_eqI)
    fix n :: nat
    have "min 3 n < 8" by simp
    moreover have "\<not> bit (push_bit 1 (uint (mouse_buttons s) AND 0x18)) (min 3 n)"
    proof -
      have "min 3 n \<in> {0, 1, 2, 3}" by auto
      then show ?thesis by (elim insertE emptyE) (simp_all only: bit_push_bit_iff bit_and_iff, simp_all add: bit_numeral_rec)
    qed
    moreover have "bit (0x0f :: int) (min 3 n)"
    proof -
      have "min 3 n \<in> {0, 1, 2, 3}" by auto
      then show ?thesis by (elim insertE emptyE) (simp_all only:, simp_all add: bit_numeral_rec)
    qed
    ultimately show "bit (signed_take_bit 3 (uint (word_of_int ?b :: u8))) n = bit (signed_take_bit 3 z) n"
      by (auto simp: bit_signed_take_bit_iff unsigned_of_int bit_take_bit_iff bit_or_iff bit_and_iff)
  qed
  ultimately show ?thesis using t z by (simp add: packet_dz_def z_def [symmetric] signed_take_bit_int_eq_self)
qed

lemma packets_sum4: "mouse_type s = 4 \<Longrightarrow> (\<Sum>p \<leftarrow> mouse_packets s. signed_take_bit 3 (uint (p ! 3))) = mouse_dz s"
proof (induction s rule: mouse_packets.induct)
  case (1 s)
  then show ?case by (auto simp: mouse_packets.simps [of s] Let_def packet_wheel4)
qed

text \<open>How many packets a motion takes.\<close>

definition wheel_limit :: "PS2MouseState \<Rightarrow> int" where
  "wheel_limit s = (if mouse_type s = 3 then 127 else if mouse_type s = 4 then 7 else \<bar>mouse_dz s\<bar>)"

lemma clamp_rest: "0 \<le> lim \<Longrightarrow> \<bar>d\<bar> \<le> lim + r \<Longrightarrow> 0 \<le> r \<Longrightarrow> \<bar>d - clamp lim d\<bar> \<le> r"
  by (auto simp: clamp_def)

lemma packets_count:
  "\<bar>mouse_dx s\<bar> \<le> 127 * int n \<Longrightarrow> \<bar>mouse_dy s\<bar> \<le> 127 * int n \<Longrightarrow> \<bar>mouse_dz s\<bar> \<le> wheel_limit s * int n \<Longrightarrow> 0 < n \<Longrightarrow>
     length (mouse_packets s) \<le> n"
proof (induction n arbitrary: s)
  case (Suc n)
  let ?t = "ps2_mouse_send_packet s"
  have x: "\<bar>mouse_dx ?t\<bar> \<le> 127 * int n" "\<bar>mouse_dy ?t\<bar> \<le> 127 * int n"
    using Suc.prems(1,2) by (simp_all add: clamp_rest)
  have z: "\<bar>mouse_dz ?t\<bar> \<le> wheel_limit ?t * int n"
    using Suc.prems(3) clamp_rest [of 127 "mouse_dz s" "127 * int n"] clamp_rest [of 7 "mouse_dz s" "7 * int n"]
    by (auto simp: wheel_limit_def packet_dz_def)
  show ?case
  proof (cases "no_motion ?t")
    case False
    then have "0 < n" using x z by (cases n) auto
    with Suc.IH [OF x z] False show ?thesis by (simp add: mouse_packets.simps [of s] Let_def)
  qed (simp add: mouse_packets.simps [of s] Let_def)
qed simp

text \<open>The queue takes the packets as far as it has room, even if that cuts a packet.\<close>

lemma mouse_event_contents:
  assumes "ps2_ok (mcommon s)" "mouse_status s AND 0x20 \<noteq> 0" "mouse_status s AND 0x40 = 0" "count (queue (mcommon s)) < 240"
    and t: "t = s\<lparr>mouse_dx := mouse_dx s + dx, mouse_dy := mouse_dy s - dy, mouse_dz := mouse_dz s + dz,
                  mouse_buttons := word_of_int b\<rparr>"
    and "\<not> (no_motion t \<and> uint (mouse_buttons s) = b)"
  shows "ps2_bytes (mcommon (ps2_mouse_event s dx dy dz b)) = take 256 (ps2_bytes (mcommon s) @ concat (mouse_packets t))"
proof -
  have "ps2_mouse_event s dx dy dz b = ps2_mouse_send_all t"
    using assms(2-6) by (auto simp: ps2_mouse_event_def PS2_QUEUE_SIZE_def Let_def t)
  then show ?thesis using assms(1) by (simp add: send_all_bytes ps2q.puts_contents t)
qed

text \<open>
  C27: the mouse loses no motion that its guard has room for. Whenever an event makes an enabled,
  non-remote mouse send and the motion accumulated is at most 508 in each direction (and at most 28
  steps of the wheel of an Explorer mouse, 508 of an IntelliMouse's), the loop ends, the queue holds
  what it held followed by whole packets of 3 or 4 bytes, and their signed movement bytes add up to
  exactly that motion: the wheel included for the two mice that have one, in the byte of an
  IntelliMouse and in the low four bits of the byte of an Explorer mouse. The guard's 16 bytes are
  room for four packets; larger motions are cut where the queue is full (\<open>mouse_event_contents\<close>).
\<close>

theorem ps2_mouse_event_packets:
  assumes ok: "ps2_ok (mcommon s)" and en: "mouse_status s AND 0x20 \<noteq> 0" "mouse_status s AND 0x40 = 0"
    and room: "count (queue (mcommon s)) < 240"
    and t: "t = s\<lparr>mouse_dx := mouse_dx s + dx, mouse_dy := mouse_dy s - dy, mouse_dz := mouse_dz s + dz,
                  mouse_buttons := word_of_int b\<rparr>"
    and ne: "\<not> (no_motion t \<and> uint (mouse_buttons s) = b)"
    and small: "\<bar>mouse_dx s + dx\<bar> \<le> 508" "\<bar>mouse_dy s - dy\<bar> \<le> 508"
      "\<bar>mouse_dz s + dz\<bar> \<le> (if mouse_type s = 4 then 28 else 508)"
  shows "ps2_bytes (mcommon (ps2_mouse_event s dx dy dz b)) = ps2_bytes (mcommon s) @ concat (mouse_packets t)
    \<and> (\<forall>p \<in> set (mouse_packets t). length p = (if mouse_type s = 3 \<or> mouse_type s = 4 then 4 else 3))
    \<and> (\<Sum>p \<leftarrow> mouse_packets t. sint (p ! 1)) = mouse_dx s + dx
    \<and> (\<Sum>p \<leftarrow> mouse_packets t. sint (p ! 2)) = mouse_dy s - dy
    \<and> (mouse_type s = 3 \<longrightarrow> (\<Sum>p \<leftarrow> mouse_packets t. sint (p ! 3)) = mouse_dz s + dz)
    \<and> (mouse_type s = 4 \<longrightarrow> (\<Sum>p \<leftarrow> mouse_packets t. signed_take_bit 3 (uint (p ! 3))) = mouse_dz s + dz)"
proof -
  have "length (mouse_packets t) \<le> 4"
    using small by (intro packets_count) (auto simp: t wheel_limit_def split: if_splits)
  moreover have "length (concat ps) \<le> 4 * length ps" if "\<forall>p \<in> set ps. length p \<le> 4" for ps :: "u8 list list"
    using that by (induction ps) auto
  ultimately have "length (concat (mouse_packets t)) \<le> 16"
    using packets_length [of _ t] by (force simp: t)
  then have "ps2_bytes (mcommon (ps2_mouse_event s dx dy dz b)) = ps2_bytes (mcommon s) @ concat (mouse_packets t)"
    using mouse_event_contents [OF ok en room t ne] room by simp
  moreover have "(\<Sum>p \<leftarrow> mouse_packets t. sint (p ! 1)) = mouse_dx s + dx"
    "(\<Sum>p \<leftarrow> mouse_packets t. sint (p ! 2)) = mouse_dy s - dy"
    "mouse_type s = 3 \<longrightarrow> (\<Sum>p \<leftarrow> mouse_packets t. sint (p ! 3)) = mouse_dz s + dz"
    "mouse_type s = 4 \<longrightarrow> (\<Sum>p \<leftarrow> mouse_packets t. signed_take_bit 3 (uint (p ! 3))) = mouse_dz s + dz"
    using packets_sum [of t] packets_sum4 [of t] by (simp_all add: t)
  moreover have "\<forall>p \<in> set (mouse_packets t). length p = (if mouse_type s = 3 \<or> mouse_type s = 4 then 4 else 3)"
    using packets_length [of _ t] by (simp add: t)
  ultimately show ?thesis by blast
qed

theorem ps2_mouse_event_packets_witness:
  "(let s = ps2_mouse_init\<lparr>mouse_status := 0x20\<rparr>; t = s\<lparr>mouse_dx := 200\<rparr> in
    ps2_bytes (mcommon (ps2_mouse_event s 200 0 0 0)) = concat (mouse_packets t)
    \<and> (\<Sum>p \<leftarrow> mouse_packets t. sint (p ! 1)) = 200)"
proof -
  let ?s = "ps2_mouse_init\<lparr>mouse_status := 0x20\<rparr>"
  have t: "?s\<lparr>mouse_dx := 200\<rparr> = ?s\<lparr>mouse_dx := mouse_dx ?s + 200, mouse_dy := mouse_dy ?s - 0,
      mouse_dz := mouse_dz ?s + 0, mouse_buttons := word_of_int 0\<rparr>"
    by (simp add: ps2_mouse_init_def)
  show ?thesis
    using ps2_mouse_event_packets [OF _ _ _ _ t]
    by (simp add: Let_def ps2_mouse_init_def) (simp add: ps2_zero_def)
qed

text \<open>
  The IntelliMouse handshake. From a mouse that expects a command, is not in wrap mode and
  has its detector idle, the driver's sequence "set sample rate" 200, 100, 80 turns it into a
  wheel mouse (type 3), and 200, 200, 80 into an Explorer mouse (type 4), with the sample rate set
  to 80 and the detector idle again.
\<close>

theorem ps2_mouse_detect:
  assumes "write_cmd (mcommon s) = -1" "mouse_wrap s = 0" "mouse_detect_state s = 0"
    and "t = foldl ps2_write_mouse s [0xF3, 200, 0xF3, r, 0xF3, 80]" "r = 100 \<or> r = 200"
  shows "mouse_type t = (if r = 100 then 3 else 4) \<and> mouse_sample_rate t = 80
    \<and> mouse_detect_state t = 0 \<and> write_cmd (mcommon t) = -1 \<and> mouse_status t = mouse_status s"
proof -
  have [simp]: "write_cmd (ps2_queue q b) = write_cmd q" for q b
    by (simp add: ps2_queue_def Let_def)
  show ?thesis
    using assms(5) unfolding assms(4)
    by (auto simp: assms(1-3) ps2_write_mouse_def ps2_mouse_command_def ps2_mouse_set_sample_def Let_def)
qed

theorem ps2_mouse_detect_witness:
  "mouse_type (foldl ps2_write_mouse (ps2_mouse_reset ps2_mouse_init) [0xF3, 200, 0xF3, 100, 0xF3, 80]) = 3"
  using ps2_mouse_detect [of "ps2_mouse_reset ps2_mouse_init" _ 100]
  by (simp add: ps2_mouse_reset_def ps2_common_reset_def)

section \<open>Scancodes\<close>

text \<open>
  The bytes a keycode sends in the untranslated scancode set 2. Keycodes from \<open>0xe0\<close> on are queued as
  they are: the prefixes \<open>0xe0\<close> and \<open>0xe1\<close> of the extended keys, and the releases of the keycodes from
  \<open>0x60\<close> on.
\<close>

definition key_bytes :: "int \<Rightarrow> u8 list" where
  "key_bytes k =
     (if k < 0xe0 then (if k AND 0x80 \<noteq> 0 then [0xf0] else []) @ [word_of_int (ps2_raw_keycode ! nat (k AND 0x7f))]
      else [word_of_int k])"

lemma put_keycode_bytes:
  "translate s = 0 \<Longrightarrow> scancode_set s = 2 \<Longrightarrow>
     kcommon (ps2_put_keycode s k) = ps2_puts (kcommon s) (key_bytes k)"
  by (simp add: ps2_put_keycode_def key_bytes_def Let_def
      del: uint_word_of_int_eq flip: ps2_queue_word)

lemma put_keycode_frame [simp]:
  "translate (ps2_put_keycode s k) = translate s" "scancode_set (ps2_put_keycode s k) = scancode_set s"
  by (simp_all add: ps2_put_keycode_def Let_def)

lemma put_keycodes_bytes:
  "translate s = 0 \<Longrightarrow> scancode_set s = 2 \<Longrightarrow>
     kcommon (foldl ps2_put_keycode s ks) = ps2_puts (kcommon s) (concat (map key_bytes ks))"
  by (induction ks arbitrary: s) (simp_all add: put_keycode_bytes)

lemma raw_keycode_distinct: "distinct ps2_raw_keycode"
  and raw_keycode_bound: "\<forall>x \<in> set ps2_raw_keycode. 0 \<le> x \<and> x < 128"
  and raw_keycode_length: "length ps2_raw_keycode = 128"
  by (code_simp, code_simp, code_simp)

lemma and_127: "(k::int) AND 0x7f = k mod 128"
  using take_bit_eq_mask [of 7 k] by (simp add: take_bit_eq_mod mask_eq_exp_minus_1)

lemma and_128: "0 \<le> k \<Longrightarrow> k < 0xe0 \<Longrightarrow> (k::int) AND 0x80 \<noteq> 0 \<longleftrightarrow> 128 \<le> k"
proof -
  assume k: "0 \<le> k" "k < 0xe0"
  have "k AND 0x80 = 0 \<longleftrightarrow> \<not> bit k 7"
    using and_exp_eq_0_iff_not_bit [of k 7] by simp
  also have "\<dots> \<longleftrightarrow> \<not> odd (k div 128)" by (simp add: bit_iff_odd)
  also have "k div 128 = (if 128 \<le> k then 1 else 0)"
    using k int_div_pos_eq [of k 128 1 "k - 128"] by simp
  also have "\<not> odd (if 128 \<le> k then 1 else 0 :: int) \<longleftrightarrow> k < 128" by simp
  finally show ?thesis by auto
qed

definition raw_code :: "int \<Rightarrow> int" where
  "raw_code k = ps2_raw_keycode ! nat (k AND 0x7f)"

lemma raw_code_range: "0 \<le> raw_code k \<and> raw_code k < 128"
proof -
  have "nat (k AND 0x7f) < length ps2_raw_keycode"
    by (simp add: and_127 raw_keycode_length nat_less_iff)
  then show ?thesis using raw_keycode_bound nth_mem unfolding raw_code_def by blast
qed

lemma raw_code_inj: "raw_code k = raw_code k' \<Longrightarrow> k mod 128 = k' mod 128"
proof -
  assume "raw_code k = raw_code k'"
  moreover have "nat (k AND 0x7f) < length ps2_raw_keycode" "nat (k' AND 0x7f) < length ps2_raw_keycode"
    by (simp_all add: and_127 raw_keycode_length nat_less_iff)
  ultimately have "nat (k AND 0x7f) = nat (k' AND 0x7f)"
    unfolding raw_code_def using nth_eq_iff_index_eq [OF raw_keycode_distinct] by blast
  then show ?thesis by (simp add: and_127)
qed

text \<open>The host's keycodes are bytes; \<open>0xf0\<close>, the release of keycode \<open>0x70\<close>, is the prefix of a release.\<close>

abbreviation key_ok :: "int \<Rightarrow> bool" where
  "key_ok k \<equiv> 0 \<le> k \<and> k < 256 \<and> k \<noteq> 0xf0"

definition key_codes :: "int \<Rightarrow> int list" where
  "key_codes k = (if 0xe0 \<le> k then [k] else if 128 \<le> k then [0xf0, raw_code k] else [raw_code k])"

lemma key_bytes_codes: "key_ok k \<Longrightarrow> map uint (key_bytes k) = key_codes k"
  using raw_code_range [of k] and_128 [of k]
  by (auto simp: key_bytes_def key_codes_def raw_code_def unsigned_of_int take_bit_int_eq_self)

lemma key_codes_decode:
  assumes "key_ok k" "key_ok k'" "key_codes k @ xs = key_codes k' @ ys"
  shows "k = k' \<and> xs = ys"
proof -
  have "k mod 128 = (if 128 \<le> k then k - 128 else k)" if "0 \<le> k" "k < 0xe0" for k :: int
    using that int_mod_pos_eq [of k 128 1 "k - 128"] by (simp add: mod_pos_pos_trivial)
  then have inj: "raw_code k = raw_code k' \<Longrightarrow> (128 \<le> k \<longleftrightarrow> 128 \<le> k') \<Longrightarrow> k < 0xe0 \<Longrightarrow> k' < 0xe0 \<Longrightarrow> k = k'"
    using raw_code_inj [of k k'] assms(1,2) by (auto split: if_splits)
  show ?thesis
    using assms raw_code_range [of k] raw_code_range [of k'] inj
    unfolding key_codes_def by (auto split: if_splits)
qed

lemma key_bytes_concat_inj:
  "\<forall>k \<in> set ks. key_ok k \<Longrightarrow> \<forall>k \<in> set ks'. key_ok k \<Longrightarrow>
     concat (map key_codes ks) = concat (map key_codes ks') \<Longrightarrow> ks = ks'"
proof (induction ks arbitrary: ks')
  case Nil
  then show ?case by (cases ks') (auto simp: key_codes_def split: if_splits)
next
  case (Cons k ks)
  then obtain k' ks'' where ks': "ks' = k' # ks''"
    by (cases ks') (auto simp: key_codes_def split: if_splits)
  have "k = k' \<and> concat (map key_codes ks) = concat (map key_codes ks'')"
    using Cons.prems unfolding ks' by (intro key_codes_decode) simp_all
  moreover have "\<forall>k \<in> set ks. key_ok k" "\<forall>k \<in> set ks''. key_ok k" using Cons.prems(1,2) unfolding ks' by simp_all
  ultimately show ?case using Cons.IH [of ks''] unfolding ks' by blast
qed

lemma put_keycodes_contents:
  assumes "ps2_ok (kcommon s)" "translate s = 0" "scancode_set s = 2" "count (queue (kcommon s)) + 2 * length ks \<le> 256"
  shows "ps2_bytes (kcommon (foldl ps2_put_keycode s ks)) = ps2_bytes (kcommon s) @ concat (map key_bytes ks)"
proof -
  have "length (concat (map key_bytes ks)) \<le> 2 * length ks"
    by (induction ks) (auto simp: key_bytes_def)
  then show ?thesis using assms by (simp add: put_keycodes_bytes ps2q.puts_contents)
qed

text \<open>
  C33: in the untranslated scancode set 2 the host's key events can be recovered from the byte
  stream: as long as the queue has room, two different sequences of keycodes never put the same
  bytes into it. The keycodes are all bytes - presses and releases, the prefixes \<open>0xe0\<close> and \<open>0xe1\<close> of
  the extended keys and the codes that follow them - but for \<open>0xf0\<close>, the release of keycode \<open>0x70\<close>,
  with which it fails (\<open>ps2_release_70_defect\<close>).
\<close>

theorem ps2_scancodes_unique:
  assumes "ps2_ok (kcommon s)" "translate s = 0" "scancode_set s = 2"
    and "\<forall>k \<in> set ks \<union> set ks'. 0 \<le> k \<and> k < 256 \<and> k \<noteq> 0xf0"
    and "count (queue (kcommon s)) + 2 * length ks \<le> 256"
    and "count (queue (kcommon s)) + 2 * length ks' \<le> 256"
    and "ps2_bytes (kcommon (foldl ps2_put_keycode s ks))
       = ps2_bytes (kcommon (foldl ps2_put_keycode s ks'))"
  shows "ks = ks'"
proof -
  have codes: "map uint (concat (map key_bytes js)) = concat (map key_codes js)" if "\<forall>k \<in> set js. key_ok k" for js
    using that by (induction js) (simp_all add: key_bytes_codes)
  have "concat (map key_bytes ks) = concat (map key_bytes ks')"
    using assms(7) unfolding put_keycodes_contents [OF assms(1-3,5)] put_keycodes_contents [OF assms(1-3,6)] by simp
  then have "concat (map key_codes ks) = concat (map key_codes ks')"
    using codes [of ks] codes [of ks'] assms(4) by simp
  with assms(4) show ?thesis using key_bytes_concat_inj [of ks ks'] by simp
qed

text \<open>
  The release of keycode \<open>0x70\<close> is queued as the byte \<open>0xf0\<close>, without a code: the next key that is
  pressed looks like one that is released.
\<close>

lemma ps2_release_70_defect:
  "ps2_bytes (kcommon (foldl ps2_put_keycode ps2_kbd_init [0xf0, 30])) =
   ps2_bytes (kcommon (foldl ps2_put_keycode ps2_kbd_init [158]))"
proof -
  have "key_bytes 0xf0 @ key_bytes 30 = key_bytes 158" by code_simp
  then show ?thesis
    using put_keycodes_contents [of ps2_kbd_init "[0xf0, 30]"] put_keycodes_contents [of ps2_kbd_init "[158]"]
    by (simp add: ps2_kbd_init_def) (simp add: ps2_zero_def)
qed

theorem ps2_scancodes_unique_witness:
  "ps2_bytes (kcommon (foldl ps2_put_keycode ps2_kbd_init [30, 158, 0xe0, 0x48, 0xe0, 0xc8]))
     \<noteq> ps2_bytes (kcommon (foldl ps2_put_keycode ps2_kbd_init [30, 158, 0x48, 0xc8]))"
  using ps2_scancodes_unique [of ps2_kbd_init "[30, 158, 0xe0, 0x48, 0xe0, 0xc8]" "[30, 158, 0x48, 0xc8]"]
  by (auto simp: ps2_kbd_init_def) (simp_all add: ps2_zero_def)

text \<open>
  After a machine reset the keyboard does not answer the "get scancode set" command: the
  reset leaves \<open>scancode_set\<close> at 0, and \<open>0xF0 0x00\<close> is acknowledged once and never answered,
  whereas before the reset the answer byte follows.
\<close>

theorem ps2_reset_scancode_query:
  assumes "ps2_ok (kcommon s)"
  shows "ps2_bytes (kcommon (foldl ps2_write_keyboard (ps2_kbd_reset s) [0xF0, 0])) = [0xFA]
    \<and> ps2_bytes (kcommon (foldl ps2_write_keyboard ((ps2_kbd_reset s)\<lparr>scancode_set := 2, translate := 1\<rparr>)
         [0xF0, 0])) = [0xFA, 0x41]"
proof -
  let ?c = "ps2_common_reset (kcommon s)"
  have c: "ps2_ok (?c\<lparr>write_cmd := 0xF0\<rparr>)" "ps2_bytes (?c\<lparr>write_cmd := 0xF0\<rparr>) = []"
    "write_cmd ?c = -1"
    using assms by (simp_all add: ps2_common_reset_def ps2_ok_def ps2_bytes_def)
  have w [simp]: "write_cmd (ps2_queue q b) = write_cmd q" for q b
    by (simp add: ps2_queue_def Let_def)
  let ?d = "ps2_queue (?c\<lparr>write_cmd := 0xF0\<rparr>) 0xFA"
  have "count (queue (?c\<lparr>write_cmd := 0xF0\<rparr>)) = 0" by (simp add: ps2_common_reset_def)
  then have d: "ps2_bytes ?d = [0xFA]" "ps2_ok ?d"
    using ps2_queue_room [OF c(1), of "0xFA"] c(2) ps2_queue_ok [OF c(1)] by simp_all
  then have "count (queue ?d) = 1" using length_ps2_bytes [of ?d] by simp
  then have "ps2_bytes (ps2_queue ?d 0x41) = [0xFA, 0x41]"
    using ps2_queue_room [OF d(2), of "0x41"] d(1) by simp
  with d(1) c(3) show ?thesis
    by (simp add: ps2_write_keyboard_def ps2_kbd_command_def ps2_kbd_parameter_def ps2_kbd_reset_def
        ps2_put_keycode_def Let_def)
qed

theorem ps2_reset_scancode_query_witness:
  "ps2_bytes (kcommon (foldl ps2_write_keyboard (ps2_kbd_reset ps2_kbd_init) [0xF0, 0])) = [0xFA]"
  using ps2_reset_scancode_query [of ps2_kbd_init] by (simp add: ps2_kbd_init_def)

end
