(* ===== verification/Pckbd.thy ===== *)
theory Pckbd
  imports Irq Ps2
begin

text \<open>
  The keyboard controller, \<open>hw/pckbd.c\<close>, with the two PS/2 devices behind it. A PS/2 device calls
  the controller back (\<open>update_irq\<close>) in the middle of an operation; the callback only changes fields
  of \<open>KBDState\<close> that the device never reads, so the model runs the operation first and then the calls
  it logged, in order (\<open>kbd_calls\<close>, \<open>aux_calls\<close>). \<open>qemu_system_reset_request\<close> is counted in
  \<open>reset_requests\<close>. The machine's reset runs the handlers in the order they are registered: the two
  PS/2 devices, then the controller.
\<close>

record KBDState =
  kbd_write_cmd :: u8
  status :: u8
  mode :: u8
  outport :: u8
  pending :: u8
  kbd :: PS2KbdState
  mouse :: PS2MouseState
  irq_kbd :: irq_line
  irq_mouse :: irq_line
  a20_out :: "irq_line option"
  mm_mask :: u64
  reset_requests :: nat

definition KBD_PENDING_KBD :: u8 where "KBD_PENDING_KBD = 1"
definition KBD_PENDING_AUX :: u8 where "KBD_PENDING_AUX = 2"

definition kbd_update_irq :: "KBDState \<Rightarrow> KBDState" where
  "kbd_update_irq s =
     (let s = s\<lparr>status := status s AND NOT (0x01 OR 0x20), outport := outport s AND NOT (0x10 OR 0x20)\<rparr>;
          (s, irq_kbd_level, irq_mouse_level) =
            (if pending s \<noteq> 0 then
               (let s = s\<lparr>status := status s OR 0x01, outport := outport s OR 0x10\<rparr>
                in if pending s = KBD_PENDING_AUX then
                     (s\<lparr>status := status s OR 0x20, outport := outport s OR 0x20\<rparr>, 0,
                      if mode s AND 0x02 \<noteq> 0 then 1 else 0)
                   else (s, if mode s AND 0x01 \<noteq> 0 \<and> mode s AND 0x10 = 0 then 1 else 0, 0))
             else (s, 0, 0))
      in s\<lparr>irq_kbd := set_line irq_kbd_level (irq_kbd s),
           irq_mouse := set_line irq_mouse_level (irq_mouse s)\<rparr>)"

definition kbd_update_kbd_irq :: "KBDState \<Rightarrow> int \<Rightarrow> KBDState" where
  "kbd_update_kbd_irq s level =
     kbd_update_irq
       (if level \<noteq> 0 then s\<lparr>pending := pending s OR KBD_PENDING_KBD\<rparr>
        else s\<lparr>pending := pending s AND NOT KBD_PENDING_KBD\<rparr>)"

definition kbd_update_aux_irq :: "KBDState \<Rightarrow> int \<Rightarrow> KBDState" where
  "kbd_update_aux_irq s level =
     kbd_update_irq
       (if level \<noteq> 0 then s\<lparr>pending := pending s OR KBD_PENDING_AUX\<rparr>
        else s\<lparr>pending := pending s AND NOT KBD_PENDING_AUX\<rparr>)"

text \<open>An operation of the keyboard or of the mouse, followed by the calls to its \<open>update_irq\<close>.\<close>

definition kbd_calls :: "PS2KbdState \<Rightarrow> KBDState \<Rightarrow> KBDState" where
  "kbd_calls k s =
     foldl kbd_update_kbd_irq (s\<lparr>kbd := k\<lparr>kcommon := (kcommon k)\<lparr>update_irq := []\<rparr>\<rparr>\<rparr>)
       (update_irq (kcommon k))"

definition aux_calls :: "PS2MouseState \<Rightarrow> KBDState \<Rightarrow> KBDState" where
  "aux_calls m s =
     foldl kbd_update_aux_irq (s\<lparr>mouse := m\<lparr>mcommon := (mcommon m)\<lparr>update_irq := []\<rparr>\<rparr>\<rparr>)
       (update_irq (mcommon m))"

definition kbd_read_status :: "KBDState \<Rightarrow> u32" where
  "kbd_read_status s = ucast (status s)"

definition kbd_queue :: "KBDState \<Rightarrow> int \<Rightarrow> bool \<Rightarrow> KBDState" where
  "kbd_queue s b aux =
     (if aux then aux_calls ((mouse s)\<lparr>mcommon := ps2_queue (mcommon (mouse s)) b\<rparr>) s
      else kbd_calls ((kbd s)\<lparr>kcommon := ps2_queue (kcommon (kbd s)) b\<rparr>) s)"

definition outport_write :: "KBDState \<Rightarrow> u32 \<Rightarrow> KBDState" where
  "outport_write s val =
     (let s = s\<lparr>outport := ucast val\<rparr>;
          s = s\<lparr>a20_out := map_option (set_line (uint (drop_bit 1 val AND 1))) (a20_out s)\<rparr>
      in if val AND 1 = 0 then s\<lparr>reset_requests := reset_requests s + 1\<rparr> else s)"

definition kbd_write_command :: "KBDState \<Rightarrow> u32 \<Rightarrow> KBDState" where
  "kbd_write_command s val =
     (let val = (if val AND 0xF0 = 0xF0 then (if val AND 1 = 0 then 0xFE else 0xFF) else val)
      in if val = 0x20 then kbd_queue s (uint (mode s)) False
         else if val = 0x60 \<or> val = 0xD2 \<or> val = 0xD3 \<or> val = 0xD4 \<or> val = 0xD1 then
           s\<lparr>kbd_write_cmd := ucast val\<rparr>
         else if val = 0xA7 then s\<lparr>mode := mode s OR 0x20\<rparr>
         else if val = 0xA8 then s\<lparr>mode := mode s AND NOT 0x20\<rparr>
         else if val = 0xA9 then kbd_queue s 0x00 False
         else if val = 0xAA then kbd_queue (s\<lparr>status := status s OR 0x04\<rparr>) 0x55 False
         else if val = 0xAB then kbd_queue s 0x00 False
         else if val = 0xAD then kbd_update_irq (s\<lparr>mode := mode s OR 0x10\<rparr>)
         else if val = 0xAE then kbd_update_irq (s\<lparr>mode := mode s AND NOT 0x10\<rparr>)
         else if val = 0xC0 then kbd_queue s 0x00 False
         else if val = 0xD0 then kbd_queue s (uint (outport s)) False
         else if val = 0xDF then
           s\<lparr>a20_out := map_option raise_line (a20_out s), outport := outport s OR 0x02\<rparr>
         else if val = 0xDD then
           s\<lparr>a20_out := map_option lower_line (a20_out s), outport := outport s AND NOT 0x02\<rparr>
         else if val = 0xFE then s\<lparr>reset_requests := reset_requests s + 1\<rparr>
         else s)"

definition kbd_read_data :: "KBDState \<Rightarrow> u32 \<times> KBDState" where
  "kbd_read_data s =
     (if pending s = KBD_PENDING_AUX then
        (case ps2_read_data (mcommon (mouse s)) of
           (val, c) \<Rightarrow> (ucast val, aux_calls ((mouse s)\<lparr>mcommon := c\<rparr>) s))
      else
        (case ps2_read_data (kcommon (kbd s)) of
           (val, c) \<Rightarrow> (ucast val, kbd_calls ((kbd s)\<lparr>kcommon := c\<rparr>) s)))"

definition kbd_write_data :: "KBDState \<Rightarrow> u32 \<Rightarrow> KBDState" where
  "kbd_write_data s val =
     (let s =
        (if kbd_write_cmd s = 0 then kbd_calls (ps2_write_keyboard (kbd s) (sint val)) s
         else if kbd_write_cmd s = 0x60 then
           (let s = s\<lparr>mode := ucast val\<rparr>;
                s = kbd_calls (ps2_keyboard_set_translation (kbd s) (of_bool (mode s AND 0x40 \<noteq> 0))) s
            in kbd_update_irq s)
         else if kbd_write_cmd s = 0xD2 then kbd_queue s (sint val) False
         else if kbd_write_cmd s = 0xD3 then kbd_queue s (sint val) True
         else if kbd_write_cmd s = 0xD1 then outport_write s val
         else if kbd_write_cmd s = 0xD4 then aux_calls (ps2_write_mouse (mouse s) (sint val)) s
         else s)
      in s\<lparr>kbd_write_cmd := 0\<rparr>)"

definition kbd_reset :: "KBDState \<Rightarrow> KBDState" where
  "kbd_reset s = s\<lparr>mode := 0x01 OR 0x02, status := 0x08 OR 0x10, outport := 0x01 OR 0x02\<rparr>"

definition kbd_mm_readb :: "KBDState \<Rightarrow> u64 \<Rightarrow> u32 \<times> KBDState" where
  "kbd_mm_readb s addr =
     (if addr AND mm_mask s \<noteq> 0 then (kbd_read_status s AND 0xff, s)
      else case kbd_read_data s of (v, s') \<Rightarrow> (v AND 0xff, s'))"

definition kbd_mm_writeb :: "KBDState \<Rightarrow> u64 \<Rightarrow> u32 \<Rightarrow> KBDState" where
  "kbd_mm_writeb s addr v =
     (if addr AND mm_mask s \<noteq> 0 then kbd_write_command s (v AND 0xff)
      else kbd_write_data s (v AND 0xff))"

definition i8042_mm_init :: "u64 \<Rightarrow> KBDState" where
  "i8042_mm_init m =
     \<lparr>kbd_write_cmd = 0, status = 0, mode = 0, outport = 0, pending = 0, kbd = ps2_kbd_init,
      mouse = ps2_mouse_init, irq_kbd = [], irq_mouse = [], a20_out = None, mm_mask = m,
      reset_requests = 0\<rparr>"

definition i8042_isa_mouse_fake_event :: "KBDState \<Rightarrow> KBDState" where
  "i8042_isa_mouse_fake_event s = aux_calls (ps2_mouse_fake_event (mouse s)) s"

definition i8042_setup_a20_line :: "irq_line \<Rightarrow> KBDState \<Rightarrow> KBDState" where
  "i8042_setup_a20_line l s = s\<lparr>a20_out := Some l\<rparr>"

definition i8042_initfn :: KBDState where
  "i8042_initfn = i8042_mm_init 0"

text \<open>The reset handlers of the three devices, in the order \<open>i8042_initfn\<close> registers them.\<close>

definition i8042_system_reset :: "KBDState \<Rightarrow> KBDState" where
  "i8042_system_reset s =
     (let s = kbd_calls (ps2_kbd_reset (kbd s)) s;
          s = aux_calls (ps2_mouse_reset (mouse s)) s
      in kbd_reset s)"

section \<open>The devices report their queues faithfully\<close>

text \<open>
  \<open>sync c c'\<close>: on the way from \<open>c\<close> to \<open>c'\<close> a PS/2 device kept its queue consistent, and the levels
  it passed to \<open>update_irq\<close> leave a listener with "the queue is not empty", which is then true.
\<close>

definition waiting :: "PS2State \<Rightarrow> bool" where
  "waiting c \<longleftrightarrow> ps2_bytes c \<noteq> []"

definition heard :: "bool \<Rightarrow> int list \<Rightarrow> bool" where
  "heard b l = foldl (\<lambda>_ x. x \<noteq> 0) b l"

definition sync :: "PS2State \<Rightarrow> PS2State \<Rightarrow> bool" where
  "sync c c' \<longleftrightarrow> (ps2_ok c \<longrightarrow> ps2_ok c' \<and>
     (\<exists>l. update_irq c' = update_irq c @ l \<and> heard (waiting c) l = waiting c'))"

lemma heard_simps [simp]:
  "heard b [] = b" "heard b (x # l) = heard (x \<noteq> 0) l" "heard b (l @ [x]) = (x \<noteq> 0)"
  by (simp_all add: heard_def)

lemma heard_append: "heard b (l @ l') = heard (heard b l) l'"
  by (simp add: heard_def)

lemma sync_refl [simp, intro]: "sync c c"
  by (auto simp: sync_def intro: exI [of _ "[]"])

lemma sync_trans [trans]:
  assumes "sync a b" "sync b c"
  shows "sync a c"
  unfolding sync_def
proof
  assume "ps2_ok a"
  with assms(1) obtain l where b: "ps2_ok b" "update_irq b = update_irq a @ l" "heard (waiting a) l = waiting b"
    by (auto simp: sync_def)
  with assms(2) obtain l' where c: "ps2_ok c" "update_irq c = update_irq b @ l'" "heard (waiting b) l' = waiting c"
    by (auto simp: sync_def)
  then have "update_irq c = update_irq a @ (l @ l')" "heard (waiting a) (l @ l') = waiting c"
    using b by (simp_all add: heard_append)
  with c(1) show "ps2_ok c \<and> (\<exists>l. update_irq c = update_irq a @ l \<and> heard (waiting a) l = waiting c)"
    by blast
qed

lemma waiting_count: "waiting c \<longleftrightarrow> count (queue c) \<noteq> 0"
  by (metis length_0_conv length_ps2_bytes waiting_def)

lemma sync_queue1: "sync c (ps2_queue c b)"
proof (cases "count (queue c) < 256")
  case True
  then have "update_irq (ps2_queue c b) = update_irq c @ [1]"
    by (simp add: ps2_queue_def PS2_QUEUE_SIZE_def Let_def)
  moreover have "waiting (ps2_queue c b)" if "ps2_ok c"
    using ps2_queue_room [OF that True] by (simp add: waiting_def)
  ultimately show ?thesis by (auto simp: sync_def ps2_queue_ok)
next
  case False
  then show ?thesis by (simp add: ps2_queue_full)
qed

lemma sync_queue [intro]: "sync c d \<Longrightarrow> sync c (ps2_queue d b)"
  using sync_trans sync_queue1 by blast

lemma sync_write_cmd [simp]: "sync c (d\<lparr>write_cmd := w\<rparr>) = sync c d" "sync (c\<lparr>write_cmd := w\<rparr>) d = sync c d"
  by (simp_all add: sync_def waiting_def)

lemma sync_read: "sync c (snd (ps2_read_data c))"
proof (cases "count (queue c) = 0")
  case True
  then show ?thesis by (simp add: ps2_read_data_def Let_def)
next
  case False
  then have u: "update_irq (snd (ps2_read_data c))
      = update_irq c @ [0, if count (queue c) - 1 \<noteq> 0 then 1 else 0]"
    by (simp add: ps2_read_data_def Let_def)
  have "count (queue (snd (ps2_read_data c))) = count (queue c) - 1" if "ps2_ok c"
    using ps2_read_bytes [OF that] length_ps2_bytes by (metis length_tl)
  with u show ?thesis unfolding sync_def
    by (intro impI conjI ps2_read_ok exI [of _ "[0, if count (queue c) - 1 \<noteq> 0 then 1 else 0]"])
       (simp_all add: waiting_count)
qed

lemma sync_reset: "sync c (ps2_common_reset c)"
  by (auto simp: sync_def ps2_common_reset_def ps2_ok_def waiting_count)

lemma sync_put_keycode: "sync (kcommon s) (kcommon (ps2_put_keycode s k))"
  by (auto simp: ps2_put_keycode_def Let_def)

lemma sync_reset_keyboard [simp]: "kcommon (ps2_reset_keyboard s) = kcommon s"
  by (simp add: ps2_reset_keyboard_def)

lemma sync_write_keyboard: "sync (kcommon s) (kcommon (ps2_write_keyboard s v))"
proof -
  have "sync (kcommon s) (kcommon (ps2_kbd_command s v))"
    by (auto simp: ps2_kbd_command_def Let_def)
  moreover have "sync (kcommon s) (kcommon (ps2_kbd_parameter s v))"
    using sync_put_keycode by (auto simp: ps2_kbd_parameter_def Let_def)
  ultimately show ?thesis by (simp add: ps2_write_keyboard_def)
qed

lemma sync_puts: "sync c (ps2_puts c bs)"
  by (induction bs rule: rev_induct) auto

lemma sync_send_packet: "sync (mcommon s) (mcommon (ps2_mouse_send_packet s))"
  by (simp only: send_packet_bytes sync_puts)

lemma sync_mouse_event: "sync (mcommon s) (mcommon (ps2_mouse_event s dx dy dz b))"
  by (simp add: ps2_mouse_event_def Let_def send_all_bytes sync_puts)

lemma sync_mouse_command: "sync (mcommon s) (mcommon (ps2_mouse_command s v))"
proof -
  have "sync (mcommon s) (mcommon (ps2_mouse_send_packet (mqueue 0xFA s)))"
    using sync_send_packet [of "mqueue 0xFA s"] sync_queue1 sync_trans by fastforce
  then show ?thesis
    unfolding ps2_mouse_command_def Let_def by (simp add: sync_queue)
qed

lemma sync_write_mouse: "sync (mcommon s) (mcommon (ps2_write_mouse s v))"
proof -
  have "sync (mcommon s) (mcommon (ps2_mouse_set_sample s v))"
    unfolding ps2_mouse_set_sample_def Let_def by (simp add: sync_queue)
  then show ?thesis
    by (simp add: ps2_write_mouse_def Let_def sync_mouse_command sync_queue)
qed

section \<open>The invariant of the controller\<close>

definition pend :: "bool \<Rightarrow> bool \<Rightarrow> u8" where
  "pend k m = (if k then KBD_PENDING_KBD else 0) OR (if m then KBD_PENDING_AUX else 0)"

text \<open>What the guest and the interrupt controller see, as a function of \<open>pending\<close> and \<open>mode\<close>.\<close>

definition kbd_view :: "KBDState \<Rightarrow> bool" where
  "kbd_view s \<longleftrightarrow>
     (bit (status s) 0 \<longleftrightarrow> pending s \<noteq> 0) \<and> (bit (status s) 5 \<longleftrightarrow> pending s = KBD_PENDING_AUX)
     \<and> line_level (irq_kbd s)
         = of_bool (pending s \<noteq> 0 \<and> pending s \<noteq> KBD_PENDING_AUX \<and> bit (mode s) 0 \<and> \<not> bit (mode s) 4)
     \<and> line_level (irq_mouse s) = of_bool (pending s = KBD_PENDING_AUX \<and> bit (mode s) 1)"

definition kbd_inv :: "KBDState \<Rightarrow> bool" where
  "kbd_inv s \<longleftrightarrow>
     ps2_ok (kcommon (kbd s)) \<and> ps2_ok (mcommon (mouse s))
     \<and> update_irq (kcommon (kbd s)) = [] \<and> update_irq (mcommon (mouse s)) = []
     \<and> pending s = pend (waiting (kcommon (kbd s))) (waiting (mcommon (mouse s))) \<and> kbd_view s"

lemma pend_simps [simp]:
  "pend False False = 0" "pend True m \<noteq> 0" "pend True m \<noteq> KBD_PENDING_AUX"
  "pend False True = KBD_PENDING_AUX" "KBD_PENDING_AUX \<noteq> 0"
  by (cases m; simp add: pend_def KBD_PENDING_KBD_def KBD_PENDING_AUX_def)+

lemma pend_eq_simps [simp]:
  "pend k m = 0 \<longleftrightarrow> \<not> k \<and> \<not> m" "pend k m = KBD_PENDING_AUX \<longleftrightarrow> \<not> k \<and> m"
  by (cases k; cases m; simp)+

lemma pend_set [simp]:
  "pend k m OR KBD_PENDING_KBD = pend True m" "pend k m AND NOT KBD_PENDING_KBD = pend False m"
  "pend k m OR KBD_PENDING_AUX = pend k True" "pend k m AND NOT KBD_PENDING_AUX = pend k False"
  by (cases k; cases m; simp add: pend_def KBD_PENDING_KBD_def KBD_PENDING_AUX_def)+

lemma and_bit_test:
  fixes x :: u8
  shows "x AND 1 = 0 \<longleftrightarrow> \<not> bit x 0" "x AND 2 = 0 \<longleftrightarrow> \<not> bit x 1" "x AND 0x10 = 0 \<longleftrightarrow> \<not> bit x 4"
  using and_shl1_eq_0_iff [of x 0] and_shl1_eq_0_iff [of x 1] and_shl1_eq_0_iff [of x 4]
  by (simp_all add: shl1_def)

lemma bit_u8_consts:
  "bit (0x01::u8) n \<longleftrightarrow> n = 0" "bit (0x20::u8) n \<longleftrightarrow> n = 5" "bit (0x04::u8) n \<longleftrightarrow> n = 2"
  using bit_shl1 [of 0 n, where 'a = 8] bit_shl1 [of 5 n, where 'a = 8] bit_shl1 [of 2 n, where 'a = 8]
  by (simp_all add: shl1_def)

lemma kbd_update_irq_view: "kbd_view (kbd_update_irq s)"
  by (auto simp: kbd_view_def kbd_update_irq_def Let_def bit_simps bit_u8_consts and_bit_test
      simp del: One_nat_def split: if_splits)

lemma kbd_update_irq_frame [simp]:
  "pending (kbd_update_irq s) = pending s" "kbd (kbd_update_irq s) = kbd s"
  "mouse (kbd_update_irq s) = mouse s" "mode (kbd_update_irq s) = mode s"
  "kbd_write_cmd (kbd_update_irq s) = kbd_write_cmd s" "a20_out (kbd_update_irq s) = a20_out s"
  "reset_requests (kbd_update_irq s) = reset_requests s"
  by (simp_all add: kbd_update_irq_def Let_def)

lemma kbd_update_kbd_irq_frame [simp]:
  "kbd (kbd_update_kbd_irq s l) = kbd s" "mouse (kbd_update_kbd_irq s l) = mouse s"
  "mode (kbd_update_kbd_irq s l) = mode s" "kbd_write_cmd (kbd_update_kbd_irq s l) = kbd_write_cmd s"
  "a20_out (kbd_update_kbd_irq s l) = a20_out s"
  "reset_requests (kbd_update_kbd_irq s l) = reset_requests s"
  by (simp_all add: kbd_update_kbd_irq_def)

lemma kbd_update_aux_irq_frame [simp]:
  "kbd (kbd_update_aux_irq s l) = kbd s" "mouse (kbd_update_aux_irq s l) = mouse s"
  "mode (kbd_update_aux_irq s l) = mode s" "kbd_write_cmd (kbd_update_aux_irq s l) = kbd_write_cmd s"
  "a20_out (kbd_update_aux_irq s l) = a20_out s"
  "reset_requests (kbd_update_aux_irq s l) = reset_requests s"
  by (simp_all add: kbd_update_aux_irq_def)

lemma kbd_update_kbd_irqs_frame [simp]:
  "kbd (foldl kbd_update_kbd_irq s l) = kbd s" "mouse (foldl kbd_update_kbd_irq s l) = mouse s"
  "mode (foldl kbd_update_kbd_irq s l) = mode s"
  "kbd_write_cmd (foldl kbd_update_kbd_irq s l) = kbd_write_cmd s"
  "a20_out (foldl kbd_update_kbd_irq s l) = a20_out s"
  "reset_requests (foldl kbd_update_kbd_irq s l) = reset_requests s"
  by (induction l arbitrary: s) simp_all

lemma kbd_update_aux_irqs_frame [simp]:
  "kbd (foldl kbd_update_aux_irq s l) = kbd s" "mouse (foldl kbd_update_aux_irq s l) = mouse s"
  "mode (foldl kbd_update_aux_irq s l) = mode s"
  "kbd_write_cmd (foldl kbd_update_aux_irq s l) = kbd_write_cmd s"
  "a20_out (foldl kbd_update_aux_irq s l) = a20_out s"
  "reset_requests (foldl kbd_update_aux_irq s l) = reset_requests s"
  by (induction l arbitrary: s) simp_all

lemma kbd_irqs_view:
  "kbd_view s \<Longrightarrow> pending s = pend k m \<Longrightarrow>
     kbd_view (foldl kbd_update_kbd_irq s l) \<and> pending (foldl kbd_update_kbd_irq s l) = pend (heard k l) m"
proof (induction l arbitrary: s k)
  case (Cons x l)
  then have "kbd_view (kbd_update_kbd_irq s x)" "pending (kbd_update_kbd_irq s x) = pend (x \<noteq> 0) m"
    by (simp_all add: kbd_update_kbd_irq_def kbd_update_irq_view)
  with Cons.IH show ?case by simp
qed simp

lemma aux_irqs_view:
  "kbd_view s \<Longrightarrow> pending s = pend k m \<Longrightarrow>
     kbd_view (foldl kbd_update_aux_irq s l) \<and> pending (foldl kbd_update_aux_irq s l) = pend k (heard m l)"
proof (induction l arbitrary: s m)
  case (Cons x l)
  then have "kbd_view (kbd_update_aux_irq s x)" "pending (kbd_update_aux_irq s x) = pend k (x \<noteq> 0)"
    by (simp_all add: kbd_update_aux_irq_def kbd_update_irq_view)
  with Cons.IH show ?case by simp
qed simp

lemma kbd_view_frame [simp]:
  "kbd_view (s\<lparr>kbd := k\<rparr>) = kbd_view s" "kbd_view (s\<lparr>mouse := m\<rparr>) = kbd_view s"
  "kbd_view (s\<lparr>kbd_write_cmd := w\<rparr>) = kbd_view s" "kbd_view (s\<lparr>a20_out := a\<rparr>) = kbd_view s"
  "kbd_view (s\<lparr>outport := out\<rparr>) = kbd_view s" "kbd_view (s\<lparr>reset_requests := r\<rparr>) = kbd_view s"
  by (simp_all add: kbd_view_def)

lemma waiting_irq [simp]: "waiting (c\<lparr>update_irq := u\<rparr>) = waiting c"
  by (simp add: waiting_def)

text \<open>An operation of a device that reports its queue faithfully keeps the controller's invariant.\<close>

lemma kbd_calls_inv:
  assumes "kbd_inv s" "sync (kcommon (kbd s)) (kcommon k)"
  shows "kbd_inv (kbd_calls k s)"
  using assms kbd_irqs_view [of "s\<lparr>kbd := k\<lparr>kcommon := (kcommon k)\<lparr>update_irq := []\<rparr>\<rparr>\<rparr>"
      "waiting (kcommon (kbd s))" "waiting (mcommon (mouse s))" "update_irq (kcommon k)"]
  by (auto simp: kbd_inv_def kbd_calls_def sync_def)

lemma aux_calls_inv:
  assumes "kbd_inv s" "sync (mcommon (mouse s)) (mcommon m)"
  shows "kbd_inv (aux_calls m s)"
  using assms aux_irqs_view [of "s\<lparr>mouse := m\<lparr>mcommon := (mcommon m)\<lparr>update_irq := []\<rparr>\<rparr>\<rparr>"
      "waiting (kcommon (kbd s))" "waiting (mcommon (mouse s))" "update_irq (mcommon m)"]
  by (auto simp: kbd_inv_def aux_calls_def sync_def)

lemma kbd_queue_inv: "kbd_inv s \<Longrightarrow> kbd_inv (kbd_queue s b aux)"
  by (auto simp: kbd_queue_def intro!: kbd_calls_inv aux_calls_inv sync_queue1)

lemma kbd_inv_frame [simp]:
  "kbd_inv (s\<lparr>kbd_write_cmd := w\<rparr>) = kbd_inv s" "kbd_inv (s\<lparr>a20_out := a\<rparr>) = kbd_inv s"
  "kbd_inv (s\<lparr>outport := out\<rparr>) = kbd_inv s" "kbd_inv (s\<lparr>reset_requests := r\<rparr>) = kbd_inv s"
  by (simp_all add: kbd_inv_def)

lemma kbd_inv_selftest: "kbd_inv s \<Longrightarrow> kbd_inv (s\<lparr>status := status s OR 0x04\<rparr>)"
  by (simp add: kbd_inv_def kbd_view_def bit_simps bit_u8_consts)

lemma kbd_inv_mode: "kbd_inv s \<Longrightarrow> kbd_inv (kbd_update_irq (s\<lparr>mode := v\<rparr>))"
  by (simp add: kbd_inv_def kbd_update_irq_view)

lemma kbd_inv_mouse_enable:
  "kbd_inv s \<Longrightarrow> kbd_inv (s\<lparr>mode := mode s OR 0x20\<rparr>)"
  "kbd_inv s \<Longrightarrow> kbd_inv (s\<lparr>mode := mode s AND NOT 0x20\<rparr>)"
  by (simp_all add: kbd_inv_def kbd_view_def bit_simps bit_u8_consts)

lemma kbd_write_command_inv: "kbd_inv s \<Longrightarrow> kbd_inv (kbd_write_command s v)"
  unfolding kbd_write_command_def Let_def
  by (simp add: kbd_queue_inv kbd_inv_selftest kbd_inv_mode kbd_inv_mouse_enable(1) kbd_inv_mouse_enable(2) [simplified])

lemma kbd_calls_nop: "update_irq (kcommon k) = [] \<Longrightarrow> kbd_calls k s = s\<lparr>kbd := k\<rparr>"
  by (simp add: kbd_calls_def)

lemma kbd_write_mode_inv:
  assumes "kbd_inv s"
  shows "kbd_inv (kbd_update_irq (kbd_calls (ps2_keyboard_set_translation (kbd s) t) (s\<lparr>mode := v\<rparr>)))"
proof -
  have "update_irq (kcommon (ps2_keyboard_set_translation (kbd s) t)) = []"
    using assms by (simp add: kbd_inv_def ps2_keyboard_set_translation_def)
  then show ?thesis
    using assms by (simp add: kbd_calls_nop kbd_inv_def kbd_update_irq_view ps2_keyboard_set_translation_def)
qed

lemma outport_write_inv: "kbd_inv s \<Longrightarrow> kbd_inv (outport_write s v)"
  by (simp add: outport_write_def Let_def)

lemma kbd_write_data_inv: "kbd_inv s \<Longrightarrow> kbd_inv (kbd_write_data s v)"
  unfolding kbd_write_data_def Let_def
  by (auto simp: kbd_queue_inv outport_write_inv kbd_write_mode_inv
      intro!: kbd_calls_inv aux_calls_inv sync_write_keyboard sync_write_mouse)

lemma kbd_read_data_inv: "kbd_inv s \<Longrightarrow> kbd_inv (snd (kbd_read_data s))"
  using sync_read [of "kcommon (kbd s)"] sync_read [of "mcommon (mouse s)"]
  by (auto simp: kbd_read_data_def split: prod.splits intro!: kbd_calls_inv aux_calls_inv)

text \<open>Whatever the history, a machine reset ends in the invariant, with both queues empty.\<close>

lemma reset_inv:
  assumes "kbd_inv s"
  shows "kbd_inv (i8042_system_reset s)"
proof -
  let ?s1 = "kbd_calls (ps2_kbd_reset (kbd s)) s"
  let ?s2 = "aux_calls (ps2_mouse_reset (mouse ?s1)) ?s1"
  have 1: "kbd_inv ?s1"
    using assms by (rule kbd_calls_inv) (simp add: ps2_kbd_reset_def sync_reset)
  then have 2: "kbd_inv ?s2"
    by (rule aux_calls_inv) (simp add: ps2_mouse_reset_def sync_reset)
  have "\<not> waiting (kcommon (kbd ?s2))" "\<not> waiting (mcommon (mouse ?s2))"
    by (simp_all add: aux_calls_def kbd_calls_def ps2_kbd_reset_def ps2_mouse_reset_def waiting_count
        ps2_common_reset_def)
  with 2 show ?thesis
    by (simp add: i8042_system_reset_def Let_def kbd_reset_def kbd_inv_def kbd_view_def bit_simps
        bit_u8_consts)
qed

lemma init_inv: "kbd_inv (i8042_mm_init m)"
  by (simp add: kbd_inv_def i8042_mm_init_def ps2_kbd_init_def ps2_mouse_init_def kbd_view_def
      waiting_def) (simp add: ps2_zero_def)

text \<open>Everything that can happen to the controller: accesses of the guest, events of the host.\<close>

datatype kbd_input =
    KReadData | KReadStatus | KWriteData u32 | KWriteCommand u32
  | KMMRead u64 | KMMWrite u64 u32
  | KKey int | KMouse int int int int | KFakeMouse | KReset

fun kbd_step :: "KBDState \<Rightarrow> kbd_input \<Rightarrow> KBDState" where
  "kbd_step s KReadData = snd (kbd_read_data s)"
| "kbd_step s KReadStatus = s"
| "kbd_step s (KWriteData v) = kbd_write_data s v"
| "kbd_step s (KWriteCommand v) = kbd_write_command s v"
| "kbd_step s (KMMRead a) = snd (kbd_mm_readb s a)"
| "kbd_step s (KMMWrite a v) = kbd_mm_writeb s a v"
| "kbd_step s (KKey k) = kbd_calls (ps2_put_keycode (kbd s) k) s"
| "kbd_step s (KMouse dx dy dz b) = aux_calls (ps2_mouse_event (mouse s) dx dy dz b) s"
| "kbd_step s KFakeMouse = i8042_isa_mouse_fake_event s"
| "kbd_step s KReset = i8042_system_reset s"

interpretation kbd_sys: inv_system kbd_step kbd_inv
proof
  fix s e
  assume s: "kbd_inv s"
  show "kbd_inv (kbd_step s e)"
  proof (cases e)
    case (KMMRead a)
    then show ?thesis
      using kbd_read_data_inv [OF s] s by (auto simp: kbd_mm_readb_def split: prod.splits)
  next
    case (KMMWrite a v)
    then show ?thesis using s by (simp add: kbd_mm_writeb_def kbd_write_command_inv kbd_write_data_inv)
  next
    case (KKey k)
    then show ?thesis using s by (simp add: kbd_calls_inv sync_put_keycode)
  next
    case (KMouse dx dy dz b)
    then show ?thesis using s by (simp add: aux_calls_inv sync_mouse_event)
  next
    case KFakeMouse
    then show ?thesis
      using s by (simp add: i8042_isa_mouse_fake_event_def ps2_mouse_fake_event_def aux_calls_inv sync_mouse_event)
  qed (use s in \<open>simp_all add: kbd_read_data_inv kbd_write_data_inv kbd_write_command_inv reset_inv\<close>)
qed

section \<open>Properties\<close>

abbreviation kbd_bytes :: "KBDState \<Rightarrow> u8 list" where "kbd_bytes s \<equiv> ps2_bytes (kcommon (kbd s))"
abbreviation aux_bytes :: "KBDState \<Rightarrow> u8 list" where "aux_bytes s \<equiv> ps2_bytes (mcommon (mouse s))"

lemma kbd_inv_observe:
  assumes "kbd_inv s"
  shows "(bit (status s) 0 \<longleftrightarrow> kbd_bytes s @ aux_bytes s \<noteq> [])
    \<and> (bit (status s) 5 \<longleftrightarrow> kbd_bytes s = [] \<and> aux_bytes s \<noteq> [])
    \<and> line_level (irq_kbd s) = of_bool (kbd_bytes s \<noteq> [] \<and> bit (mode s) 0 \<and> \<not> bit (mode s) 4)
    \<and> line_level (irq_mouse s) = of_bool (kbd_bytes s = [] \<and> aux_bytes s \<noteq> [] \<and> bit (mode s) 1)"
  using assms by (auto simp: kbd_inv_def kbd_view_def waiting_def)

text \<open>
  C6: from power-on and whatever the guest and the host do, the status port and the two interrupt
  lines agree with the queues behind the controller. "Output buffer full" is set exactly when one
  of the two devices has a byte, the mouse bit exactly when only the mouse has; IRQ 1 is high
  exactly when the keyboard has a byte and its interrupt is enabled and its interface not disabled;
  IRQ 12 exactly when only the mouse has a byte and its interrupt is enabled. No byte is left
  waiting without its status bit, and no interrupt is left pending without its byte.
\<close>

theorem kbd_status_faithful:
  "let s = foldl kbd_step (i8042_system_reset i8042_initfn) es in
     (bit (status s) 0 \<longleftrightarrow> kbd_bytes s @ aux_bytes s \<noteq> [])
     \<and> (bit (status s) 5 \<longleftrightarrow> kbd_bytes s = [] \<and> aux_bytes s \<noteq> [])
     \<and> line_level (irq_kbd s) = of_bool (kbd_bytes s \<noteq> [] \<and> bit (mode s) 0 \<and> \<not> bit (mode s) 4)
     \<and> line_level (irq_mouse s) = of_bool (kbd_bytes s = [] \<and> aux_bytes s \<noteq> [] \<and> bit (mode s) 1)"
  unfolding Let_def i8042_initfn_def
  by (intro kbd_inv_observe kbd_sys.inv_run reset_inv init_inv)

text \<open>Reading the data port repeatedly.\<close>

fun kbd_reads :: "nat \<Rightarrow> KBDState \<Rightarrow> u32 list \<times> KBDState" where
  "kbd_reads 0 s = ([], s)"
| "kbd_reads (Suc n) s =
     (let (v, s) = kbd_read_data s; (vs, s) = kbd_reads n s in (v # vs, s))"

lemma kbd_calls_devices [simp]:
  "kbd_bytes (kbd_calls k s) = ps2_bytes (kcommon k)" "mouse (kbd_calls k s) = mouse s"
  "aux_bytes (aux_calls m s) = ps2_bytes (mcommon m)" "kbd (aux_calls m s) = kbd s"
  by (simp_all add: kbd_calls_def aux_calls_def)

lemma kbd_read_data_cases:
  assumes "kbd_inv s" "kbd_bytes s @ aux_bytes s \<noteq> []"
  shows "fst (kbd_read_data s) = ucast (hd (kbd_bytes s @ aux_bytes s))
    \<and> kbd_bytes (snd (kbd_read_data s)) @ aux_bytes (snd (kbd_read_data s)) = tl (kbd_bytes s @ aux_bytes s)"
proof -
  have p: "pending s = KBD_PENDING_AUX \<longleftrightarrow> kbd_bytes s = []"
    using assms by (auto simp: kbd_inv_def waiting_def)
  have ok: "ps2_ok (kcommon (kbd s))" "ps2_ok (mcommon (mouse s))"
    using assms(1) by (simp_all add: kbd_inv_def)
  show ?thesis
  proof (cases "kbd_bytes s = []")
    case True
    then show ?thesis
      using p assms(2) ps2_read_head [OF ok(2)] ps2_read_bytes [OF ok(2)]
      by (cases "ps2_read_data (mcommon (mouse s))") (simp add: kbd_read_data_def)
  next
    case False
    then show ?thesis
      using p ps2_read_head [OF ok(1)] ps2_read_bytes [OF ok(1)]
      by (cases "ps2_read_data (kcommon (kbd s))") (simp add: kbd_read_data_def hd_append tl_append2)
  qed
qed

lemma kbd_reads_all:
  "kbd_inv s \<Longrightarrow> n \<le> length (kbd_bytes s @ aux_bytes s) \<Longrightarrow>
     kbd_inv (snd (kbd_reads n s)) \<and> fst (kbd_reads n s) = map ucast (take n (kbd_bytes s @ aux_bytes s))
     \<and> kbd_bytes (snd (kbd_reads n s)) @ aux_bytes (snd (kbd_reads n s)) = drop n (kbd_bytes s @ aux_bytes s)"
proof (induction n arbitrary: s)
  case (Suc n)
  obtain v t where r: "kbd_read_data s = (v, t)" by fastforce
  have ne: "kbd_bytes s @ aux_bytes s \<noteq> []"
    using Suc.prems(2) by (simp only: flip: length_greater_0_conv)
  have t: "kbd_inv t" "v = ucast (hd (kbd_bytes s @ aux_bytes s))"
    "kbd_bytes t @ aux_bytes t = tl (kbd_bytes s @ aux_bytes s)"
    using kbd_read_data_inv [OF Suc.prems(1)] kbd_read_data_cases [OF Suc.prems(1) ne] r by simp_all
  have "n \<le> length (kbd_bytes t @ aux_bytes t)" using t(3) Suc.prems(2) by (simp only: length_tl)
  note IH = Suc.IH [OF t(1) this]
  have "take (Suc n) xs = hd xs # take n (tl xs)" "drop (Suc n) xs = drop n (tl xs)"
    if "xs \<noteq> []" for xs :: "u8 list" using that by (cases xs; simp)+
  note td = this [OF ne]
  have "kbd_reads (Suc n) s = (v # fst (kbd_reads n t), snd (kbd_reads n t))"
    by (simp add: r Let_def case_prod_unfold)
  then show ?case
    using IH t(2) unfolding t(3) td by simp
qed simp

text \<open>
  C28: the data port delivers everything that waits behind the controller, keyboard bytes first,
  then mouse bytes, each stream in order, and nothing else; after the last byte the status port
  reports an empty buffer and both interrupt lines are low.
\<close>

theorem kbd_drain:
  assumes "kbd_inv s" "n = length (kbd_bytes s) + length (aux_bytes s)" "t = snd (kbd_reads n s)"
  shows "fst (kbd_reads n s) = map ucast (kbd_bytes s @ aux_bytes s)
    \<and> \<not> bit (kbd_read_status t) 0 \<and> line_level (irq_kbd t) = 0 \<and> line_level (irq_mouse t) = 0"
proof -
  have n: "n = length (kbd_bytes s @ aux_bytes s)" using assms(2) by simp
  note r = kbd_reads_all [OF assms(1) eq_refl [OF n]]
  then have "kbd_inv t" "kbd_bytes t = []" "aux_bytes t = []" "fst (kbd_reads n s) = map ucast (kbd_bytes s @ aux_bytes s)"
    unfolding assms(3) n by simp_all
  then show ?thesis
    using kbd_inv_observe [of t] by (simp add: kbd_read_status_def bit_simps)
qed

lemma kbd_init_inv: "kbd_inv (i8042_system_reset i8042_initfn)"
  by (simp add: i8042_initfn_def reset_inv init_inv)

theorem kbd_drain_witness:
  "fst (kbd_reads 2 (foldl kbd_step (i8042_system_reset i8042_initfn)
     [KKey 30, KWriteCommand 0xD3, KWriteData 0x55])) = [30, 0x55]"
proof -
  let ?s = "foldl kbd_step (i8042_system_reset i8042_initfn) [KKey 30, KWriteCommand 0xD3, KWriteData 0x55]"
  have b: "kbd_bytes ?s = [30]" "aux_bytes ?s = [0x55]" by code_simp+
  have "kbd_inv ?s" by (rule kbd_sys.inv_run [OF kbd_init_inv])
  from kbd_drain [OF this _ refl, of 2] show ?thesis unfolding b by simp
qed

lemma kbd_write_command_simple:
  "kbd_write_command s 0x60 = s\<lparr>kbd_write_cmd := 0x60\<rparr>"
  "kbd_write_command s 0xD1 = s\<lparr>kbd_write_cmd := 0xD1\<rparr>"
  "kbd_write_command s 0x20 = kbd_queue s (uint (mode s)) False"
  by (simp_all add: kbd_write_command_def)

lemma kbd_write_mode:
  assumes "kbd_inv s"
  shows "kbd_write_data (s\<lparr>kbd_write_cmd := 0x60\<rparr>) v
    = (kbd_update_irq (s\<lparr>kbd_write_cmd := 0x60, mode := ucast v,
         kbd := (kbd s)\<lparr>translate := of_bool (ucast v AND 0x40 \<noteq> (0::u8))\<rparr>\<rparr>))\<lparr>kbd_write_cmd := 0\<rparr>"
proof -
  have "update_irq (kcommon (kbd s)) = []" using assms by (simp add: kbd_inv_def)
  then show ?thesis
    by (simp add: kbd_write_data_def Let_def kbd_calls_nop ps2_keyboard_set_translation_def)
qed

text \<open>
  The controller's mode byte can be written and read back. After command 0x60 and a byte,
  the command 0x20 makes the next read of the data port return that byte, provided no older
  keyboard byte is waiting (with the mouse holding anything), and the keyboard translates scancodes
  exactly when bit 6 of the byte was set.
\<close>

theorem kbd_mode_roundtrip:
  assumes "kbd_inv s" "kbd_bytes s = []"
    and "t = kbd_write_command (kbd_write_data (kbd_write_command s 0x60) v) 0x20"
  shows "fst (kbd_read_data t) = v AND 0xff \<and> mode t = ucast v
    \<and> (translate (kbd t) \<noteq> 0 \<longleftrightarrow> bit v 6)"
proof -
  let ?u = "kbd_write_data (kbd_write_command s 0x60) v"
  have u: "mode ?u = ucast v" "kbd_bytes ?u = []" "kbd_inv ?u"
    "translate (kbd ?u) = of_bool (ucast v AND 0x40 \<noteq> (0::u8))"
    using assms(1,2) by (simp_all add: kbd_write_command_simple kbd_write_mode kbd_inv_def kbd_update_irq_view)
  then have ok: "ps2_ok (kcommon (kbd ?u))" by (simp add: kbd_inv_def)
  have t: "t = kbd_queue ?u (uint (mode ?u)) False"
    unfolding assms(3) by (rule kbd_write_command_simple)
  then have inv: "kbd_inv t" using u(3) by (simp add: kbd_queue_inv)
  have "count (queue (kcommon (kbd ?u))) = 0"
    using u(2) length_ps2_bytes by (metis list.size(3))
  then have "kbd_bytes t = [mode ?u]"
    unfolding t kbd_queue_def using ps2_queue_room [OF ok, of "uint (mode ?u)"] u(2) by simp
  then have "fst (kbd_read_data t) = ucast (mode ?u)"
    using kbd_read_data_cases [OF inv] by simp
  also have "\<dots> = v AND 0xff"
    unfolding u(1) by (rule ucast_ucast8)
  finally have r: "fst (kbd_read_data t) = v AND 0xff" .
  have m: "mode t = mode ?u" "translate (kbd t) = translate (kbd ?u)"
    unfolding t by (simp_all add: kbd_queue_def kbd_calls_def)
  have "ucast v AND 0x40 \<noteq> (0::u8) \<longleftrightarrow> bit v 6"
    using and_shl1_eq_0_iff [of "ucast v :: u8" 6] by (simp add: shl1_def bit_simps)
  with r m u(1,4) show ?thesis by simp
qed

theorem kbd_mode_roundtrip_witness:
  "fst (kbd_read_data (kbd_write_command (kbd_write_data (kbd_write_command
     (i8042_system_reset i8042_initfn) 0x60) 0x47) 0x20)) = 0x47"
proof -
  have "kbd_bytes (i8042_system_reset i8042_initfn) = []" by code_simp
  from kbd_mode_roundtrip [OF kbd_init_inv this refl, of "0x47"] show ?thesis by simp
qed

text \<open>
  The A20 gate and the reset line. Command 0xD1 followed by a byte drives the A20 line, once,
  with bit 1 of the byte and requests a machine reset exactly when bit 0 of it is clear; a command
  in 0xF0 .. 0xFF requests a reset exactly when it is even; both leave the two devices, their
  interrupts and the status port alone.
\<close>

theorem kbd_a20_reset:
  assumes "a20_out s = Some l" "v AND 0xF0 = 0xF0" "c = v AND 0xff"
    and "t = kbd_write_data (kbd_write_command s 0xD1) b" "p = kbd_write_command s c"
  shows "a20_out t = Some (l @ [of_bool (bit b 1)])
    \<and> reset_requests t = reset_requests s + of_bool (\<not> bit b 0)
    \<and> reset_requests p = reset_requests s + of_bool (\<not> bit v 0)
    \<and> (\<forall>x \<in> {t, p}. kbd x = kbd s \<and> mouse x = mouse s \<and> irq_kbd x = irq_kbd s
         \<and> irq_mouse x = irq_mouse s \<and> status x = status s)"
proof -
  have b1: "uint (drop_bit 1 b AND 1) = of_bool (bit b 1)"
    by (simp only: drop_bit_and_1) simp
  have b0: "b AND 1 = 0 \<longleftrightarrow> \<not> bit b 0" "c AND 1 = 0 \<longleftrightarrow> \<not> bit v 0"
    using and_shl1_eq_0_iff [of b 0] and_shl1_eq_0_iff [of v 0]
    by (simp_all add: shl1_def assms(3) and.assoc)
  have c: "c AND 0xF0 = 0xF0" using assms(2) by (simp add: assms(3) and.assoc)
  have t: "t = (outport_write (s\<lparr>kbd_write_cmd := 0xD1\<rparr>) b)\<lparr>kbd_write_cmd := 0\<rparr>"
    unfolding assms(4) kbd_write_command_simple by (simp add: kbd_write_data_def)
  have p: "p = (if bit v 0 then s else s\<lparr>reset_requests := reset_requests s + 1\<rparr>)"
    unfolding assms(5) kbd_write_command_def using c b0(2) by simp
  show ?thesis
    unfolding t p outport_write_def Let_def using b0(1) b1 assms(1) by simp
qed

theorem kbd_a20_reset_witness:
  "let s = i8042_setup_a20_line [] (i8042_system_reset i8042_initfn) in
     a20_out (kbd_write_data (kbd_write_command s 0xD1) 0x03) = Some [1]
     \<and> reset_requests (kbd_write_data (kbd_write_command s 0xD1) 0x02) = reset_requests s + 1
     \<and> reset_requests (kbd_write_command s 0xFE) = reset_requests s + 1"
proof -
  let ?s = "i8042_setup_a20_line [] (i8042_system_reset i8042_initfn)"
  have a: "a20_out ?s = Some []" by (simp add: i8042_setup_a20_line_def)
  have v: "(0xFE :: u32) AND 0xF0 = 0xF0" "(0xFE :: u32) = 0xFE AND 0xff" by simp_all
  show ?thesis
    using kbd_a20_reset [OF a v refl refl, of 3] kbd_a20_reset [OF a v refl refl, of 2]
    unfolding Let_def by simp
qed

text \<open>
  A machine reset between a controller command and its data byte is not noticed: no reset handler
  clears the controller's \<open>write_cmd\<close>, so the first byte written to port 0x60 after the reset is
  still taken as the argument of the command before it.
\<close>

lemma kbd_reset_keeps_write_cmd:
  "kbd_write_cmd (i8042_system_reset (kbd_write_command s 0x60)) = 0x60"
  by (simp add: kbd_write_command_simple i8042_system_reset_def Let_def kbd_reset_def kbd_calls_def aux_calls_def)

end
