(* ===== verification/Serial.thy ===== *)
theory Serial
  imports Irq "HOL-Library.Signed_Division"
begin

text \<open>
  The 16550A UART, \<open>hw/serial.c\<close>. The character backend is outside the device: what it is asked to
  do is recorded in \<open>chr\<close>, and what it answers is part of the environment \<open>env\<close> of an operation,
  together with the virtual clock. \<open>tiocm\<close> is \<open>None\<close> when the backend does not support modem lines
  (\<open>-ENOTSUP\<close>); \<open>junk\<close> is the content of the uninitialised local \<open>flags\<close> of the MCR write in that
  case. A timer is the time it will fire at, if it is armed. \<open>qemu_chr_accept_input\<close> may make the
  backend deliver bytes; that is the next input of the device. A division by zero is \<open>None\<close>.
\<close>

datatype chr_op =
    ChrWrite u8 bool
  | ChrSetParams int char int int
  | ChrSetBreak int
  | ChrSetTiocm u32
  | ChrAcceptInput

record env =
  now :: u64
  write_ok :: bool
  tiocm :: "u32 option"
  junk :: u32

record SerialFIFO =
  fdata :: "u8 list"
  fcount :: nat
  itl :: nat
  tail :: nat
  head :: nat

record SerialState =
  divider :: u16
  rbr :: u8
  thr :: u8
  tsr :: u8
  ier :: u8
  iir :: u8
  lcr :: u8
  mcr :: u8
  lsr :: u8
  msr :: u8
  scr :: u8
  fcr :: u8
  fcr_vmstate :: u8
  thr_ipending :: int
  serial_irq :: irq_line
  chr :: "chr_op list"
  last_break_enable :: int
  it_shift :: nat
  baudbase :: int
  tsr_retry :: int
  last_xmit_ts :: u64
  recv_fifo :: SerialFIFO
  xmit_fifo :: SerialFIFO
  fifo_timeout_timer :: "u64 option"
  timeout_ipending :: int
  transmit_timer :: "u64 option"
  char_transmit_time :: u64
  poll_msl :: int
  modem_status_poll :: "u64 option"

definition UART_FIFO_LENGTH :: nat where "UART_FIFO_LENGTH = 16"
definition MAX_XMIT_RETRY :: int where "MAX_XMIT_RETRY = 4"
definition get_ticks_per_sec :: int where "get_ticks_per_sec = 1000000000"

datatype which_fifo = XMIT_FIFO | RECV_FIFO

definition get_fifo :: "SerialState \<Rightarrow> which_fifo \<Rightarrow> SerialFIFO" where
  "get_fifo s fifo = (case fifo of RECV_FIFO \<Rightarrow> recv_fifo s | XMIT_FIFO \<Rightarrow> xmit_fifo s)"

definition set_fifo :: "SerialState \<Rightarrow> which_fifo \<Rightarrow> SerialFIFO \<Rightarrow> SerialState" where
  "set_fifo s fifo f =
     (case fifo of RECV_FIFO \<Rightarrow> s\<lparr>recv_fifo := f\<rparr> | XMIT_FIFO \<Rightarrow> s\<lparr>xmit_fifo := f\<rparr>)"

definition fifo_clear :: "SerialState \<Rightarrow> which_fifo \<Rightarrow> SerialState" where
  "fifo_clear s fifo =
     set_fifo s fifo ((get_fifo s fifo)
       \<lparr>fdata := replicate UART_FIFO_LENGTH 0, fcount := 0, head := 0, tail := 0\<rparr>)"

definition fifo_put :: "SerialState \<Rightarrow> which_fifo \<Rightarrow> u8 \<Rightarrow> SerialState" where
  "fifo_put s fifo c =
     (let f = get_fifo s fifo;
          f = (if fifo = XMIT_FIFO \<or> fcount f < UART_FIFO_LENGTH then
                 (let f = f\<lparr>fdata := (fdata f)[head f := c], head := head f + 1\<rparr>
                  in if head f = UART_FIFO_LENGTH then f\<lparr>head := 0\<rparr> else f)
               else f)
      in if fcount f < UART_FIFO_LENGTH then set_fifo s fifo (f\<lparr>fcount := fcount f + 1\<rparr>)
         else if fifo = RECV_FIFO then (set_fifo s fifo f)\<lparr>lsr := lsr s OR 0x02\<rparr>
         else set_fifo s fifo f)"

definition fifo_get :: "SerialState \<Rightarrow> which_fifo \<Rightarrow> u8 \<times> SerialState" where
  "fifo_get s fifo =
     (let f = get_fifo s fifo in
      if fcount f = 0 then (0, s)
      else
        (let c = fdata f ! tail f;
             f = f\<lparr>tail := tail f + 1\<rparr>;
             f = (if tail f = UART_FIFO_LENGTH then f\<lparr>tail := 0\<rparr> else f)
         in (c, set_fifo s fifo (f\<lparr>fcount := fcount f - 1\<rparr>))))"

definition serial_update_irq :: "SerialState \<Rightarrow> SerialState" where
  "serial_update_irq s =
     (let tmp_iir =
        (if ier s AND 0x04 \<noteq> 0 \<and> lsr s AND 0x1E \<noteq> 0 then 0x06
         else if ier s AND 0x01 \<noteq> 0 \<and> timeout_ipending s \<noteq> 0 then 0x0C
         else if ier s AND 0x01 \<noteq> 0 \<and> lsr s AND 0x01 \<noteq> 0
                 \<and> (fcr s AND 0x01 = 0 \<or> fcount (recv_fifo s) \<ge> itl (recv_fifo s)) then 0x04
         else if ier s AND 0x02 \<noteq> 0 \<and> thr_ipending s \<noteq> 0 then 0x02
         else if ier s AND 0x08 \<noteq> 0 \<and> msr s AND 0x0F \<noteq> 0 then 0x00
         else 0x01);
          s = s\<lparr>iir := tmp_iir OR (iir s AND 0xF0)\<rparr>
      in if tmp_iir \<noteq> 0x01 then s\<lparr>serial_irq := raise_line (serial_irq s)\<rparr>
         else s\<lparr>serial_irq := lower_line (serial_irq s)\<rparr>)"

definition serial_update_parameters :: "SerialState \<Rightarrow> SerialState option" where
  "serial_update_parameters s =
     (if divider s = 0 then Some s
      else
        (let frame_size = 1 + (if lcr s AND 0x08 \<noteq> 0 then 1 else 0);
             parity = (if lcr s AND 0x08 \<noteq> 0 then (if lcr s AND 0x10 \<noteq> 0 then CHR ''E'' else CHR ''O'')
                       else CHR ''N'');
             stop_bits = (if lcr s AND 0x04 \<noteq> 0 then 2 else 1);
             data_bits = uint (lcr s AND 0x03) + 5;
             frame_size = frame_size + data_bits + stop_bits;
             speed = baudbase s sdiv uint (divider s)
         in if speed = 0 then None
            else Some (s\<lparr>char_transmit_time := word_of_int ((get_ticks_per_sec sdiv speed) * frame_size),
                         chr := chr s @ [ChrSetParams speed parity data_bits stop_bits]\<rparr>)))"

definition serial_update_msl :: "env \<Rightarrow> SerialState \<Rightarrow> SerialState" where
  "serial_update_msl e s =
     (let s = s\<lparr>modem_status_poll := None\<rparr> in
      case tiocm e of
        None \<Rightarrow> s\<lparr>poll_msl := -1\<rparr>
      | Some flags \<Rightarrow>
         (let omsr = msr s;
              m = (if flags AND 0x020 \<noteq> 0 then omsr OR 0x10 else omsr AND NOT 0x10);
              m = (if flags AND 0x100 \<noteq> 0 then m OR 0x20 else m AND NOT 0x20);
              m = (if flags AND 0x040 \<noteq> 0 then m OR 0x80 else m AND NOT 0x80);
              m = (if flags AND 0x080 \<noteq> 0 then m OR 0x40 else m AND NOT 0x40);
              s = s\<lparr>msr := m\<rparr>;
              s = (if m \<noteq> omsr then
                     (let m = m OR (drop_bit 4 m XOR drop_bit 4 omsr);
                          m = (if m AND 0x04 \<noteq> 0 \<and> omsr AND 0x40 = 0 then m AND NOT 0x04 else m)
                      in serial_update_irq (s\<lparr>msr := m\<rparr>))
                   else s)
          in if poll_msl s \<noteq> 0
             then s\<lparr>modem_status_poll := Some (now e + word_of_int (get_ticks_per_sec sdiv 100))\<rparr>
             else s))"

definition serial_receive1 :: "env \<Rightarrow> SerialState \<Rightarrow> u8 list \<Rightarrow> SerialState" where
  "serial_receive1 e s buf =
     (let s = (if fcr s AND 0x01 \<noteq> 0 then
                 (let s = foldl (\<lambda>s b. fifo_put s RECV_FIFO b) s buf
                  in s\<lparr>lsr := lsr s OR 0x01,
                       fifo_timeout_timer := Some (now e + char_transmit_time s * 4)\<rparr>)
               else
                 (let s = (if lsr s AND 0x01 \<noteq> 0 then s\<lparr>lsr := lsr s OR 0x02\<rparr> else s)
                  in s\<lparr>rbr := buf ! 0, lsr := lsr s OR 0x01\<rparr>))
      in serial_update_irq s)"

text \<open>\<open>serial_xmit\<close>: loading the shift register, the end of the function, and the whole.\<close>

definition serial_xmit_load :: "SerialState \<Rightarrow> SerialState" where
  "serial_xmit_load s =
     (if tsr_retry s \<le> 0 then
        (if fcr s AND 0x01 \<noteq> 0 then
           (case fifo_get s XMIT_FIFO of (c, s) \<Rightarrow>
              (let s = s\<lparr>tsr := c\<rparr>
               in if fcount (xmit_fifo s) = 0 then s\<lparr>lsr := lsr s OR 0x20\<rparr> else s))
         else s\<lparr>tsr := thr s, lsr := lsr s OR 0x20\<rparr>)
      else s)"

definition serial_xmit_done :: "env \<Rightarrow> SerialState \<Rightarrow> SerialState" where
  "serial_xmit_done e s =
     (let s = s\<lparr>last_xmit_ts := now e\<rparr>;
          s = (if lsr s AND 0x20 = 0
               then s\<lparr>transmit_timer := Some (last_xmit_ts s + char_transmit_time s)\<rparr> else s)
      in if lsr s AND 0x20 \<noteq> 0
         then serial_update_irq (s\<lparr>lsr := lsr s OR 0x40, thr_ipending := 1\<rparr>) else s)"

definition serial_xmit :: "env \<Rightarrow> SerialState \<Rightarrow> SerialState" where
  "serial_xmit e s =
     (let new_xmit_ts = now e;
          s = serial_xmit_load s
      in if mcr s AND 0x10 \<noteq> 0 then serial_xmit_done e (serial_receive1 e s [tsr s])
         else if \<not> write_ok e then
           (let s = s\<lparr>chr := chr s @ [ChrWrite (tsr s) False]\<rparr>
            in if tsr_retry s > 0 \<and> tsr_retry s \<le> MAX_XMIT_RETRY then
                 s\<lparr>tsr_retry := tsr_retry s + 1,
                   transmit_timer := Some (new_xmit_ts + char_transmit_time s)\<rparr>
               else if poll_msl s < 0 then serial_xmit_done e (s\<lparr>tsr_retry := -1\<rparr>)
               else serial_xmit_done e s)
         else serial_xmit_done e (s\<lparr>chr := chr s @ [ChrWrite (tsr s) True], tsr_retry := 0\<rparr>))"

text \<open>The registers of \<open>serial_ioport_write\<close>, one definition for each that does more than a store.\<close>

definition serial_write_thr :: "env \<Rightarrow> SerialState \<Rightarrow> u32 \<Rightarrow> SerialState" where
  "serial_write_thr e s val =
     (let s = s\<lparr>thr := ucast val\<rparr>;
          s = (if fcr s AND 0x01 \<noteq> 0 then
                 (let s = fifo_put s XMIT_FIFO (thr s);
                      s = s\<lparr>thr_ipending := 0, lsr := lsr s AND NOT 0x40 AND NOT 0x20\<rparr>
                  in serial_update_irq s)
               else serial_update_irq (s\<lparr>thr_ipending := 0, lsr := lsr s AND NOT 0x20\<rparr>))
      in serial_xmit e s)"

definition serial_write_ier :: "env \<Rightarrow> SerialState \<Rightarrow> u32 \<Rightarrow> SerialState" where
  "serial_write_ier e s val =
     (let s = s\<lparr>ier := ucast (val AND 0x0f)\<rparr>;
          s = (if poll_msl s \<ge> 0 then
                 (if ier s AND 0x08 \<noteq> 0 then serial_update_msl e (s\<lparr>poll_msl := 1\<rparr>)
                  else s\<lparr>modem_status_poll := None, poll_msl := 0\<rparr>)
               else s)
      in if lsr s AND 0x20 \<noteq> 0 then serial_update_irq (s\<lparr>thr_ipending := 1\<rparr>) else s)"

definition fcr_cleared :: "SerialState \<Rightarrow> u8 \<Rightarrow> SerialState" where
  "fcr_cleared s val =
     (let s = (if val AND 0x02 \<noteq> 0
               then fifo_clear (s\<lparr>fifo_timeout_timer := None, timeout_ipending := 0\<rparr>) RECV_FIFO else s)
      in if val AND 0x04 \<noteq> 0 then fifo_clear s XMIT_FIFO else s)"

definition serial_write_fcr :: "SerialState \<Rightarrow> u32 \<Rightarrow> SerialState" where
  "serial_write_fcr s val =
     (let val = ucast (val AND 0xFF) :: u8 in
      if fcr s = val then s
      else
        (let val = (if (val XOR fcr s) AND 0x01 \<noteq> 0 then val OR 0x04 OR 0x02 else val);
             s = fcr_cleared s val;
             s = (if val AND 0x01 \<noteq> 0 then
                    s\<lparr>iir := iir s OR 0xC0,
                      recv_fifo := (recv_fifo s)
                        \<lparr>itl := (let l = val AND 0xC0 in
                                if l = 0x00 then 1 else if l = 0x40 then 4 else if l = 0x80 then 8 else 14)\<rparr>\<rparr>
                  else s\<lparr>iir := iir s AND NOT 0xC0\<rparr>)
         in serial_update_irq (s\<lparr>fcr := val AND 0xC9\<rparr>)))"

definition serial_write_lcr :: "SerialState \<Rightarrow> u32 \<Rightarrow> SerialState option" where
  "serial_write_lcr s val =
     (case serial_update_parameters (s\<lparr>lcr := ucast val\<rparr>) of
        None \<Rightarrow> None
      | Some s \<Rightarrow>
         (let break_enable = uint (drop_bit 6 val AND 1)
          in Some (if break_enable \<noteq> last_break_enable s
                   then s\<lparr>last_break_enable := break_enable, chr := chr s @ [ChrSetBreak break_enable]\<rparr>
                   else s)))"

definition serial_write_mcr :: "env \<Rightarrow> SerialState \<Rightarrow> u32 \<Rightarrow> SerialState" where
  "serial_write_mcr e s val =
     (let old_mcr = mcr s;
          s = s\<lparr>mcr := ucast (val AND 0x1f)\<rparr>
      in if val AND 0x10 \<noteq> 0 then s
         else if poll_msl s \<ge> 0 \<and> old_mcr \<noteq> mcr s then
           (let flags = (case tiocm e of Some f \<Rightarrow> f | None \<Rightarrow> junk e);
                flags = flags AND NOT (0x004 OR 0x002);
                flags = (if val AND 0x02 \<noteq> 0 then flags OR 0x004 else flags);
                flags = (if val AND 0x01 \<noteq> 0 then flags OR 0x002 else flags)
            in s\<lparr>chr := chr s @ [ChrSetTiocm flags],
                 modem_status_poll := Some (now e + char_transmit_time s)\<rparr>)
         else s)"

definition serial_ioport_write :: "env \<Rightarrow> SerialState \<Rightarrow> u32 \<Rightarrow> u32 \<Rightarrow> SerialState option" where
  "serial_ioport_write e s addr val =
     (let addr = addr AND 7 in
      if addr = 1 then
        (if lcr s AND 0x80 \<noteq> 0
         then serial_update_parameters (s\<lparr>divider := (divider s AND 0x00ff) OR ucast (push_bit 8 val)\<rparr>)
         else Some (serial_write_ier e s val))
      else if addr = 2 then Some (serial_write_fcr s val)
      else if addr = 3 then serial_write_lcr s val
      else if addr = 4 then Some (serial_write_mcr e s val)
      else if addr = 5 then Some s
      else if addr = 6 then Some s
      else if addr = 7 then Some (s\<lparr>scr := ucast val\<rparr>)
      else
        (if lcr s AND 0x80 \<noteq> 0
         then serial_update_parameters (s\<lparr>divider := (divider s AND 0xff00) OR ucast val\<rparr>)
         else Some (serial_write_thr e s val)))"

text \<open>The registers of \<open>serial_ioport_read\<close>.\<close>

definition serial_read_rbr :: "env \<Rightarrow> SerialState \<Rightarrow> u32 \<times> SerialState" where
  "serial_read_rbr e s =
     (let (ret, s) =
        (if fcr s AND 0x01 \<noteq> 0 then
           (case fifo_get s RECV_FIFO of (c, s) \<Rightarrow>
              (let s = (if fcount (recv_fifo s) = 0 then s\<lparr>lsr := lsr s AND NOT (0x01 OR 0x10)\<rparr>
                        else s\<lparr>fifo_timeout_timer := Some (now e + char_transmit_time s * 4)\<rparr>)
               in (ucast c, s\<lparr>timeout_ipending := 0\<rparr>)))
         else (ucast (rbr s), s\<lparr>lsr := lsr s AND NOT (0x01 OR 0x10)\<rparr>));
          s = serial_update_irq s;
          s = (if mcr s AND 0x10 = 0 then s\<lparr>chr := chr s @ [ChrAcceptInput]\<rparr> else s)
      in (ret, s))"

definition serial_read_iir :: "SerialState \<Rightarrow> u32 \<times> SerialState" where
  "serial_read_iir s =
     (let ret = ucast (iir s) :: u32 in
      if ret AND 0x06 = 0x02 then (ret, serial_update_irq (s\<lparr>thr_ipending := 0\<rparr>)) else (ret, s))"

definition serial_read_lsr :: "SerialState \<Rightarrow> u32 \<times> SerialState" where
  "serial_read_lsr s =
     (ucast (lsr s),
      if lsr s AND (0x10 OR 0x02) \<noteq> 0 then serial_update_irq (s\<lparr>lsr := lsr s AND NOT (0x10 OR 0x02)\<rparr>)
      else s)"

definition serial_read_msr :: "env \<Rightarrow> SerialState \<Rightarrow> u32 \<times> SerialState" where
  "serial_read_msr e s =
     (if mcr s AND 0x10 \<noteq> 0 then
        (let m = ucast (mcr s) :: u32
         in (push_bit 4 (m AND 0x0c) OR push_bit 3 (m AND 0x02) OR push_bit 5 (m AND 0x01), s))
      else
        (let s = (if poll_msl s \<ge> 0 then serial_update_msl e s else s);
             ret = ucast (msr s)
         in if msr s AND 0x0F \<noteq> 0 then (ret, serial_update_irq (s\<lparr>msr := msr s AND 0xF0\<rparr>)) else (ret, s)))"

definition serial_ioport_read :: "env \<Rightarrow> SerialState \<Rightarrow> u32 \<Rightarrow> u32 \<times> SerialState" where
  "serial_ioport_read e s addr =
     (let addr = addr AND 7 in
      if addr = 1 then
        (if lcr s AND 0x80 \<noteq> 0 then (ucast (drop_bit 8 (divider s) AND 0xff), s) else (ucast (ier s), s))
      else if addr = 2 then serial_read_iir s
      else if addr = 3 then (ucast (lcr s), s)
      else if addr = 4 then (ucast (mcr s), s)
      else if addr = 5 then serial_read_lsr s
      else if addr = 6 then serial_read_msr e s
      else if addr = 7 then (ucast (scr s), s)
      else
        (if lcr s AND 0x80 \<noteq> 0 then (ucast (divider s AND 0xff), s) else serial_read_rbr e s))"

definition serial_can_receive :: "SerialState \<Rightarrow> int" where
  "serial_can_receive s =
     (if fcr s AND 0x01 \<noteq> 0 then
        (let f = recv_fifo s in
         if fcount f < UART_FIFO_LENGTH then (if fcount f \<le> itl f then int (itl f) - int (fcount f) else 1)
         else 0)
      else of_bool (lsr s AND 0x01 = 0))"

definition serial_receive_break :: "SerialState \<Rightarrow> SerialState" where
  "serial_receive_break s =
     (let s = fifo_put (s\<lparr>rbr := 0\<rparr>) RECV_FIFO 0
      in serial_update_irq (s\<lparr>lsr := lsr s OR (0x10 OR 0x01)\<rparr>))"

definition fifo_timeout_int :: "SerialState \<Rightarrow> SerialState" where
  "fifo_timeout_int s =
     (if fcount (recv_fifo s) \<noteq> 0 then serial_update_irq (s\<lparr>timeout_ipending := 1\<rparr>) else s)"

definition CHR_EVENT_BREAK :: int where "CHR_EVENT_BREAK = 0"

definition serial_event :: "SerialState \<Rightarrow> int \<Rightarrow> SerialState" where
  "serial_event s event = (if event = CHR_EVENT_BREAK then serial_receive_break s else s)"

definition serial_pre_save :: "SerialState \<Rightarrow> SerialState" where
  "serial_pre_save s = s\<lparr>fcr_vmstate := fcr s\<rparr>"

definition serial_post_load :: "env \<Rightarrow> SerialState \<Rightarrow> int \<Rightarrow> SerialState option" where
  "serial_post_load e s version_id =
     (let s = (if version_id < 3 then s\<lparr>fcr_vmstate := 0\<rparr> else s)
      in case serial_ioport_write e s 0x02 (ucast (fcr_vmstate s)) of
           None \<Rightarrow> None | Some s \<Rightarrow> serial_update_parameters s)"

definition serial_reset :: "env \<Rightarrow> SerialState \<Rightarrow> SerialState" where
  "serial_reset e s =
     (let s = s\<lparr>rbr := 0, ier := 0, iir := 0x01, lcr := 0, lsr := 0x40 OR 0x20,
                msr := 0x80 OR 0x20 OR 0x10, divider := 0x0C, mcr := 0x08, scr := 0, tsr_retry := 0,
                char_transmit_time := word_of_int ((get_ticks_per_sec sdiv 9600) * 10), poll_msl := 0\<rparr>;
          s = fifo_clear s RECV_FIFO;
          s = fifo_clear s XMIT_FIFO;
          s = s\<lparr>last_xmit_ts := now e, thr_ipending := 0, last_break_enable := 0\<rparr>
      in s\<lparr>serial_irq := lower_line (serial_irq s)\<rparr>)"

definition serial_set_frequency :: "SerialState \<Rightarrow> u32 \<Rightarrow> SerialState option" where
  "serial_set_frequency s frequency = serial_update_parameters (s\<lparr>baudbase := sint frequency\<rparr>)"

text \<open>The devices are created in zeroed memory.\<close>

definition fifo_zero :: SerialFIFO where
  "fifo_zero = \<lparr>fdata = replicate 16 0, fcount = 0, itl = 0, tail = 0, head = 0\<rparr>"

definition serial_init :: "int \<Rightarrow> nat \<Rightarrow> SerialState" where
  "serial_init base_baud shift =
     \<lparr>divider = 0, rbr = 0, thr = 0, tsr = 0, ier = 0, iir = 0, lcr = 0, mcr = 0, lsr = 0, msr = 0,
      scr = 0, fcr = 0, fcr_vmstate = 0, thr_ipending = 0, serial_irq = [], chr = [],
      last_break_enable = 0, it_shift = shift, baudbase = base_baud, tsr_retry = 0, last_xmit_ts = 0,
      recv_fifo = fifo_zero, xmit_fifo = fifo_zero, fifo_timeout_timer = None, timeout_ipending = 0,
      transmit_timer = None, char_transmit_time = 0, poll_msl = 0, modem_status_poll = None\<rparr>"

definition serial_isa_initfn :: SerialState where
  "serial_isa_initfn = serial_init 115200 0"

definition serial_mm_init :: "env \<Rightarrow> nat \<Rightarrow> int \<Rightarrow> SerialState" where
  "serial_mm_init e shift base_baud = serial_update_msl e (serial_init base_baud shift)"

text \<open>The memory-mapped interfaces, with the byte swaps of \<open>bswap.h\<close>.\<close>

definition bswap16 :: "u16 \<Rightarrow> u16" where
  "bswap16 x = push_bit 8 (x AND 0x00ff) OR drop_bit 8 (x AND 0xff00)"

definition bswap32 :: "u32 \<Rightarrow> u32" where
  "bswap32 x = push_bit 24 (x AND 0x000000ff) OR push_bit 8 (x AND 0x0000ff00)
     OR drop_bit 8 (x AND 0x00ff0000) OR drop_bit 24 (x AND 0xff000000)"

definition mm_addr :: "SerialState \<Rightarrow> u64 \<Rightarrow> u32" where
  "mm_addr s addr = ucast (drop_bit (it_shift s) addr)"

definition serial_mm_readb :: "env \<Rightarrow> SerialState \<Rightarrow> u64 \<Rightarrow> u32 \<times> SerialState" where
  "serial_mm_readb e s addr = apfst (\<lambda>v. v AND 0xFF) (serial_ioport_read e s (mm_addr s addr))"

definition serial_mm_writeb :: "env \<Rightarrow> SerialState \<Rightarrow> u64 \<Rightarrow> u32 \<Rightarrow> SerialState option" where
  "serial_mm_writeb e s addr v = serial_ioport_write e s (mm_addr s addr) (v AND 0xFF)"

definition serial_mm_readw_be :: "env \<Rightarrow> SerialState \<Rightarrow> u64 \<Rightarrow> u32 \<times> SerialState" where
  "serial_mm_readw_be e s addr =
     apfst (\<lambda>v. ucast (bswap16 (ucast (v AND 0xFFFF)))) (serial_ioport_read e s (mm_addr s addr))"

definition serial_mm_readw_le :: "env \<Rightarrow> SerialState \<Rightarrow> u64 \<Rightarrow> u32 \<times> SerialState" where
  "serial_mm_readw_le e s addr = apfst (\<lambda>v. v AND 0xFFFF) (serial_ioport_read e s (mm_addr s addr))"

definition serial_mm_writew_be :: "env \<Rightarrow> SerialState \<Rightarrow> u64 \<Rightarrow> u32 \<Rightarrow> SerialState option" where
  "serial_mm_writew_be e s addr v =
     serial_ioport_write e s (mm_addr s addr) (ucast (bswap16 (ucast v)) AND 0xFFFF)"

definition serial_mm_writew_le :: "env \<Rightarrow> SerialState \<Rightarrow> u64 \<Rightarrow> u32 \<Rightarrow> SerialState option" where
  "serial_mm_writew_le e s addr v = serial_ioport_write e s (mm_addr s addr) (v AND 0xFFFF)"

definition serial_mm_readl_be :: "env \<Rightarrow> SerialState \<Rightarrow> u64 \<Rightarrow> u32 \<times> SerialState" where
  "serial_mm_readl_be e s addr = apfst bswap32 (serial_ioport_read e s (mm_addr s addr))"

definition serial_mm_readl_le :: "env \<Rightarrow> SerialState \<Rightarrow> u64 \<Rightarrow> u32 \<times> SerialState" where
  "serial_mm_readl_le e s addr = serial_ioport_read e s (mm_addr s addr)"

definition serial_mm_writel_be :: "env \<Rightarrow> SerialState \<Rightarrow> u64 \<Rightarrow> u32 \<Rightarrow> SerialState option" where
  "serial_mm_writel_be e s addr v = serial_ioport_write e s (mm_addr s addr) (bswap32 v)"

definition serial_mm_writel_le :: "env \<Rightarrow> SerialState \<Rightarrow> u64 \<Rightarrow> u32 \<Rightarrow> SerialState option" where
  "serial_mm_writel_le e s addr v = serial_ioport_write e s (mm_addr s addr) v"

section \<open>The receive FIFO\<close>

definition fifo_ok :: "SerialFIFO \<Rightarrow> bool" where
  "fifo_ok f \<longleftrightarrow> length (fdata f) = 16 \<and> tail f < 16 \<and> fcount f \<le> 16 \<and> head f = (tail f + fcount f) mod 16"

definition fifo_bytes :: "SerialFIFO \<Rightarrow> u8 list" where
  "fifo_bytes f = ring_list (fdata f) (tail f) (fcount f)"

abbreviation recv_ok :: "SerialState \<Rightarrow> bool" where "recv_ok s \<equiv> fifo_ok (recv_fifo s)"
abbreviation recv_bytes :: "SerialState \<Rightarrow> u8 list" where "recv_bytes s \<equiv> fifo_bytes (recv_fifo s)"
abbreviation recv_put :: "SerialState \<Rightarrow> u8 \<Rightarrow> SerialState" where "recv_put s b \<equiv> fifo_put s RECV_FIFO b"
abbreviation recv_get :: "SerialState \<Rightarrow> u8 \<times> SerialState" where "recv_get s \<equiv> fifo_get s RECV_FIFO"

lemma length_fifo_bytes [simp]: "length (fifo_bytes f) = fcount f"
  by (simp add: fifo_bytes_def)

lemma fifo_bytes_empty: "fifo_bytes f = [] \<longleftrightarrow> fcount f = 0"
  using length_fifo_bytes [of f] by (metis length_0_conv)

lemmas fifo_ops = get_fifo_def set_fifo_def fifo_put_def fifo_get_def fifo_clear_def UART_FIFO_LENGTH_def Let_def

lemma recv_put_ok: "recv_ok s \<Longrightarrow> recv_ok (recv_put s b)"
  using Suc_mod_wrap [of "head (recv_fifo s)" 16]
  by (auto simp: fifo_ok_def fifo_ops mod_Suc_eq split: if_splits)

lemma recv_put_room:
  assumes "recv_ok s" "fcount (recv_fifo s) < 16"
  shows "recv_bytes (recv_put s b) = recv_bytes s @ [b]"
proof -
  let ?f = "recv_fifo s"
  have "ring_list ((fdata ?f)[head ?f := b]) (tail ?f) (Suc (fcount ?f))
      = ring_list (fdata ?f) (tail ?f) (fcount ?f) @ [b]"
    using assms by (intro ring_list_put) (simp_all add: fifo_ok_def)
  then show ?thesis
    using assms by (auto simp: fifo_bytes_def fifo_ops)
qed

lemma recv_put_full: "fcount (recv_fifo s) \<ge> 16 \<Longrightarrow> recv_put s b = s\<lparr>lsr := lsr s OR 0x02\<rparr>"
  by (simp add: fifo_ops)

lemma recv_get_ok: "recv_ok s \<Longrightarrow> recv_ok (snd (recv_get s))"
  by (cases "fcount (recv_fifo s)") (auto simp: fifo_ok_def fifo_ops)

lemma recv_get_bytes: "recv_ok s \<Longrightarrow> recv_bytes (snd (recv_get s)) = tl (recv_bytes s)"
  using Suc_mod_wrap [of "tail (recv_fifo s)" 16]
    ring_list_mod_start [of "fdata (recv_fifo s)" "Suc (tail (recv_fifo s))" "fcount (recv_fifo s) - 1"]
  by (auto simp: fifo_ok_def fifo_bytes_def fifo_ops ring_list_tl)

lemma recv_get_head: "recv_ok s \<Longrightarrow> recv_bytes s \<noteq> [] \<Longrightarrow> fst (recv_get s) = hd (recv_bytes s)"
  by (auto simp: fifo_ok_def fifo_bytes_def fifo_ops ring_list_hd)

interpretation recvq: byte_fifo recv_ok recv_bytes 16 recv_put recv_get
proof unfold_locales
  fix q :: SerialState and b :: u8
  assume q: "recv_ok q"
  show "length (recv_bytes q) \<le> 16" using q by (simp add: fifo_ok_def)
  show "recv_ok (recv_put q b)" using q by (rule recv_put_ok)
  show "recv_bytes (recv_put q b) = recv_bytes q @ [b]" if "length (recv_bytes q) < 16"
    using q that by (simp add: recv_put_room)
  show "recv_bytes (recv_put q b) = recv_bytes q" if "length (recv_bytes q) = 16"
    using that by (simp add: recv_put_full)
  show "recv_ok (snd (recv_get q))" using q by (rule recv_get_ok)
  show "recv_bytes (snd (recv_get q)) = tl (recv_bytes q)" using q by (rule recv_get_bytes)
  show "fst (recv_get q) = hd (recv_bytes q)" if "recv_bytes q \<noteq> []"
    using q that by (rule recv_get_head)
qed

section \<open>Interrupt identification\<close>

text \<open>
  The sources of the UART's interrupt in the order of their priority, each with its enable bit, its
  condition and its code in the IIR, and the code the IIR has to show: the first source that is
  enabled and pending, or "no interrupt".
\<close>

definition irq_sources :: "SerialState \<Rightarrow> (bool \<times> u8) list" where
  "irq_sources s =
    [(bit (ier s) 2 \<and> lsr s AND 0x1E \<noteq> 0, 0x06),
     (bit (ier s) 0 \<and> timeout_ipending s \<noteq> 0, 0x0C),
     (bit (ier s) 0 \<and> bit (lsr s) 0 \<and> (bit (fcr s) 0 \<longrightarrow> itl (recv_fifo s) \<le> fcount (recv_fifo s)), 0x04),
     (bit (ier s) 1 \<and> thr_ipending s \<noteq> 0, 0x02),
     (bit (ier s) 3 \<and> msr s AND 0x0F \<noteq> 0, 0x00)]"

definition irq_id :: "SerialState \<Rightarrow> u8" where
  "irq_id s = (case find fst (irq_sources s) of Some (_, code) \<Rightarrow> code | None \<Rightarrow> 0x01)"

definition serial_irq_ok :: "SerialState \<Rightarrow> bool" where
  "serial_irq_ok s \<longleftrightarrow> iir s AND 0x0F = irq_id s \<and> line_level (serial_irq s) = of_bool (irq_id s \<noteq> 0x01)"

lemma and_bits_u8:
  fixes x :: u8
  shows "x AND 1 = 0 \<longleftrightarrow> \<not> bit x 0" "x AND 2 = 0 \<longleftrightarrow> \<not> bit x 1" "x AND 4 = 0 \<longleftrightarrow> \<not> bit x 2"
    "x AND 8 = 0 \<longleftrightarrow> \<not> bit x 3" "x AND 0x10 = 0 \<longleftrightarrow> \<not> bit x 4" "x AND 0x20 = 0 \<longleftrightarrow> \<not> bit x 5"
    "x AND 0x40 = 0 \<longleftrightarrow> \<not> bit x 6" "x AND 0x80 = 0 \<longleftrightarrow> \<not> bit x 7"
  using and_shl1_eq_0_iff [of x 0] and_shl1_eq_0_iff [of x 1] and_shl1_eq_0_iff [of x 2]
    and_shl1_eq_0_iff [of x 3] and_shl1_eq_0_iff [of x 4] and_shl1_eq_0_iff [of x 5]
    and_shl1_eq_0_iff [of x 6] and_shl1_eq_0_iff [of x 7]
  by (simp_all add: shl1_def)

lemma bit_u8:
  "bit (0x01::u8) n \<longleftrightarrow> n = 0" "bit (0x02::u8) n \<longleftrightarrow> n = 1" "bit (0x04::u8) n \<longleftrightarrow> n = 2"
  "bit (0x08::u8) n \<longleftrightarrow> n = 3" "bit (0x10::u8) n \<longleftrightarrow> n = 4" "bit (0x20::u8) n \<longleftrightarrow> n = 5"
  "bit (0x40::u8) n \<longleftrightarrow> n = 6" "bit (0x80::u8) n \<longleftrightarrow> n = 7"
  using bit_shl1 [of 0 n, where 'a = 8] bit_shl1 [of 1 n, where 'a = 8] bit_shl1 [of 2 n, where 'a = 8]
    bit_shl1 [of 3 n, where 'a = 8] bit_shl1 [of 4 n, where 'a = 8] bit_shl1 [of 5 n, where 'a = 8]
    bit_shl1 [of 6 n, where 'a = 8] bit_shl1 [of 7 n, where 'a = 8]
  by (simp_all add: shl1_def)

lemma find_cascade:
  "(case find fst [(a, 6), (b, 0xC), (c, 4), (d, 2), (f, 0)] of Some (_, code) \<Rightarrow> code | None \<Rightarrow> (1 :: u8))
   = (if a then 6 else if b then 0xC else if c then 4 else if d then 2 else if f then 0 else 1)"
  by simp

lemma irq_id_eq:
  "irq_id s =
     (if ier s AND 0x04 \<noteq> 0 \<and> lsr s AND 0x1E \<noteq> 0 then 0x06
      else if ier s AND 0x01 \<noteq> 0 \<and> timeout_ipending s \<noteq> 0 then 0x0C
      else if ier s AND 0x01 \<noteq> 0 \<and> lsr s AND 0x01 \<noteq> 0
              \<and> (fcr s AND 0x01 = 0 \<or> fcount (recv_fifo s) \<ge> itl (recv_fifo s)) then 0x04
      else if ier s AND 0x02 \<noteq> 0 \<and> thr_ipending s \<noteq> 0 then 0x02
      else if ier s AND 0x08 \<noteq> 0 \<and> msr s AND 0x0F \<noteq> 0 then 0x00
      else 0x01)"
  unfolding irq_id_def irq_sources_def find_cascade and_bits_u8 not_not imp_conv_disj ..

lemma serial_update_irq_eq:
  "serial_update_irq s = s\<lparr>iir := irq_id s OR (iir s AND 0xF0),
     serial_irq := serial_irq s @ [of_bool (irq_id s \<noteq> 1)]\<rparr>"
  unfolding serial_update_irq_def irq_id_eq [symmetric] Let_def by simp

lemma irq_id_frame [simp]:
  "irq_id (s\<lparr>iir := i\<rparr>) = irq_id s" "irq_id (s\<lparr>serial_irq := l\<rparr>) = irq_id s"
  "irq_id (s\<lparr>chr := c\<rparr>) = irq_id s" "irq_id (s\<lparr>modem_status_poll := p\<rparr>) = irq_id s"
  "irq_id (s\<lparr>poll_msl := q\<rparr>) = irq_id s" "irq_id (s\<lparr>lcr := x\<rparr>) = irq_id s"
  "irq_id (s\<lparr>mcr := x\<rparr>) = irq_id s" "irq_id (s\<lparr>scr := x\<rparr>) = irq_id s"
  "irq_id (s\<lparr>divider := d\<rparr>) = irq_id s" "irq_id (s\<lparr>char_transmit_time := t\<rparr>) = irq_id s"
  "irq_id (s\<lparr>last_break_enable := b\<rparr>) = irq_id s"
  "irq_id (s\<lparr>fifo_timeout_timer := ft\<rparr>) = irq_id s" "irq_id (s\<lparr>transmit_timer := ft\<rparr>) = irq_id s"
  by (simp_all add: irq_id_def irq_sources_def)

lemma irq_id_cases: "irq_id s \<in> {0x06, 0x0C, 0x04, 0x02, 0x00, 0x01}"
  unfolding irq_id_def irq_sources_def find_cascade by simp

lemma irq_id_low: "(irq_id s OR (x AND 0xF0)) AND 0x0F = irq_id s"
proof -
  have "(irq_id s OR (x AND 0xF0)) AND 0x0F = (irq_id s AND 0x0F) OR (x AND (0xF0 AND 0x0F))"
    by (simp only: bit.conj_disj_distrib2 and.assoc)
  moreover have "irq_id s AND 0x0F = irq_id s" using irq_id_cases [of s] by auto
  ultimately show ?thesis by simp
qed

lemma serial_update_irq_ok: "serial_irq_ok (serial_update_irq s)"
  unfolding serial_update_irq_eq serial_irq_ok_def by (simp add: irq_id_low)

lemma serial_irq_ok_frame [simp]:
  "serial_irq_ok (s\<lparr>chr := c\<rparr>) = serial_irq_ok s" "serial_irq_ok (s\<lparr>modem_status_poll := p\<rparr>) = serial_irq_ok s"
  "serial_irq_ok (s\<lparr>poll_msl := q\<rparr>) = serial_irq_ok s" "serial_irq_ok (s\<lparr>lcr := x\<rparr>) = serial_irq_ok s"
  "serial_irq_ok (s\<lparr>mcr := x\<rparr>) = serial_irq_ok s" "serial_irq_ok (s\<lparr>scr := x\<rparr>) = serial_irq_ok s"
  "serial_irq_ok (s\<lparr>divider := d\<rparr>) = serial_irq_ok s"
  "serial_irq_ok (s\<lparr>char_transmit_time := t\<rparr>) = serial_irq_ok s"
  "serial_irq_ok (s\<lparr>last_break_enable := b\<rparr>) = serial_irq_ok s"
  "serial_irq_ok (s\<lparr>fifo_timeout_timer := ft\<rparr>) = serial_irq_ok s"
  "serial_irq_ok (s\<lparr>transmit_timer := ft\<rparr>) = serial_irq_ok s"
  by (simp_all add: serial_irq_ok_def)

section \<open>The invariant\<close>

text \<open>
  Between two operations the transmitter is idle: the transmit FIFO is empty, nothing is being
  retried, the transmit timer is not armed and "holding register empty" is shown; in FIFO mode a
  byte in the receive FIFO is shown as "data ready"; the trigger level is one of 1, 4, 8, 14 once
  the FIFO has been on. A UART clocked at 65535 Hz or more (the PC's
  has 115200) never divides by zero.
\<close>

definition serial_core :: "SerialState \<Rightarrow> bool" where
  "serial_core s \<longleftrightarrow>
     fifo_ok (recv_fifo s) \<and> fifo_ok (xmit_fifo s) \<and> fcount (xmit_fifo s) = 0 \<and> tsr_retry s \<le> 0
     \<and> transmit_timer s = None \<and> bit (lsr s) 5
     \<and> (bit (fcr s) 0 \<longrightarrow> fcount (recv_fifo s) > 0 \<longrightarrow> bit (lsr s) 0) \<and> 65535 \<le> baudbase s
     \<and> itl (recv_fifo s) \<le> 14"

definition serial_inv :: "SerialState \<Rightarrow> bool" where
  "serial_inv s \<longleftrightarrow> serial_core s \<and> serial_irq_ok s"

lemma serial_update_irq_frame [simp]:
  "recv_fifo (serial_update_irq s) = recv_fifo s" "xmit_fifo (serial_update_irq s) = xmit_fifo s"
  "tsr_retry (serial_update_irq s) = tsr_retry s" "transmit_timer (serial_update_irq s) = transmit_timer s"
  "lsr (serial_update_irq s) = lsr s" "fcr (serial_update_irq s) = fcr s"
  "baudbase (serial_update_irq s) = baudbase s" "chr (serial_update_irq s) = chr s"
  "mcr (serial_update_irq s) = mcr s" "lcr (serial_update_irq s) = lcr s" "thr (serial_update_irq s) = thr s"
  "rbr (serial_update_irq s) = rbr s" "poll_msl (serial_update_irq s) = poll_msl s"
  "msr (serial_update_irq s) = msr s" "divider (serial_update_irq s) = divider s"
  "char_transmit_time (serial_update_irq s) = char_transmit_time s" "tsr (serial_update_irq s) = tsr s"
  "timeout_ipending (serial_update_irq s) = timeout_ipending s"
  "thr_ipending (serial_update_irq s) = thr_ipending s" "ier (serial_update_irq s) = ier s"
  by (simp_all add: serial_update_irq_eq)

lemma serial_core_frame [simp]:
  "serial_core (serial_update_irq s) = serial_core s" "serial_core (s\<lparr>chr := c\<rparr>) = serial_core s"
  "serial_core (s\<lparr>modem_status_poll := p\<rparr>) = serial_core s" "serial_core (s\<lparr>poll_msl := q\<rparr>) = serial_core s"
  "serial_core (s\<lparr>lcr := x\<rparr>) = serial_core s" "serial_core (s\<lparr>mcr := x\<rparr>) = serial_core s"
  "serial_core (s\<lparr>scr := x\<rparr>) = serial_core s" "serial_core (s\<lparr>divider := d\<rparr>) = serial_core s"
  "serial_core (s\<lparr>char_transmit_time := t\<rparr>) = serial_core s"
  "serial_core (s\<lparr>last_break_enable := b\<rparr>) = serial_core s"
  "serial_core (s\<lparr>fifo_timeout_timer := ft\<rparr>) = serial_core s" "serial_core (s\<lparr>iir := x\<rparr>) = serial_core s"
  "serial_core (s\<lparr>thr_ipending := i\<rparr>) = serial_core s" "serial_core (s\<lparr>timeout_ipending := i\<rparr>) = serial_core s"
  "serial_core (s\<lparr>msr := x\<rparr>) = serial_core s" "serial_core (s\<lparr>ier := x\<rparr>) = serial_core s"
  "serial_core (s\<lparr>thr := x\<rparr>) = serial_core s" "serial_core (s\<lparr>tsr := x\<rparr>) = serial_core s"
  "serial_core (s\<lparr>rbr := x\<rparr>) = serial_core s" "serial_core (s\<lparr>last_xmit_ts := t\<rparr>) = serial_core s"
  by (simp_all add: serial_core_def)

lemma serial_update_irq_inv: "serial_core s \<Longrightarrow> serial_inv (serial_update_irq s)"
  by (simp add: serial_inv_def serial_update_irq_ok)

text \<open>The two FIFOs do not interfere, and the operations on them touch little else.\<close>

lemma recv_put_frame [simp]:
  "xmit_fifo (recv_put s b) = xmit_fifo s" "tsr_retry (recv_put s b) = tsr_retry s"
  "transmit_timer (recv_put s b) = transmit_timer s" "fcr (recv_put s b) = fcr s"
  "baudbase (recv_put s b) = baudbase s" "chr (recv_put s b) = chr s" "mcr (recv_put s b) = mcr s"
  "lcr (recv_put s b) = lcr s" "tsr (recv_put s b) = tsr s" "poll_msl (recv_put s b) = poll_msl s"
  "itl (recv_fifo (recv_put s b)) = itl (recv_fifo s)"
  "bit (lsr (recv_put s b)) n = (bit (lsr s) n \<or> (n = 1 \<and> fcount (recv_fifo s) \<ge> 16))"
  by (auto simp: fifo_ops bit_simps bit_u8 simp del: One_nat_def)

lemma recv_puts_frame [simp]:
  "xmit_fifo (foldl recv_put s bs) = xmit_fifo s" "tsr_retry (foldl recv_put s bs) = tsr_retry s"
  "transmit_timer (foldl recv_put s bs) = transmit_timer s" "fcr (foldl recv_put s bs) = fcr s"
  "baudbase (foldl recv_put s bs) = baudbase s" "chr (foldl recv_put s bs) = chr s"
  "mcr (foldl recv_put s bs) = mcr s" "lcr (foldl recv_put s bs) = lcr s"
  "tsr (foldl recv_put s bs) = tsr s" "poll_msl (foldl recv_put s bs) = poll_msl s"
  "itl (recv_fifo (foldl recv_put s bs)) = itl (recv_fifo s)"
  by (induction bs arbitrary: s) simp_all

lemma recv_puts_lsr: "n \<noteq> 1 \<Longrightarrow> bit (lsr (foldl recv_put s bs)) n = bit (lsr s) n"
  by (induction bs arbitrary: s) simp_all

lemma serial_receive1_inv: "serial_core s \<Longrightarrow> serial_inv (serial_receive1 e s bs)"
  unfolding serial_receive1_def Let_def
  by (rule serial_update_irq_inv)
     (auto simp: serial_core_def recvq.puts_invar recv_puts_lsr bit_simps bit_u8)

lemma serial_receive_break_inv: "serial_core s \<Longrightarrow> serial_inv (serial_receive_break s)"
  unfolding serial_receive_break_def Let_def
  by (rule serial_update_irq_inv) (auto simp: serial_core_def recv_put_ok bit_simps bit_u8)

lemma fifo_timeout_int_inv: "serial_inv s \<Longrightarrow> serial_inv (fifo_timeout_int s)"
  by (auto simp: fifo_timeout_int_def serial_inv_def serial_update_irq_ok)

lemma serial_update_msl_inv: "serial_inv s \<Longrightarrow> serial_inv (serial_update_msl e s)"
proof -
  assume s: "serial_inv s"
  have msr_id: "s\<lparr>modem_status_poll := None, msr := msr s\<rparr> = s\<lparr>modem_status_poll := None\<rparr>" by simp
  show ?thesis
    unfolding serial_update_msl_def Let_def
    using s by (auto simp: serial_inv_def serial_update_irq_ok msr_id split: option.splits)
qed

lemma serial_update_parameters_inv:
  "serial_inv s \<Longrightarrow> \<exists>t. serial_update_parameters s = Some t \<and> serial_inv t"
proof -
  assume s: "serial_inv s"
  have "baudbase s sdiv uint (divider s) \<noteq> 0" if "divider s \<noteq> 0"
  proof -
    have d: "0 < uint (divider s)" "uint (divider s) \<le> 65535"
      using that uint_lt2p [of "divider s"] by (simp_all add: word_neq_0_conv word_less_def)
    moreover have "65535 \<le> baudbase s" using s by (simp add: serial_inv_def serial_core_def)
    ultimately have "1 \<le> baudbase s div uint (divider s)"
      using zdiv_mono1 [of "uint (divider s)" "baudbase s" "uint (divider s)"] by simp
    then show ?thesis
      using d that \<open>65535 \<le> baudbase s\<close> by (simp add: signed_divide_int_def)
  qed
  then show ?thesis
    using s by (auto simp: serial_update_parameters_def Let_def serial_inv_def)
qed

text \<open>
  A byte written to the holding register: it is the only one in the transmit FIFO, and it comes
  out at once.
\<close>

definition fifo_one :: "SerialFIFO \<Rightarrow> u8 \<Rightarrow> bool" where
  "fifo_one f c \<longleftrightarrow> fifo_ok f \<and> fcount f = 1 \<and> fdata f ! tail f = c"

lemma xmit_put_one:
  assumes "fifo_ok (xmit_fifo s)" "fcount (xmit_fifo s) = 0"
  shows "fifo_one (xmit_fifo (fifo_put s XMIT_FIFO c)) c"
proof -
  let ?f = "xmit_fifo s"
  have t: "length (fdata ?f) = 16" "tail ?f < 16" "head ?f = tail ?f"
    using assms by (simp_all add: fifo_ok_def)
  have "xmit_fifo (fifo_put s XMIT_FIFO c)
      = ?f\<lparr>fdata := (fdata ?f)[tail ?f := c], head := (if Suc (tail ?f) = 16 then 0 else Suc (tail ?f)), fcount := 1\<rparr>"
    using assms(2) t(3) by (simp add: fifo_ops)
  then show ?thesis
    using t unfolding Suc_mod_wrap [OF t(2)] by (simp add: fifo_one_def fifo_ok_def)
qed

lemma xmit_get_one:
  assumes "fifo_one (xmit_fifo s) c"
  shows "\<exists>f. fifo_get s XMIT_FIFO = (c, s\<lparr>xmit_fifo := f\<rparr>) \<and> fifo_ok f \<and> fcount f = 0"
proof -
  let ?f = "xmit_fifo s"
  have o: "length (fdata ?f) = 16" "tail ?f < 16" "head ?f = Suc (tail ?f) mod 16" "fcount ?f = 1"
    "fdata ?f ! tail ?f = c"
    using assms by (simp_all add: fifo_one_def fifo_ok_def)
  let ?g = "?f\<lparr>tail := (if Suc (tail ?f) = 16 then 0 else Suc (tail ?f)), fcount := 0\<rparr>"
  have "fifo_get s XMIT_FIFO = (c, s\<lparr>xmit_fifo := ?g\<rparr>)"
    using o(4,5) by (simp add: fifo_ops)
  moreover have "fifo_ok ?g"
    using o unfolding Suc_mod_wrap [OF o(2)] by (simp add: fifo_ok_def)
  ultimately show ?thesis by (intro exI [of _ ?g]) simp
qed

lemma xmit_put_frame [simp]:
  "recv_fifo (fifo_put s XMIT_FIFO c) = recv_fifo s" "tsr_retry (fifo_put s XMIT_FIFO c) = tsr_retry s"
  "transmit_timer (fifo_put s XMIT_FIFO c) = transmit_timer s" "fcr (fifo_put s XMIT_FIFO c) = fcr s"
  "baudbase (fifo_put s XMIT_FIFO c) = baudbase s" "lsr (fifo_put s XMIT_FIFO c) = lsr s"
  "chr (fifo_put s XMIT_FIFO c) = chr s" "mcr (fifo_put s XMIT_FIFO c) = mcr s"
  "thr (fifo_put s XMIT_FIFO c) = thr s" "poll_msl (fifo_put s XMIT_FIFO c) = poll_msl s"
  by (simp_all add: fifo_ops)

text \<open>The transmitter with one byte loaded, and what \<open>serial_xmit\<close> does from there.\<close>

definition loaded :: "SerialState \<Rightarrow> u8 \<Rightarrow> bool" where
  "loaded s c \<longleftrightarrow> tsr_retry s \<le> 0
     \<and> (if bit (fcr s) 0 then fifo_one (xmit_fifo s) c
        else thr s = c \<and> fifo_ok (xmit_fifo s) \<and> fcount (xmit_fifo s) = 0)"

definition shifted :: "SerialState \<Rightarrow> u8 \<Rightarrow> SerialFIFO \<Rightarrow> SerialState" where
  "shifted s c f = s\<lparr>xmit_fifo := f, tsr := c, lsr := lsr s OR 0x20\<rparr>"

lemma xmit_done_eq:
  assumes "bit (lsr s) 5"
  shows "serial_xmit_done e s = serial_update_irq (s\<lparr>last_xmit_ts := now e, lsr := lsr s OR 0x40, thr_ipending := 1\<rparr>)"
proof -
  have "lsr s AND 0x20 \<noteq> 0" using assms by (simp add: and_bits_u8)
  then show ?thesis by (simp add: serial_xmit_done_def Let_def)
qed

lemma receive1_lsr: "bit (lsr s) 5 \<Longrightarrow> bit (lsr (serial_receive1 e s bs)) 5"
  by (simp add: serial_receive1_def Let_def recv_puts_lsr bit_simps)

lemma xmit_load:
  assumes "loaded s c"
  shows "\<exists>f. fifo_ok f \<and> fcount f = 0 \<and> serial_xmit_load s = shifted s c f"
proof (cases "bit (fcr s) 0")
  case True
  then have "fifo_one (xmit_fifo s) c" using assms by (simp add: loaded_def)
  then obtain f where "fifo_get s XMIT_FIFO = (c, s\<lparr>xmit_fifo := f\<rparr>)" "fifo_ok f" "fcount f = 0"
    using xmit_get_one by blast
  with True assms show ?thesis
    by (intro exI [of _ f]) (simp add: serial_xmit_load_def loaded_def and_bits_u8 shifted_def)
next
  case False
  with assms show ?thesis
    by (intro exI [of _ "xmit_fifo s"]) (simp add: serial_xmit_load_def loaded_def and_bits_u8 shifted_def)
qed

lemma serial_xmit_loaded:
  assumes "loaded s c"
  shows "\<exists>f t. fifo_ok f \<and> fcount f = 0 \<and> t = shifted s c f \<and>
    serial_xmit e s = serial_xmit_done e
      (if bit (mcr s) 4 then serial_receive1 e t [c]
       else t\<lparr>chr := chr s @ [ChrWrite c (write_ok e)],
              tsr_retry := (if write_ok e then 0 else if poll_msl s < 0 then -1 else tsr_retry s)\<rparr>)"
proof -
  obtain f where f: "fifo_ok f" "fcount f = 0" and sh: "serial_xmit_load s = shifted s c f"
    using xmit_load [OF assms] by blast
  let ?t = "shifted s c f"
  have t: "mcr ?t = mcr s" "tsr ?t = c" "chr ?t = chr s" "tsr_retry ?t = tsr_retry s" "poll_msl ?t = poll_msl s"
    by (simp_all add: shifted_def)
  have r: "\<not> 0 < tsr_retry s" using assms by (simp add: loaded_def)
  have id: "x\<lparr>chr := l, tsr_retry := tsr_retry s\<rparr> = x\<lparr>chr := l\<rparr>" if "tsr_retry x = tsr_retry s" for x l
    using that by (cases x) simp
  have m: "mcr s AND 0x10 \<noteq> 0 \<longleftrightarrow> bit (mcr s) 4" by (simp only: and_bits_u8 not_not)
  have "serial_xmit e s = serial_xmit_done e
      (if bit (mcr s) 4 then serial_receive1 e ?t [c]
       else ?t\<lparr>chr := chr s @ [ChrWrite c (write_ok e)],
              tsr_retry := (if write_ok e then 0 else if poll_msl s < 0 then -1 else tsr_retry s)\<rparr>)"
    unfolding serial_xmit_def sh Let_def t m
    by (cases "bit (mcr s) 4"; cases "write_ok e"; cases "poll_msl s < 0")
       (simp_all add: t r id [OF t(4)])
  with f show ?thesis by blast
qed

lemma xmit_done_inv: "serial_core s \<Longrightarrow> serial_inv (serial_xmit_done e s)"
proof -
  assume s: "serial_core s"
  then have "bit (lsr s) 5" by (simp add: serial_core_def)
  note xmit_done_eq [OF this]
  moreover have "serial_core (s\<lparr>last_xmit_ts := now e, lsr := lsr s OR 0x40, thr_ipending := 1\<rparr>)"
    using s by (simp add: serial_core_def bit_simps bit_u8)
  ultimately show ?thesis by (simp add: serial_update_irq_inv)
qed

lemma xmit_done_frame:
  assumes "bit (lsr s) 5"
  shows "recv_fifo (serial_xmit_done e s) = recv_fifo s" "chr (serial_xmit_done e s) = chr s"
    "fcr (serial_xmit_done e s) = fcr s" "mcr (serial_xmit_done e s) = mcr s"
    "lcr (serial_xmit_done e s) = lcr s" "lsr (serial_xmit_done e s) = lsr s OR 0x40"
    "thr_ipending (serial_xmit_done e s) = 1"
  by (simp_all add: xmit_done_eq [OF assms])

lemma receive1_frame [simp]:
  "chr (serial_receive1 e s bs) = chr s" "fcr (serial_receive1 e s bs) = fcr s"
  "mcr (serial_receive1 e s bs) = mcr s" "lcr (serial_receive1 e s bs) = lcr s"
  by (simp_all add: serial_receive1_def Let_def)

lemma receive1_bytes:
  "bit (fcr s) 0 \<Longrightarrow> recv_ok s \<Longrightarrow> recv_bytes (serial_receive1 e s bs) = take 16 (recv_bytes s @ bs)"
  by (simp add: serial_receive1_def Let_def and_bits_u8 recvq.puts_contents)

text \<open>The state in which a write to the holding register calls \<open>serial_xmit\<close>.\<close>

definition thr_loaded :: "SerialState \<Rightarrow> u8 \<Rightarrow> SerialState" where
  "thr_loaded s c =
     (if bit (fcr s) 0 then
        serial_update_irq ((fifo_put (s\<lparr>thr := c\<rparr>) XMIT_FIFO c)
          \<lparr>thr_ipending := 0, lsr := lsr s AND NOT 0x40 AND NOT 0x20\<rparr>)
      else serial_update_irq (s\<lparr>thr := c, thr_ipending := 0, lsr := lsr s AND NOT 0x20\<rparr>))"

lemma serial_write_thr_eq: "serial_write_thr e s v = serial_xmit e (thr_loaded s (ucast v))"
  by (simp add: serial_write_thr_def Let_def thr_loaded_def and_bits_u8)

lemma thr_loaded_frame [simp]:
  "recv_fifo (thr_loaded s c) = recv_fifo s" "tsr_retry (thr_loaded s c) = tsr_retry s"
  "transmit_timer (thr_loaded s c) = transmit_timer s" "fcr (thr_loaded s c) = fcr s"
  "baudbase (thr_loaded s c) = baudbase s" "chr (thr_loaded s c) = chr s" "mcr (thr_loaded s c) = mcr s"
  "poll_msl (thr_loaded s c) = poll_msl s" "lcr (thr_loaded s c) = lcr s"
  by (simp_all add: thr_loaded_def fifo_ops)

lemma thr_loaded_dr: "bit (lsr (thr_loaded s c)) 0 = bit (lsr s) 0"
  by (simp add: thr_loaded_def bit_simps bit_u8)

lemma thr_loaded_loaded: "serial_core s \<Longrightarrow> loaded (thr_loaded s c) c"
  using xmit_put_one [of "s\<lparr>thr := c\<rparr>" c]
  by (simp add: loaded_def serial_core_def thr_loaded_def)

lemma shifted_core:
  assumes "serial_core s" "fifo_ok f" "fcount f = 0"
  shows "serial_core (shifted (thr_loaded s c) c f)"
  using assms thr_loaded_dr [of s c] by (simp add: serial_core_def shifted_def bit_simps bit_u8)

lemma serial_write_thr_spec:
  assumes s: "serial_core s" and t: "t = serial_write_thr e s v"
  shows "serial_inv t \<and> fcr t = fcr s \<and> mcr t = mcr s \<and> lcr t = lcr s \<and> bit (lsr t) 6 \<and> thr_ipending t = 1
    \<and> (if bit (mcr s) 4 then chr t = chr s \<and> (bit (fcr s) 0 \<longrightarrow> recv_bytes t = take 16 (recv_bytes s @ [ucast v]))
       else chr t = chr s @ [ChrWrite (ucast v) (write_ok e)] \<and> recv_fifo t = recv_fifo s)"
proof -
  let ?c = "ucast v :: u8"
  let ?u = "thr_loaded s ?c"
  obtain f where f: "fifo_ok f" "fcount f = 0" and x: "serial_xmit e ?u = serial_xmit_done e
      (if bit (mcr s) 4 then serial_receive1 e (shifted ?u ?c f) [?c]
       else (shifted ?u ?c f)\<lparr>chr := chr s @ [ChrWrite ?c (write_ok e)],
              tsr_retry := (if write_ok e then 0 else if poll_msl s < 0 then -1 else tsr_retry s)\<rparr>)"
    using serial_xmit_loaded [OF thr_loaded_loaded [OF s], of ?c e] by auto
  have core: "serial_core (shifted ?u ?c f)" using s f by (rule shifted_core)
  have fr: "fcr (shifted ?u ?c f) = fcr s" "mcr (shifted ?u ?c f) = mcr s" "lcr (shifted ?u ?c f) = lcr s"
    "recv_fifo (shifted ?u ?c f) = recv_fifo s" "chr (shifted ?u ?c f) = chr s"
    by (simp_all add: shifted_def)
  show ?thesis
  proof (cases "bit (mcr s) 4")
    case True
    let ?r = "serial_receive1 e (shifted ?u ?c f) [?c]"
    have r: "serial_core ?r" using serial_receive1_inv [OF core] by (simp add: serial_inv_def)
    then have "bit (lsr ?r) 5" by (simp add: serial_core_def)
    note d = xmit_done_frame [OF this, of e]
    have "recv_bytes ?r = take 16 (recv_bytes s @ [?c])" if "bit (fcr s) 0"
      using receive1_bytes [of "shifted ?u ?c f" e "[?c]"] s that fr by (simp add: serial_core_def)
    then show ?thesis
      unfolding t serial_write_thr_eq x
      using True d fr xmit_done_inv [OF r, of e] by (simp add: bit_simps bit_u8)
  next
    case False
    let ?r = "(shifted ?u ?c f)\<lparr>chr := chr s @ [ChrWrite ?c (write_ok e)],
              tsr_retry := (if write_ok e then 0 else if poll_msl s < 0 then -1 else tsr_retry s)\<rparr>"
    have r: "serial_core ?r" using core s by (simp add: serial_core_def)
    then have "bit (lsr ?r) 5" by (simp add: serial_core_def)
    note d = xmit_done_frame [OF this, of e]
    show ?thesis
      unfolding t serial_write_thr_eq x
      using False d fr xmit_done_inv [OF r, of e] by (simp add: bit_simps bit_u8)
  qed
qed

lemma bit5_masks: "bit (x AND NOT (0x11::u8)) n = (bit x n \<and> n \<noteq> 0 \<and> n \<noteq> 4)"
  "bit (x AND NOT (0x12::u8)) n = (bit x n \<and> n \<noteq> 1 \<and> n \<noteq> 4)"
proof -
  have "NOT (0x11::u8) = NOT 0x01 AND NOT 0x10" "NOT (0x12::u8) = NOT 0x02 AND NOT 0x10" by simp_all
  then show "bit (x AND NOT (0x11::u8)) n = (bit x n \<and> n \<noteq> 0 \<and> n \<noteq> 4)"
    "bit (x AND NOT (0x12::u8)) n = (bit x n \<and> n \<noteq> 1 \<and> n \<noteq> 4)"
    by (auto simp only: bits bit_u8 possible_bit_word dest: bit_imp_le_length)
qed

lemma serial_write_ier_inv: "serial_inv s \<Longrightarrow> serial_inv (serial_write_ier e s v)"
proof -
  assume s: "serial_inv s"
  let ?s1 = "s\<lparr>ier := ucast (v AND 0x0f)\<rparr>"
  let ?s2 = "if poll_msl ?s1 \<ge> 0 then
       (if ier ?s1 AND 0x08 \<noteq> 0 then serial_update_msl e (?s1\<lparr>poll_msl := 1\<rparr>)
        else ?s1\<lparr>modem_status_poll := None, poll_msl := 0\<rparr>) else ?s1"
  have msl: "serial_core x \<Longrightarrow> serial_core (serial_update_msl e x)" for x
    unfolding serial_update_msl_def Let_def by (simp split: option.splits)
  have 2: "serial_core ?s2" using s by (simp add: serial_inv_def msl)
  then have "lsr ?s2 AND 0x20 \<noteq> 0" by (simp add: serial_core_def and_bits_u8)
  then have "serial_write_ier e s v = serial_update_irq (?s2\<lparr>thr_ipending := 1\<rparr>)"
    unfolding serial_write_ier_def Let_def by (rule if_P)
  with 2 show ?thesis by (simp only: serial_update_irq_inv serial_core_frame)
qed

lemma fifo_clear_frame [simp]:
  "lsr (fifo_clear s w) = lsr s" "fcr (fifo_clear s w) = fcr s" "tsr_retry (fifo_clear s w) = tsr_retry s"
  "transmit_timer (fifo_clear s w) = transmit_timer s" "baudbase (fifo_clear s w) = baudbase s"
  "iir (fifo_clear s w) = iir s"
  by (cases w; simp add: fifo_ops)+

lemma fifo_clear_core: "serial_core s \<Longrightarrow> serial_core (fifo_clear s w)"
  by (cases w) (simp_all add: serial_core_def fifo_ops fifo_ok_def)

lemma fifo_clear_recv: "fcount (recv_fifo (fifo_clear s RECV_FIFO)) = 0"
  "recv_fifo (fifo_clear s XMIT_FIFO) = recv_fifo s"
  by (simp_all add: fifo_ops)

text \<open>
  The only way a write of the FCR could break "a byte in the FIFO is shown as data ready" is by
  turning the FIFOs on, and that empties them.
\<close>

lemma fcr_cleared_core: "serial_core s \<Longrightarrow> serial_core (fcr_cleared s val)"
  by (simp add: fcr_cleared_def Let_def fifo_clear_core)

lemma fcr_cleared_frame [simp]: "lsr (fcr_cleared s val) = lsr s" "fcr (fcr_cleared s val) = fcr s"
  by (simp_all add: fcr_cleared_def Let_def)

lemma fcr_cleared_recv: "bit val 1 \<Longrightarrow> fcount (recv_fifo (fcr_cleared s val)) = 0"
  by (simp add: fcr_cleared_def Let_def and_bits_u8 fifo_clear_recv)

lemma serial_core_fcr:
  assumes "serial_core s" "bit v 0 \<longrightarrow> bit (fcr s) 0 \<or> fcount (recv_fifo s) = 0"
  shows "serial_core (s\<lparr>fcr := v\<rparr>)"
  using assms by (auto simp: serial_core_def)

lemma fcr_flush:
  fixes v w f :: u8
  assumes "v = (if (w XOR f) AND 0x01 \<noteq> 0 then w OR 0x04 OR 0x02 else w)" "bit v 0" "\<not> bit f 0"
  shows "bit v 1"
proof -
  have x: "(w XOR f) AND 0x01 \<noteq> 0 \<longleftrightarrow> bit w 0"
    using assms(3) by (simp add: and_bits_u8 bit_xor_iff)
  have "bit (w OR 0x04 OR 0x02) 1"
    by (simp only: bit_or_iff bit_u8) simp
  with assms(1,2) show ?thesis unfolding x by (cases "bit w 0") simp_all
qed

lemma serial_write_fcr_inv: "serial_inv s \<Longrightarrow> serial_inv (serial_write_fcr s v)"
proof -
  assume s: "serial_inv s"
  let ?v0 = "ucast (v AND 0xFF) :: u8"
  let ?v = "if (?v0 XOR fcr s) AND 0x01 \<noteq> 0 then ?v0 OR 0x04 OR 0x02 else ?v0"
  let ?c = "fcr_cleared s ?v"
  have c: "serial_core ?c" using s by (simp add: serial_inv_def fcr_cleared_core)
  have v: "bit ?v 1" if "bit ?v 0" "\<not> bit (fcr s) 0"
    using that fcr_flush [OF refl] by blast
  have "bit (?v AND 0xC9) 0 \<longrightarrow> bit (fcr ?c) 0 \<or> fcount (recv_fifo ?c) = 0"
  proof
    assume "bit (?v AND 0xC9) 0"
    then have "bit ?v 0" by (simp only: bit_and_iff)
    with v fcr_cleared_recv [of ?v s] show "bit (fcr ?c) 0 \<or> fcount (recv_fifo ?c) = 0"
      by (cases "bit (fcr s) 0") simp_all
  qed
  note core = serial_core_fcr [OF c this]
  have "serial_core (?c\<lparr>iir := i, recv_fifo := (recv_fifo ?c)\<lparr>itl := n\<rparr>, fcr := ?v AND 0xC9\<rparr>)"
    if "n \<le> 14" for i n
    using core that by (simp add: serial_core_def fifo_ok_def)
  moreover have "serial_core (?c\<lparr>iir := i, fcr := ?v AND 0xC9\<rparr>)" for i
    using core by (simp add: serial_core_def)
  ultimately show ?thesis
    unfolding serial_write_fcr_def Let_def using s
    by (cases "?v AND 0x01 = 0") (simp_all add: serial_update_irq_inv del: One_nat_def)
qed

lemma serial_write_lcr_inv: "serial_inv s \<Longrightarrow> \<exists>t. serial_write_lcr s v = Some t \<and> serial_inv t"
proof -
  assume "serial_inv s"
  then have "serial_inv (s\<lparr>lcr := ucast v\<rparr>)" by (simp add: serial_inv_def)
  from serial_update_parameters_inv [OF this] show ?thesis
    by (auto simp: serial_write_lcr_def Let_def serial_inv_def)
qed

lemma serial_write_mcr_inv: "serial_inv s \<Longrightarrow> serial_inv (serial_write_mcr e s v)"
  unfolding serial_write_mcr_def Let_def by (simp add: serial_inv_def)

lemma serial_ioport_write_inv:
  assumes "serial_inv s"
  shows "\<exists>t. serial_ioport_write e s a v = Some t \<and> serial_inv t"
proof -
  have d: "serial_inv (s\<lparr>divider := d\<rparr>)" "serial_inv (s\<lparr>scr := x\<rparr>)" for d x
    using assms by (simp_all add: serial_inv_def)
  have "serial_inv (serial_write_thr e s v)"
    using assms serial_write_thr_spec [OF _ refl] by (simp add: serial_inv_def)
  then show ?thesis
    unfolding serial_ioport_write_def Let_def
    using assms by (simp add: serial_update_parameters_inv d serial_write_ier_inv serial_write_fcr_inv
        serial_write_lcr_inv serial_write_mcr_inv)
qed

lemma recv_get_frame [simp]:
  "xmit_fifo (snd (recv_get s)) = xmit_fifo s" "tsr_retry (snd (recv_get s)) = tsr_retry s"
  "transmit_timer (snd (recv_get s)) = transmit_timer s" "fcr (snd (recv_get s)) = fcr s"
  "baudbase (snd (recv_get s)) = baudbase s" "lsr (snd (recv_get s)) = lsr s"
  "mcr (snd (recv_get s)) = mcr s" "chr (snd (recv_get s)) = chr s" "lcr (snd (recv_get s)) = lcr s"
  "itl (recv_fifo (snd (recv_get s))) = itl (recv_fifo s)"
  by (simp_all add: fifo_ops)

text \<open>What a read of the receive buffer leaves, without the interrupt update and the backend.\<close>

definition rbr_taken :: "env \<Rightarrow> SerialState \<Rightarrow> SerialState" where
  "rbr_taken e s =
     (if bit (fcr s) 0 then
        (let t = snd (recv_get s);
             t = (if fcount (recv_fifo t) = 0 then t\<lparr>lsr := lsr t AND NOT 0x11\<rparr>
                  else t\<lparr>fifo_timeout_timer := Some (now e + char_transmit_time t * 4)\<rparr>)
         in t\<lparr>timeout_ipending := 0\<rparr>)
      else s\<lparr>lsr := lsr s AND NOT 0x11\<rparr>)"

lemma serial_read_rbr_eq:
  "serial_read_rbr e s =
     (ucast (if bit (fcr s) 0 then fst (recv_get s) else rbr s),
      let t = serial_update_irq (rbr_taken e s)
      in if bit (mcr t) 4 then t else t\<lparr>chr := chr t @ [ChrAcceptInput]\<rparr>)"
  by (cases "recv_get s") (simp add: serial_read_rbr_def rbr_taken_def Let_def and_bits_u8)

lemma rbr_taken_core: "serial_core s \<Longrightarrow> serial_core (rbr_taken e s)"
proof -
  assume s: "serial_core s"
  let ?t = "snd (recv_get s)"
  have t: "serial_core ?t"
  proof -
    have "fcount (recv_fifo ?t) > 0 \<longrightarrow> fcount (recv_fifo s) > 0" by (simp add: fifo_ops)
    then show ?thesis using s recv_get_ok [of s] by (auto simp: serial_core_def)
  qed
  have "serial_core (?t\<lparr>lsr := lsr ?t AND NOT 0x11\<rparr>)" if "fcount (recv_fifo ?t) = 0"
    unfolding serial_core_def using t that by (simp add: serial_core_def bit5_masks [simplified] del: recv_get_frame)
  moreover have "serial_core (s\<lparr>lsr := lsr s AND NOT 0x11\<rparr>)" if "\<not> bit (fcr s) 0"
    unfolding serial_core_def using s that by (simp add: serial_core_def bit5_masks [simplified])
  ultimately show ?thesis
    unfolding rbr_taken_def Let_def
    using t by (cases "fcount (recv_fifo ?t) = 0"; cases "bit (fcr s) 0") (simp_all del: recv_get_frame)
qed

lemma serial_ioport_read_inv: "serial_inv s \<Longrightarrow> serial_inv (snd (serial_ioport_read e s a))"
proof -
  assume s: "serial_inv s"
  have 1: "serial_inv (snd (serial_read_rbr e s))"
    using serial_update_irq_inv [OF rbr_taken_core, of s e] s
    by (simp add: serial_read_rbr_eq Let_def serial_inv_def)
  have 2: "serial_inv (snd (serial_read_iir s))"
    using s by (simp add: serial_read_iir_def Let_def serial_inv_def serial_update_irq_ok)
  have "serial_core (s\<lparr>lsr := lsr s AND NOT 0x12\<rparr>)"
    unfolding serial_core_def using s by (simp add: serial_inv_def serial_core_def bit5_masks [simplified])
  then have 3: "serial_inv (snd (serial_read_lsr s))"
    using s serial_update_irq_inv by (simp add: serial_read_lsr_def)
  have 4: "serial_inv (snd (serial_read_msr e s))"
    using s serial_update_msl_inv [OF s, of e]
    by (simp add: serial_read_msr_def Let_def serial_inv_def serial_update_irq_ok)
  show ?thesis
    unfolding serial_ioport_read_def Let_def using 1 2 3 4 s by simp
qed

lemma serial_reset_inv:
  assumes "65535 \<le> baudbase s" "transmit_timer s = None" "itl (recv_fifo s) \<le> 14"
  shows "serial_inv (serial_reset e s)"
proof -
  have "serial_core (serial_reset e s)"
    using assms by (simp add: serial_reset_def Let_def serial_core_def fifo_ops fifo_ok_def bit_simps)
  moreover have "irq_id (serial_reset e s) = 1"
    unfolding irq_id_eq by (simp add: serial_reset_def Let_def fifo_ops)
  then have "serial_irq_ok (serial_reset e s)"
    unfolding serial_irq_ok_def by (simp add: serial_reset_def Let_def fifo_ops)
  ultimately show ?thesis by (simp add: serial_inv_def)
qed

text \<open>
  Everything that can happen to the UART, each with the environment it happens in: the guest's
  accesses, bytes and breaks from the backend, timers that are armed and expire, a machine reset.
\<close>

datatype serial_input =
    SRead u32 | SWrite u32 u32 | SMMRead u64 | SMMWrite u64 u32
  | SReceive u8 "u8 list" | SEvent int | STimeout | SXmitTimer | SPollTimer | SReset

fun serial_step :: "SerialState \<Rightarrow> env \<times> serial_input \<Rightarrow> string + SerialState" where
  "serial_step s (e, SRead a) = Inr (snd (serial_ioport_read e s a))"
| "serial_step s (e, SWrite a v) =
     (case serial_ioport_write e s a v of None \<Rightarrow> Inl ''division by zero'' | Some t \<Rightarrow> Inr t)"
| "serial_step s (e, SMMRead a) = Inr (snd (serial_mm_readb e s a))"
| "serial_step s (e, SMMWrite a v) =
     (case serial_mm_writeb e s a v of None \<Rightarrow> Inl ''division by zero'' | Some t \<Rightarrow> Inr t)"
| "serial_step s (e, SReceive b bs) = Inr (serial_receive1 e s (b # bs))"
| "serial_step s (e, SEvent n) = Inr (serial_event s n)"
| "serial_step s (e, STimeout) =
     Inr (if fifo_timeout_timer s = None then s else fifo_timeout_int (s\<lparr>fifo_timeout_timer := None\<rparr>))"
| "serial_step s (e, SXmitTimer) =
     Inr (if transmit_timer s = None then s else serial_xmit e (s\<lparr>transmit_timer := None\<rparr>))"
| "serial_step s (e, SPollTimer) =
     Inr (if modem_status_poll s = None then s else serial_update_msl e (s\<lparr>modem_status_poll := None\<rparr>))"
| "serial_step s (e, SReset) = Inr (serial_reset e s)"

lemma serial_step_inv: "serial_inv s \<Longrightarrow> \<exists>t. serial_step s ei = Inr t \<and> serial_inv t"
proof -
  assume s: "serial_inv s"
  have f: "serial_inv (s\<lparr>fifo_timeout_timer := x\<rparr>)" "serial_inv (s\<lparr>modem_status_poll := x\<rparr>)" for x
    using s by (simp_all add: serial_inv_def)
  have c: "serial_core s" "transmit_timer s = None" "65535 \<le> baudbase s" "itl (recv_fifo s) \<le> 14"
    using s by (simp_all add: serial_inv_def serial_core_def)
  obtain e i where ei: "ei = (e, i)" by fastforce
  show ?thesis
  proof (cases i)
    case (SWrite a v)
    with serial_ioport_write_inv [OF s, of e a v] ei show ?thesis by auto
  next
    case (SMMWrite a v)
    with serial_ioport_write_inv [OF s, of e "mm_addr s a" "v AND 0xFF"] ei show ?thesis
      by (auto simp: serial_mm_writeb_def)
  qed (use s f c ei in \<open>simp_all add: serial_ioport_read_inv serial_mm_readb_def serial_receive1_inv
      serial_event_def serial_receive_break_inv fifo_timeout_int_inv serial_update_msl_inv serial_reset_inv\<close>)
qed

interpretation serial_sys: safe_system serial_step serial_inv
proof
  fix s e t
  assume "serial_inv s" "serial_step s e = Inr t"
  then show "serial_inv t" using serial_step_inv [of s e] by auto
next
  fix s e
  assume "serial_inv s"
  then show "\<exists>t. serial_step s e = Inr t" using serial_step_inv [of s e] by auto
qed

section \<open>Properties\<close>

lemma power_on_inv: "serial_inv (serial_reset e serial_isa_initfn)"
  by (rule serial_reset_inv) (simp_all add: serial_isa_initfn_def serial_init_def fifo_zero_def)

text \<open>
  C3: the interrupt output of the PC's UART is always right. From power-on, whatever accesses,
  received data, breaks, timers and resets come, in whatever environment, the emulator never faults,
  and after each of them the IIR shows exactly the highest-priority source that is enabled and
  pending, the interrupt line is high exactly when there is one, and the transmitter is idle.
\<close>

theorem serial_irq_faithful:
  "\<exists>t. run_err serial_step (serial_reset e serial_isa_initfn) es = Inr t
     \<and> iir t AND 0x0F = irq_id t \<and> line_level (serial_irq t) = of_bool (irq_id t \<noteq> 0x01)
     \<and> bit (lsr t) 5 \<and> transmit_timer t = None \<and> fcount (xmit_fifo t) = 0"
  using serial_sys.safe_run [OF power_on_inv, of e es]
  by (auto simp: serial_inv_def serial_core_def serial_irq_ok_def)

lemma serial_write_0:
  "\<not> bit (lcr s) 7 \<Longrightarrow> serial_ioport_write e s 0 v = Some (serial_write_thr e s v)"
  by (simp add: serial_ioport_write_def and_bits_u8)

abbreviation thr_writes :: "(env \<times> u32) list \<Rightarrow> (env \<times> serial_input) list" where
  "thr_writes \<equiv> map (\<lambda>(e, v). (e, SWrite 0 v))"

lemma thr_writes_run:
  assumes "serial_inv s" "\<not> bit (lcr s) 7"
  shows "\<exists>t. run_err serial_step s (thr_writes evs) = Inr t \<and> serial_inv t \<and> fcr t = fcr s \<and> mcr t = mcr s
    \<and> lcr t = lcr s
    \<and> (if bit (mcr s) 4 then chr t = chr s \<and>
         (bit (fcr s) 0 \<longrightarrow> recv_bytes t = take 16 (recv_bytes s @ map (\<lambda>(e, v). ucast v) evs))
       else chr t = chr s @ map (\<lambda>(e, v). ChrWrite (ucast v) (write_ok e)) evs \<and> recv_fifo t = recv_fifo s)"
  using assms
proof (induction evs arbitrary: s)
  case Nil
  have "length (recv_bytes s) \<le> 16" using Nil by (simp add: serial_inv_def serial_core_def fifo_ok_def)
  then show ?case using Nil by simp
next
  case (Cons ev evs)
  obtain e v where ev: "ev = (e, v)" by fastforce
  let ?u = "serial_write_thr e s v"
  have u: "serial_inv ?u" "fcr ?u = fcr s" "mcr ?u = mcr s" "lcr ?u = lcr s"
    "if bit (mcr s) 4 then chr ?u = chr s \<and> (bit (fcr s) 0 \<longrightarrow> recv_bytes ?u = take 16 (recv_bytes s @ [ucast v]))
       else chr ?u = chr s @ [ChrWrite (ucast v) (write_ok e)] \<and> recv_fifo ?u = recv_fifo s"
    using serial_write_thr_spec [OF _ refl, of s e v] Cons.prems(1) by (simp_all add: serial_inv_def)
  have run: "run_err serial_step s (thr_writes (ev # evs)) = run_err serial_step ?u (thr_writes evs)"
    using Cons.prems(2) by (simp add: ev serial_write_0)
  have tk: "take 16 (take 16 (xs @ [x]) @ ys) = take 16 (xs @ x # ys)" for xs ys and x :: u8
    by (simp only: take_append [of 16] take_take min.idem) (simp add: min_def take_Cons')
  obtain t where t: "run_err serial_step ?u (thr_writes evs) = Inr t" "serial_inv t" "fcr t = fcr s"
    "mcr t = mcr s" "lcr t = lcr s"
    "if bit (mcr s) 4 then chr t = chr ?u \<and>
         (bit (fcr s) 0 \<longrightarrow> recv_bytes t = take 16 (recv_bytes ?u @ map (\<lambda>(e, v). ucast v) evs))
       else chr t = chr ?u @ map (\<lambda>(e, v). ChrWrite (ucast v) (write_ok e)) evs \<and> recv_fifo t = recv_fifo ?u"
    using Cons.IH [of ?u] Cons.prems(2) u(1-4) by auto
  have "if bit (mcr s) 4 then chr t = chr s \<and>
         (bit (fcr s) 0 \<longrightarrow> recv_bytes t = take 16 (recv_bytes s @ map (\<lambda>(e, v). ucast v) (ev # evs)))
       else chr t = chr s @ map (\<lambda>(e, v). ChrWrite (ucast v) (write_ok e)) (ev # evs) \<and> recv_fifo t = recv_fifo s"
    using t(6) u(5) by (cases "bit (mcr s) 4") (simp_all add: ev tk del: take_append)
  with t(1-5) show ?case unfolding run by blast
qed


definition env0 :: env where "env0 = \<lparr>now = 0, write_ok = True, tiocm = None, junk = 0\<rparr>"


text \<open>
  A byte the back end refuses is lost, contrary to the comment in \<open>serial_xmit\<close> and to
  \<open>MAX_XMIT_RETRY\<close>: \<open>tsr_retry\<close> never becomes positive, so the byte is offered once and no timer is
  armed to offer it again.
\<close>

lemma serial_no_retry:
  assumes "serial_inv s" "\<not> bit (lcr s) 7" "\<not> bit (mcr s) 4"
  shows "\<exists>t. run_err serial_step s (thr_writes evs) = Inr t \<and> transmit_timer t = None \<and> tsr_retry t \<le> 0
    \<and> chr t = chr s @ map (\<lambda>(e, v). ChrWrite (ucast v) (write_ok e)) evs"
  using thr_writes_run [OF assms(1,2), of evs] assms(3) by (auto simp: serial_inv_def serial_core_def)

text \<open>Reading the receive buffer repeatedly.\<close>

fun serial_reads :: "env \<Rightarrow> nat \<Rightarrow> SerialState \<Rightarrow> u32 list \<times> SerialState" where
  "serial_reads e 0 s = ([], s)"
| "serial_reads e (Suc n) s =
     (let (v, s) = serial_ioport_read e s 0; (vs, s) = serial_reads e n s in (v # vs, s))"

lemma rbr_taken_frame:
  "bit (fcr s) 0 \<Longrightarrow> recv_fifo (rbr_taken e s) = recv_fifo (snd (recv_get s))"
  "fcr (rbr_taken e s) = fcr s" "lcr (rbr_taken e s) = lcr s" "mcr (rbr_taken e s) = mcr s"
  "fcount (recv_fifo (snd (recv_get s))) = 0 \<Longrightarrow> bit (fcr s) 0 \<Longrightarrow> \<not> bit (lsr (rbr_taken e s)) 0"
  by (simp_all add: rbr_taken_def Let_def bit5_masks [simplified])

lemma serial_read_0:
  assumes "serial_inv s" "\<not> bit (lcr s) 7" "bit (fcr s) 0" "recv_bytes s \<noteq> []" "serial_ioport_read e s 0 = (v, t)"
  shows "v = ucast (hd (recv_bytes s)) \<and> recv_bytes t = tl (recv_bytes s) \<and> serial_inv t
    \<and> lcr t = lcr s \<and> fcr t = fcr s \<and> (tl (recv_bytes s) = [] \<longrightarrow> \<not> bit (lsr t) 0)"
proof -
  have ok: "recv_ok s" using assms(1) by (simp add: serial_inv_def serial_core_def)
  have r: "serial_ioport_read e s 0 = serial_read_rbr e s"
    using assms(2) by (simp add: serial_ioport_read_def and_bits_u8)
  have v: "v = ucast (fst (recv_get s))" "recv_fifo t = recv_fifo (snd (recv_get s))" "lcr t = lcr s" "fcr t = fcr s"
    "lsr t = lsr (rbr_taken e s)"
    using assms(5,3) unfolding r serial_read_rbr_eq by (auto simp: Let_def rbr_taken_frame)
  have "fcount (recv_fifo (snd (recv_get s))) = 0" if "tl (recv_bytes s) = []"
    using recv_get_bytes [OF ok] that by (simp add: fifo_bytes_empty)
  then show ?thesis
    using v recv_get_head [OF ok assms(4)] recv_get_bytes [OF ok] serial_ioport_read_inv [OF assms(1), of e 0]
      rbr_taken_frame(5) [of s e] assms(3,5) by auto
qed

lemma serial_reads_all:
  "serial_inv s \<Longrightarrow> \<not> bit (lcr s) 7 \<Longrightarrow> bit (fcr s) 0 \<Longrightarrow> n = length (recv_bytes s) \<Longrightarrow>
     fst (serial_reads e n s) = map ucast (recv_bytes s) \<and> recv_bytes (snd (serial_reads e n s)) = []
     \<and> (0 < n \<longrightarrow> \<not> bit (lsr (snd (serial_reads e n s))) 0)"
proof (induction n arbitrary: s)
  case 0
  then show ?case by (simp add: fifo_bytes_empty)
next
  case (Suc n)
  obtain v t where r: "serial_ioport_read e s 0 = (v, t)" by fastforce
  have ne: "recv_bytes s \<noteq> []" using Suc.prems(4) by (auto simp: fifo_bytes_empty)
  note t = serial_read_0 [OF Suc.prems(1-3) ne r]
  have n: "n = length (recv_bytes t)" using t Suc.prems(4) by (simp only: length_tl diff_Suc_1)
  have IH: "fst (serial_reads e n t) = map ucast (recv_bytes t) \<and> recv_bytes (snd (serial_reads e n t)) = []
     \<and> (0 < n \<longrightarrow> \<not> bit (lsr (snd (serial_reads e n t))) 0)"
    using Suc.IH [OF _ _ _ n] t Suc.prems by simp
  have "serial_reads e (Suc n) s = (v # fst (serial_reads e n t), snd (serial_reads e n t))"
    by (simp add: r Let_def case_prod_unfold)
  moreover have "v # map ucast (recv_bytes t) = map ucast (recv_bytes s)"
    using t ne by (cases "recv_bytes s") simp_all
  moreover have "\<not> bit (lsr (snd (serial_reads e n t))) 0"
  proof (cases n)
    case 0
    then have "tl (recv_bytes s) = []" using n t by (metis length_0_conv)
    with t 0 show ?thesis by simp
  qed (use IH in simp)
  ultimately show ?case using IH by simp
qed

text \<open>
  C20: reception. As long as the backend offers no more bytes than \<open>serial_can_receive\<close> asks for,
  a UART in FIFO mode loses nothing: all bytes enter the FIFO behind the ones it holds, no overrun
  is flagged, and reading the receive buffer returns all of them in order, after which "data ready"
  is clear.
\<close>

theorem serial_receive_read:
  assumes "serial_inv s" "\<not> bit (lcr s) 7" "bit (fcr s) 0"
    and "0 < length bs" "int (length bs) \<le> serial_can_receive s"
    and "t = serial_receive1 e s bs" "n = length (recv_bytes s) + length bs"
  shows "bit (lsr t) 1 = bit (lsr s) 1 \<and> fst (serial_reads e' n t) = map ucast (recv_bytes s @ bs)
    \<and> \<not> bit (lsr (snd (serial_reads e' n t))) 0"
proof -
  have c: "recv_ok s" "itl (recv_fifo s) \<le> 14" "fcount (recv_fifo s) \<le> 16"
    using assms(1) by (simp_all add: serial_inv_def serial_core_def fifo_ok_def)
  have room: "fcount (recv_fifo s) + length bs \<le> 16"
    using assms(3-5) c(2,3)
    by (auto simp: serial_can_receive_def and_bits_u8 Let_def UART_FIFO_LENGTH_def split: if_splits)
  have b: "recv_bytes t = recv_bytes s @ bs"
    using receive1_bytes [OF assms(3) c(1), of e bs] room by (simp add: assms(6))
  have oe: "bit (lsr (foldl recv_put u bs)) 1 = bit (lsr u) 1"
    if "recv_ok u" "fcount (recv_fifo u) + length bs \<le> 16" for u
    using that
  proof (induction bs arbitrary: u)
    case (Cons x bs)
    have "fcount (recv_fifo (recv_put u x)) = Suc (fcount (recv_fifo u))"
      using Cons.prems by (simp add: fifo_ops)
    with Cons show ?case by (simp add: recv_put_ok del: One_nat_def)
  qed simp
  have "bit (lsr t) 1 = bit (lsr s) 1"
    using oe [OF c(1) room] assms(3)
    by (simp add: assms(6) serial_receive1_def Let_def and_bits_u8 bit_simps bit_u8 del: One_nat_def)
  moreover have "serial_inv t" using assms(1) unfolding assms(6) serial_inv_def [of s]
    by (intro serial_receive1_inv) simp
  moreover have "\<not> bit (lcr t) 7" "bit (fcr t) 0" using assms(2,3,6) by simp_all
  moreover have "n = length (recv_bytes t)" using assms(7) b by simp
  ultimately show ?thesis
    using serial_reads_all [of t n e'] assms(4,7) b by simp
qed

text \<open>The PC's UART with its FIFOs switched on at trigger level 14, after power-on.\<close>

definition uart_fifo_on :: SerialState where
  "uart_fifo_on = serial_write_fcr (serial_reset env0 serial_isa_initfn) 0xC7"

lemma uart_fifo_on_facts:
  "serial_inv uart_fifo_on" "\<not> bit (lcr uart_fifo_on) 7" "bit (fcr uart_fifo_on) 0"
  "serial_can_receive uart_fifo_on = 14" "recv_bytes uart_fifo_on = []"
  using serial_write_fcr_inv [OF power_on_inv] by (simp add: uart_fifo_on_def, code_simp, code_simp, code_simp, code_simp)

theorem serial_receive_read_witness:
  "fst (serial_reads env0 3 (serial_receive1 env0 uart_fifo_on [1, 2, 3])) = [1, 2, 3]"
  using serial_receive_read [OF uart_fifo_on_facts(1-3), of "[1, 2, 3]" _ env0 3 env0]
    uart_fifo_on_facts(4,5) by simp

text \<open>
  Loopback. With the loopback bit of the MCR set and the FIFOs on, up to 16 bytes written to
  the holding register of a UART with an empty receive FIFO come back, in order, from the receive
  buffer, and the backend sees nothing of the writes.
\<close>

theorem serial_loopback:
  assumes "serial_inv s" "\<not> bit (lcr s) 7" "bit (fcr s) 0" "bit (mcr s) 4"
    and "recv_bytes s = []" "length evs \<le> 16"
  shows "\<exists>t. run_err serial_step s (thr_writes evs) = Inr t \<and> chr t = chr s
    \<and> fst (serial_reads e (length evs) t) = map (\<lambda>(e, v). v AND 0xff) evs"
proof -
  obtain t where t: "run_err serial_step s (thr_writes evs) = Inr t" "serial_inv t" "fcr t = fcr s" "lcr t = lcr s"
    "chr t = chr s" "recv_bytes t = map (\<lambda>(e, v). ucast v) evs"
    using thr_writes_run [OF assms(1,2), of evs] assms(3-6) by auto
  have "length evs = length (recv_bytes t)" using t(6) by simp
  from serial_reads_all [OF t(2) _ _ this, of e] assms(2,3) t(3,4)
  have "fst (serial_reads e (length evs) t) = map ucast (recv_bytes t)" by simp
  also have "\<dots> = map (\<lambda>(e, v). v AND 0xff) evs"
    unfolding t(6) by (simp add: case_prod_unfold ucast_ucast8)
  finally show ?thesis using t(1,5) by blast
qed

theorem serial_loopback_witness:
  "\<exists>t. run_err serial_step (uart_fifo_on\<lparr>mcr := 0x10\<rparr>) (thr_writes [(env0, 0x41), (env0, 0x42)]) = Inr t
     \<and> fst (serial_reads env0 2 t) = [0x41, 0x42]"
proof -
  have "serial_inv (uart_fifo_on\<lparr>mcr := 0x10\<rparr>)" using uart_fifo_on_facts(1) by (simp add: serial_inv_def)
  from serial_loopback [OF this, of "[(env0, 0x41), (env0, 0x42)]" env0] uart_fifo_on_facts(2-5)
  show ?thesis
    by (auto simp: bit_u8 numeral_2_eq_2 simp del: serial_reads.simps run_err.simps serial_step.simps)
qed

text \<open>
  Two defects of the FIFO control. A flush of the receive FIFO through the FCR leaves "data
  ready" set although the FIFO is empty, so the guest reads a byte that was never received. And a
  machine reset leaves the FCR alone while it clears the IIR: a driver that then switches the FIFOs
  on with the value they were last on with is ignored, and the IIR goes on reporting that the UART
  has no FIFOs although it works in FIFO mode.
\<close>

theorem serial_fcr_defects:
  assumes "bit (fcr s) 0" "\<not> bit (fcr s) 1" "bit (lsr s) 0" "bit v 0" "bit v 1"
    and "t = serial_write_fcr s v" "r = serial_reset e s"
  shows "fcount (recv_fifo t) = 0 \<and> bit (lsr t) 0
    \<and> serial_write_fcr r (ucast (fcr s)) = r \<and> bit (fcr r) 0 \<and> iir r AND 0xC0 = 0"
proof -
  let ?v = "ucast (v AND 0xFF) :: u8"
  have v: "bit ?v 0" "bit ?v 1" using assms(4,5) by (simp_all add: word_and_255 bit_simps)
  then have ne: "fcr s \<noteq> ?v" using assms(2) by auto
  have x: "(?v XOR fcr s) AND 0x01 = 0" using v assms(1) by (simp add: and_bits_u8 bit_xor_iff)
  have fe: "?v AND 0x01 \<noteq> 0" using v(1) by (simp add: and_bits_u8)
  have "recv_fifo t = (recv_fifo (fcr_cleared s ?v))\<lparr>itl := itl (recv_fifo t)\<rparr>" "lsr t = lsr s"
    unfolding assms(6) serial_write_fcr_def Let_def if_not_P [OF ne] x by (simp_all add: fe)
  then have t: "fcount (recv_fifo t) = 0" "lsr t = lsr s"
    using fcr_cleared_recv [OF v(2), of s] by (metis SerialFIFO.select_convs(2) SerialFIFO.surjective SerialFIFO.update_convs(3), simp)
  have r: "fcr r = fcr s" "iir r = 1" by (simp_all add: assms(7) serial_reset_def Let_def fifo_ops)
  have "ucast (ucast (fcr s) AND 0xFF :: u32) = fcr s"
    unfolding word_and_255 by (rule bit_word_eqI) (simp add: bit_simps)
  then have "serial_write_fcr r (ucast (fcr s)) = r"
    by (simp add: serial_write_fcr_def Let_def r)
  with t r assms(1,3) show ?thesis by simp
qed

theorem serial_fcr_defects_witness:
  "(let s = serial_receive1 env0 uart_fifo_on [65]; t = serial_write_fcr s 0x03; r = serial_reset env0 s in
     fcount (recv_fifo t) = 0 \<and> bit (lsr t) 0 \<and> iir (serial_write_fcr r 0xC1) AND 0xC0 = 0)"
proof -
  let ?s = "serial_receive1 env0 uart_fifo_on [65]"
  have f: "bit (fcr ?s) 0" "\<not> bit (fcr ?s) 1" "bit (lsr ?s) 0" "fcr ?s = 0xC1" by code_simp+
  have v: "bit (3 :: u32) 0" "bit (3 :: u32) 1" by code_simp+
  from serial_fcr_defects [OF f(1-3) v refl refl, of env0] show ?thesis
    unfolding Let_def f(4) by simp
qed

end
