(* ===== verification/HostUtils.thy ===== *)
theory HostUtils
  imports Prelude
begin

text \<open>
  Integer helpers: \<open>muldiv64\<close> of \<open>qemu-common.h\<close>, the 128-bit products of \<open>host-utils.c\<close>, and the bit
  counters of \<open>host-utils.h\<close> in the portable form the Microsoft compiler gets (no GCC builtins). A
  \<open>uint64_t\<close> pair written through \<open>plow\<close> and \<open>phigh\<close> is the pair \<open>(low, high)\<close>.
\<close>

definition muldiv64 :: "u64 \<Rightarrow> u32 \<Rightarrow> u32 \<Rightarrow> u64" where
  "muldiv64 a b c =
     (let low = ucast a :: u32; high = ucast (drop_bit 32 a) :: u32;
          rl = ucast low * ucast b :: u64;
          rh = ucast high * ucast b :: u64;
          rh = rh + drop_bit 32 rl;
          res_high = ucast (rh div ucast c) :: u32;
          res_low = ucast ((push_bit 32 (rh mod ucast c) + (rl AND 0xffffffff)) div ucast c) :: u32
      in push_bit 32 (ucast res_high) OR ucast res_low)"

definition add128 :: "u64 \<times> u64 \<Rightarrow> u64 \<Rightarrow> u64 \<Rightarrow> u64 \<times> u64" where
  "add128 p a b =
     (case p of (plow, phigh) \<Rightarrow>
        (let plow = plow + a;
             phigh = (if plow < a then phigh + 1 else phigh)
         in (plow, phigh + b)))"

definition neg128 :: "u64 \<times> u64 \<Rightarrow> u64 \<times> u64" where
  "neg128 p = (case p of (plow, phigh) \<Rightarrow> add128 (NOT plow, NOT phigh) 1 0)"

definition mul64 :: "u64 \<Rightarrow> u64 \<Rightarrow> u64 \<times> u64" where
  "mul64 a b =
     (let a0 = ucast a :: u32; a1 = ucast (drop_bit 32 a) :: u32;
          b0 = ucast b :: u32; b1 = ucast (drop_bit 32 b) :: u32;
          v = ucast a0 * ucast b0 :: u64;
          p = (v, 0);
          v = ucast a0 * ucast b1;
          p = add128 p (push_bit 32 v) (drop_bit 32 v);
          v = ucast a1 * ucast b0;
          p = add128 p (push_bit 32 v) (drop_bit 32 v);
          v = ucast a1 * ucast b1
      in (fst p, snd p + v))"

definition mulu64 :: "u64 \<Rightarrow> u64 \<Rightarrow> u64 \<times> u64" where
  "mulu64 a b = mul64 a b"

definition muls64 :: "u64 \<Rightarrow> u64 \<Rightarrow> u64 \<times> u64" where
  "muls64 a b =
     (let sa = sint a < 0; a = (if sa then - a else a);
          sb = sint b < 0; b = (if sb then - b else b);
          p = mul64 a b
      in if sa \<noteq> sb then neg128 p else p)"

definition clz32 :: "u32 \<Rightarrow> int" where
  "clz32 val =
     (let cnt = 0;
          (cnt, val) = (if val AND 0xFFFF0000 = 0 then (cnt + 16, push_bit 16 val) else (cnt, val));
          (cnt, val) = (if val AND 0xFF000000 = 0 then (cnt + 8, push_bit 8 val) else (cnt, val));
          (cnt, val) = (if val AND 0xF0000000 = 0 then (cnt + 4, push_bit 4 val) else (cnt, val));
          (cnt, val) = (if val AND 0xC0000000 = 0 then (cnt + 2, push_bit 2 val) else (cnt, val));
          (cnt, val) = (if val AND 0x80000000 = 0 then (cnt + 1, push_bit 1 val) else (cnt, val));
          cnt = (if val AND 0x80000000 = 0 then cnt + 1 else cnt)
      in cnt)"

definition clo32 :: "u32 \<Rightarrow> int" where
  "clo32 val = clz32 (NOT val)"

definition clz64 :: "u64 \<Rightarrow> int" where
  "clz64 val =
     (let (cnt, val) = (if drop_bit 32 val = 0 then (32, val) else (0, drop_bit 32 val))
      in cnt + clz32 (ucast val))"

definition clo64 :: "u64 \<Rightarrow> int" where
  "clo64 val = clz64 (NOT val)"

definition ctz32 :: "u32 \<Rightarrow> int" where
  "ctz32 val =
     (let cnt = 0;
          (cnt, val) = (if val AND 0x0000FFFF = 0 then (cnt + 16, drop_bit 16 val) else (cnt, val));
          (cnt, val) = (if val AND 0x000000FF = 0 then (cnt + 8, drop_bit 8 val) else (cnt, val));
          (cnt, val) = (if val AND 0x0000000F = 0 then (cnt + 4, drop_bit 4 val) else (cnt, val));
          (cnt, val) = (if val AND 0x00000003 = 0 then (cnt + 2, drop_bit 2 val) else (cnt, val));
          (cnt, val) = (if val AND 0x00000001 = 0 then (cnt + 1, drop_bit 1 val) else (cnt, val));
          cnt = (if val AND 0x00000001 = 0 then cnt + 1 else cnt)
      in cnt)"

definition cto32 :: "u32 \<Rightarrow> int" where
  "cto32 val = ctz32 (NOT val)"

definition ctz64 :: "u64 \<Rightarrow> int" where
  "ctz64 val =
     (let (cnt, val) = (if (ucast val :: u32) = 0 then (32, drop_bit 32 val) else (0, val))
      in cnt + ctz32 (ucast val))"

definition cto64 :: "u64 \<Rightarrow> int" where
  "cto64 val = ctz64 (NOT val)"

definition ctpop8 :: "u8 \<Rightarrow> int" where
  "ctpop8 val =
     (let val = (val AND 0x55) + (drop_bit 1 val AND 0x55);
          val = (val AND 0x33) + (drop_bit 2 val AND 0x33);
          val = (val AND 0x0f) + (drop_bit 4 val AND 0x0f)
      in uint val)"

definition ctpop16 :: "u16 \<Rightarrow> int" where
  "ctpop16 val =
     (let val = (val AND 0x5555) + (drop_bit 1 val AND 0x5555);
          val = (val AND 0x3333) + (drop_bit 2 val AND 0x3333);
          val = (val AND 0x0f0f) + (drop_bit 4 val AND 0x0f0f);
          val = (val AND 0x00ff) + (drop_bit 8 val AND 0x00ff)
      in uint val)"

definition ctpop32 :: "u32 \<Rightarrow> int" where
  "ctpop32 val =
     (let val = (val AND 0x55555555) + (drop_bit 1 val AND 0x55555555);
          val = (val AND 0x33333333) + (drop_bit 2 val AND 0x33333333);
          val = (val AND 0x0f0f0f0f) + (drop_bit 4 val AND 0x0f0f0f0f);
          val = (val AND 0x00ff00ff) + (drop_bit 8 val AND 0x00ff00ff);
          val = (val AND 0x0000ffff) + (drop_bit 16 val AND 0x0000ffff)
      in uint val)"

definition ctpop64 :: "u64 \<Rightarrow> int" where
  "ctpop64 val =
     (let val = (val AND 0x5555555555555555) + (drop_bit 1 val AND 0x5555555555555555);
          val = (val AND 0x3333333333333333) + (drop_bit 2 val AND 0x3333333333333333);
          val = (val AND 0x0f0f0f0f0f0f0f0f) + (drop_bit 4 val AND 0x0f0f0f0f0f0f0f0f);
          val = (val AND 0x00ff00ff00ff00ff) + (drop_bit 8 val AND 0x00ff00ff00ff00ff);
          val = (val AND 0x0000ffff0000ffff) + (drop_bit 16 val AND 0x0000ffff0000ffff);
          val = (val AND 0x00000000ffffffff) + (drop_bit 32 val AND 0x00000000ffffffff)
      in uint val)"

section \<open>Multiplication and division\<close>

text \<open>The arithmetic of \<open>muldiv64\<close>, with \<open>B\<close> for \<open>2 ^ 32\<close>.\<close>

lemma muldiv_split:
  fixes h l b c B :: nat
  assumes "0 < c" "c \<le> B"
  defines "rh \<equiv> h * b + l * b div B"
  shows "(h * B + l) * b div c = rh div c * B + (rh mod c * B + l * b mod B) div c"
    and "(rh mod c * B + l * b mod B) div c < B"
proof -
  have "(h * B + l) * b = rh * B + l * b mod B"
    unfolding rh_def by (simp add: algebra_simps)
  also have "rh * B = (rh mod c + rh div c * c) * B" by simp
  also have "\<dots> + l * b mod B = (rh mod c * B + l * b mod B) + rh div c * B * c"
    by (simp only: distrib_right) (simp only: ac_simps)
  finally show "(h * B + l) * b div c = rh div c * B + (rh mod c * B + l * b mod B) div c"
    using assms(1) by simp
  have "rh mod c * B + l * b mod B < c * B"
  proof -
    have "rh mod c \<le> c - 1" "l * b mod B < B" using assms(1,2) by (simp_all add: Suc_leI less_Suc_eq_le [symmetric])
    then have "rh mod c * B + l * b mod B < (c - 1) * B + B" by (meson add_le_less_mono mult_le_mono1)
    also have "\<dots> = c * B" using assms(1) by (cases c) simp_all
    finally show ?thesis .
  qed
  then show "(rh mod c * B + l * b mod B) div c < B"
    by (simp add: less_mult_imp_div_less mult.commute)
qed

lemma mod_square: "y < B \<Longrightarrow> (x * B + y) mod (B * B) = x mod B * B + y" for x y B :: nat
  by (simp add: mod_mult2_eq)

lemma unat_u32_less: "unat (x :: u32) < 2 ^ 32"
  using unsigned_less [of x] by simp

lemma unat_u64_less: "unat (x :: u64) < 2 ^ 64"
  using unsigned_less [of x] by simp

lemma unat_ucast_64: "unat (ucast (x :: u32) :: u64) = unat x"
  using unat_u32_less [of x] by (simp add: unsigned_ucast_eq take_bit_nat_eq_self)

lemma unat_ucast_32: "unat (ucast (x :: u64) :: u32) = unat x mod 2 ^ 32"
  by (simp add: unsigned_ucast_eq take_bit_eq_mod)

lemma unat_mul32: "unat (ucast (x :: u32) * ucast (y :: u32) :: u64) = unat x * unat y"
proof -
  have "unat x * unat y < 2 ^ 32 * 2 ^ 32"
    using unat_u32_less [of x] unat_u32_less [of y] by (intro mult_strict_mono) simp_all
  then show ?thesis by (simp add: unat_word_ariths unat_ucast_64)
qed

lemma unat_drop_32: "unat (drop_bit 32 (x :: u64)) = unat x div 2 ^ 32"
  by (subst unat_drop_bit_eq) (simp only: drop_bit_eq_div)

lemma unat_push_32: "unat (push_bit 32 (x :: u64)) = unat x * 2 ^ 32 mod 2 ^ 64"
  by (subst unsigned_push_bit_eq) (simp add: push_bit_eq_mult take_bit_eq_mod)

lemma unat_low_32: "unat (x AND 0xffffffff :: u64) = unat x mod 2 ^ 32"
proof -
  have "x AND 0xffffffff = take_bit 32 x" by (simp add: take_bit_eq_mask mask_eq_exp_minus_1)
  then have "unat (x AND 0xffffffff) = take_bit 32 (unat x)" by (simp add: unsigned_take_bit_eq)
  then show ?thesis by (simp only: take_bit_eq_mod)
qed

lemma unat_join:
  "unat (push_bit 32 (ucast (h :: u32)) OR ucast (l :: u32) :: u64) = unat h * 2 ^ 32 + unat l"
proof -
  have b: "unat h * 2 ^ 32 + unat l < 2 ^ 64"
    using unat_u32_less [of h] unat_u32_less [of l] by simp
  have "push_bit 32 (ucast h) AND ucast l = (0 :: u64)"
    by (rule bit_word_eqI) (auto simp: bit_simps dest!: bit_imp_le_length)
  then have "push_bit 32 (ucast h) OR ucast l = (push_bit 32 (ucast h) + ucast l :: u64)"
    by (simp add: disjunctive_add_eq_or)
  then show ?thesis
    using b unat_u32_less [of h] by (simp add: unat_word_ariths unat_push_32 unat_ucast_64)
qed

lemma muldiv64_nat:
  assumes "c \<noteq> 0"
  shows "unat (muldiv64 a b c) = unat a * unat b div unat c mod 2 ^ 64"
proof -
  let ?B = "2 ^ 32 :: nat"
  let ?h = "unat a div ?B" and ?l = "unat a mod ?B" and ?b = "unat b" and ?c = "unat c"
  let ?rl = "ucast (ucast a :: u32) * ucast b :: u64"
  let ?rh = "ucast (ucast (drop_bit 32 a) :: u32) * ucast b + drop_bit 32 ?rl :: u64"
  have c: "0 < ?c" "?c \<le> ?B" using assms unat_u32_less [of c] by (simp_all add: unat_gt_0)
  have rl: "unat ?rl = ?l * ?b" by (simp add: unat_mul32 unat_ucast_32)
  have hb: "?h < ?B" using unat_u64_less [of a] by (simp add: less_mult_imp_div_less)
  then have hi: "unat (ucast (drop_bit 32 a) :: u32) = ?h"
    by (simp add: unat_ucast_32 unat_drop_32)
  define rh where "rh = ?h * ?b + ?l * ?b div ?B"
  note q = muldiv_split [OF c, where h = ?h and l = ?l and b = ?b, folded rh_def]
  have "rh < ?B * ?B"
  proof -
    have "?h \<le> ?B - 1" "?b \<le> ?B - 1" "?l \<le> ?B - 1"
      using hb unat_u32_less [of b] by simp_all
    then have "?h * ?b \<le> (?B - 1) * (?B - 1)" "?l * ?b \<le> (?B - 1) * (?B - 1)"
      by (simp_all only: mult_le_mono)
    then have "?h * ?b \<le> (?B - 1) * (?B - 1)" "?l * ?b div ?B \<le> (?B - 1) * (?B - 1) div ?B"
      using div_le_mono by blast+
    then show ?thesis unfolding rh_def by simp
  qed
  then have rh: "unat ?rh = rh"
    unfolding unat_word_ariths(1) unat_drop_32 rl unat_mul32 hi rh_def by (simp add: unat_ucast_32)
  have m: "rh mod ?c * ?B + ?l * ?b mod ?B < ?c * ?B"
    using q(2) by (simp add: div_less_iff_less_mult [OF c(1)] mult.commute)
  also have "\<dots> \<le> ?B * ?B" using c(2) by simp
  finally have "rh mod ?c * ?B + ?l * ?b mod ?B < 2 ^ 64" by simp
  then have low: "unat (push_bit 32 (?rh mod ucast c) + (?rl AND 0xffffffff)) = rh mod ?c * ?B + ?l * ?b mod ?B"
    by (subst unat_word_ariths(1))
       (simp only: unat_push_32 unat_low_32 rl unat_mod_distrib unat_ucast_64 rh, simp)
  have "unat (muldiv64 a b c) = rh div ?c mod ?B * ?B + (rh mod ?c * ?B + ?l * ?b mod ?B) div ?c"
    unfolding muldiv64_def Let_def unat_join
    using q(2) by (simp add: unat_ucast_32 unat_div_distrib unat_ucast_64 rh low)
  also have "\<dots> = (rh div ?c * ?B + (rh mod ?c * ?B + ?l * ?b mod ?B) div ?c) mod (?B * ?B)"
    by (rule mod_square [OF q(2), symmetric])
  also have "rh div ?c * ?B + (rh mod ?c * ?B + ?l * ?b mod ?B) div ?c = unat a * ?b div ?c"
    using q(1) unfolding div_mult_mod_eq by (rule sym)
  finally show ?thesis by simp
qed

text \<open>
  C8: \<open>muldiv64\<close> computes \<open>a * b / c\<close> exactly. For every non-zero divisor its result is the
  mathematical quotient of the 96-bit product, truncated to 64 bits; no intermediate overflows.
\<close>

theorem muldiv64_exact:
  assumes "c \<noteq> 0"
  shows "unat (muldiv64 a b c) = unat a * unat b div unat c mod 2 ^ 64"
  using assms by (rule muldiv64_nat)

theorem muldiv64_exact_witness:
  "unat (muldiv64 0x123456789ABCDEF0 1193182 1000000000) = 0x123456789ABCDEF0 * 1193182 div 1000000000"
  using muldiv64_exact [of 1000000000 "0x123456789ABCDEF0" 1193182] by simp

text \<open>The number a pair of 64-bit halves stands for.\<close>

definition val128 :: "u64 \<times> u64 \<Rightarrow> nat" where
  "val128 p = unat (fst p) + 2 ^ 64 * unat (snd p)"

lemma carry_add:
  "unat (x + a) + 2 ^ 64 * of_bool (x + a < a) = unat x + unat a" for x a :: u64
proof (cases "unat x + unat a < 2 ^ 64")
  case True
  then have "unat (x + a) = unat x + unat a" by (simp add: unat_word_ariths)
  then show ?thesis by (simp add: word_less_nat_alt)
next
  case False
  have "unat x + unat a < 2 * 2 ^ 64" using unat_u64_less [of x] unat_u64_less [of a] by linarith
  with False have "unat (x + a) = unat x + unat a - 2 ^ 64"
    by (simp add: unat_word_ariths le_mod_geq)
  then show ?thesis
    using False unat_u64_less [of x] by (simp add: word_less_nat_alt)
qed

lemma mod_high: "(l + 2 ^ 64 * h) mod 2 ^ 128 = l + 2 ^ 64 * (h mod 2 ^ 64)" if "l < 2 ^ 64" for l h :: nat
  using mod_square [OF that, of h] by (simp add: mult.commute add.commute)

lemma add128_val: "val128 (add128 p a b) = (val128 p + unat a + 2 ^ 64 * unat b) mod 2 ^ 128"
proof -
  obtain l h where p: "p = (l, h)" by fastforce
  let ?c = "of_bool (l + a < a) :: nat"
  have "snd (add128 p a b) = h + of_bool (l + a < a) + b" "fst (add128 p a b) = l + a"
    by (simp_all add: add128_def p Let_def)
  moreover have "unat (h + of_bool (l + a < a) + b) = (unat h + ?c + unat b) mod 2 ^ 64"
    by (simp add: unat_word_ariths mod_simps)
  ultimately have "val128 (add128 p a b) = unat (l + a) + 2 ^ 64 * ((unat h + ?c + unat b) mod 2 ^ 64)"
    by (simp add: val128_def)
  also have "\<dots> = (unat (l + a) + 2 ^ 64 * (unat h + ?c + unat b)) mod 2 ^ 128"
    by (rule mod_high [OF unat_u64_less, symmetric])
  also have "unat (l + a) + 2 ^ 64 * (unat h + ?c + unat b)
      = (unat (l + a) + 2 ^ 64 * ?c) + 2 ^ 64 * unat h + 2 ^ 64 * unat b"
    by (simp only: distrib_left add.assoc add.left_commute)
  also have "\<dots> = val128 p + unat a + 2 ^ 64 * unat b"
    unfolding carry_add by (simp add: val128_def p)
  finally show ?thesis .
qed

lemma shifted_parts: "unat (push_bit 32 v) + 2 ^ 64 * unat (drop_bit 32 v) = unat (v :: u64) * 2 ^ 32"
proof -
  have "x * B mod (B * B) + B * B * (x div B) = x * B" if "0 < B" for x B :: nat
  proof -
    have "x * B mod (B * B) = (x mod B) * B" by (simp add: mult_mod_left)
    then show ?thesis by (metis add_mult_distrib mod_div_decomp add.commute mult.assoc mult.commute)
  qed
  from this [of "2 ^ 32" "unat v"] show ?thesis
    unfolding unat_push_32 unat_drop_32 by simp
qed

lemma product_parts:
  fixes a0 a1 b0 b1 B :: nat
  shows "a0 * b0 + a0 * b1 * B + a1 * b0 * B + B * B * (a1 * b1) = (a1 * B + a0) * (b1 * B + b0)"
  by (simp add: algebra_simps)

lemma mul64_val: "val128 (mul64 a b) = unat a * unat b"
proof -
  let ?B = "2 ^ 32 :: nat"
  let ?a0 = "unat a mod ?B" and ?a1 = "unat a div ?B" and ?b0 = "unat b mod ?B" and ?b1 = "unat b div ?B"
  have hi: "unat (ucast (drop_bit 32 x) :: u32) = unat x div ?B" for x :: u64
    using unat_u64_less [of x] by (simp add: unat_ucast_32 unat_drop_32 less_mult_imp_div_less)
  have lo: "unat (ucast a :: u32) = ?a0" "unat (ucast b :: u32) = ?b0" by (simp_all add: unat_ucast_32)
  define v where "v x y = (ucast x * ucast y :: u64)" for x y :: u32
  have v: "unat (v x y) = unat x * unat y" for x y by (simp add: v_def unat_mul32)
  define p0 where "p0 = (v (ucast a) (ucast b), 0 :: u64)"
  define p1 where "p1 = add128 p0 (push_bit 32 (v (ucast a) (ucast (drop_bit 32 b)))) (drop_bit 32 (v (ucast a) (ucast (drop_bit 32 b))))"
  define p2 where "p2 = add128 p1 (push_bit 32 (v (ucast (drop_bit 32 a)) (ucast b))) (drop_bit 32 (v (ucast (drop_bit 32 a)) (ucast b)))"
  have m: "mul64 a b = (fst p2, snd p2 + v (ucast (drop_bit 32 a)) (ucast (drop_bit 32 b)))"
    unfolding mul64_def Let_def p2_def p1_def p0_def v_def ..
  have "val128 p0 = ?a0 * ?b0" by (simp add: p0_def val128_def v unat_ucast_32)
  then have "val128 p1 = (?a0 * ?b0 + ?a0 * ?b1 * ?B) mod 2 ^ 128"
    unfolding p1_def add128_val add.assoc shifted_parts v hi lo by simp
  then have p2: "val128 p2 = (?a0 * ?b0 + ?a0 * ?b1 * ?B + ?a1 * ?b0 * ?B) mod 2 ^ 128"
    unfolding p2_def add128_val add.assoc shifted_parts v hi lo by (simp add: mod_simps add.assoc)
  have "val128 (mul64 a b) = (unat (fst p2) + 2 ^ 64 * (unat (snd p2) + ?a1 * ?b1)) mod 2 ^ 128"
    unfolding m val128_def fst_conv snd_conv mod_high [OF unat_u64_less] unat_word_ariths(1) v hi by simp
  also have "unat (fst p2) + 2 ^ 64 * (unat (snd p2) + ?a1 * ?b1) = val128 p2 + ?B * ?B * (?a1 * ?b1)"
    by (simp add: val128_def distrib_left)
  also have "\<dots> mod 2 ^ 128 = (?a0 * ?b0 + ?a0 * ?b1 * ?B + ?a1 * ?b0 * ?B + ?B * ?B * (?a1 * ?b1)) mod 2 ^ 128"
    unfolding p2 by (simp only: mod_add_left_eq)
  also have "\<dots> = unat a * unat b mod 2 ^ 128"
    unfolding product_parts div_mult_mod_eq ..
  also have "\<dots> = unat a * unat b"
  proof -
    have "unat a * unat b < 2 ^ 64 * 2 ^ 64"
      using unat_u64_less [of a] unat_u64_less [of b] by (intro mult_strict_mono) simp_all
    then show ?thesis by simp
  qed
  finally show ?thesis .
qed

lemma uint_not: "uint (NOT x) = 2 ^ 64 - 1 - uint x" for x :: u64
proof -
  have "uint (NOT x) = (- uint x - 1) mod 2 ^ 64"
    by (simp add: not_eq_complement uint_word_ariths mod_simps)
  also have "\<dots> = (2 ^ 64 - 1 - uint x) mod 2 ^ 64"
    using mod_add_self2 [of "- uint x - 1" "2 ^ 64"] by (simp add: algebra_simps)
  also have "\<dots> = 2 ^ 64 - 1 - uint x"
    using uint_lt2p [of x] uint_ge_0 [of x] by (intro mod_pos_pos_trivial; linarith?) simp_all
  finally show ?thesis .
qed

lemma neg128_val: "int (val128 (neg128 p)) = (- int (val128 p)) mod 2 ^ 128"
proof -
  obtain l h where p: "p = (l, h)" by fastforce
  have n: "neg128 p = add128 (NOT l, NOT h) 1 0" by (simp add: neg128_def p)
  have "int (val128 (neg128 p)) = (uint (NOT l) + 2 ^ 64 * uint (NOT h) + 1) mod 2 ^ 128"
    unfolding n add128_val by (simp add: val128_def zmod_int ac_simps)
  also have "uint (NOT l) + 2 ^ 64 * uint (NOT h) + 1 = 2 ^ 128 - int (val128 p)"
    by (simp add: uint_not val128_def p)
  also have "(2 ^ 128 - int (val128 p)) mod 2 ^ 128 = (- int (val128 p)) mod 2 ^ 128"
    using mod_add_self2 [of "- int (val128 p)" "2 ^ 128"] by (simp add: algebra_simps)
  finally show ?thesis .
qed

lemma uint_abs64: "uint (if sint a < 0 then - a else a) = \<bar>sint a\<bar>" for a :: u64
proof -
  have r: "- (2 ^ 63) \<le> sint a" "sint a < 2 ^ 63" using sint_ge [of a] sint_lt [of a] by simp_all
  have u: "uint a = sint a mod 2 ^ 64" by (simp add: uint_sint take_bit_eq_mod)
  have "uint (- a) = (- sint a) mod 2 ^ 64" by (simp add: uint_word_ariths u mod_simps)
  then show ?thesis using r u by (simp add: mod_pos_pos_trivial)
qed

text \<open>
  C31: the 128-bit products. \<open>mulu64\<close> delivers the exact unsigned product of two 64-bit numbers in
  its two halves; \<open>muls64\<close> the exact signed product, in 128-bit two's complement, the most negative
  number included.
\<close>

theorem mul128_exact:
  "val128 (mulu64 a b) = unat a * unat b \<and> int (val128 (muls64 a b)) = (sint a * sint b) mod 2 ^ 128"
proof -
  let ?a = "if sint a < 0 then - a else a" and ?b = "if sint b < 0 then - b else b"
  have v: "int (val128 (mul64 ?a ?b)) = \<bar>sint a\<bar> * \<bar>sint b\<bar>"
    using uint_abs64 [of a] uint_abs64 [of b] by (simp add: mul64_val)
  have small: "int (val128 p) mod 2 ^ 128 = int (val128 p)" for p
    using uint_lt2p [of "fst p"] uint_lt2p [of "snd p"] by (simp add: val128_def mod_pos_pos_trivial)
  have "muls64 a b = (if (sint a < 0) \<noteq> (sint b < 0) then neg128 (mul64 ?a ?b) else mul64 ?a ?b)"
    by (simp only: muls64_def Let_def)
  moreover have "sint a * sint b = (if (sint a < 0) \<noteq> (sint b < 0) then - (\<bar>sint a\<bar> * \<bar>sint b\<bar>) else \<bar>sint a\<bar> * \<bar>sint b\<bar>)"
    by (simp add: abs_if)
  ultimately have "int (val128 (muls64 a b)) = (sint a * sint b) mod 2 ^ 128"
    using v neg128_val [of "mul64 ?a ?b"] small [of "mul64 ?a ?b"] by metis
  then show ?thesis by (simp add: mulu64_def mul64_val)
qed

section \<open>Leading and trailing zeros\<close>

lemma and_high_mask: "v AND NOT (mask m) = 0 \<longleftrightarrow> unat v < 2 ^ m" for v :: u32
proof -
  have "v AND NOT (mask m) = 0 \<longleftrightarrow> take_bit m v = v"
    by (auto simp: word_eq_bits bit_simps) 
  also have "\<dots> \<longleftrightarrow> take_bit m (unat v) = unat v"
    by (metis unsigned_take_bit_eq unsigned_word_eqI)
  finally show ?thesis by (simp add: take_bit_nat_eq_self_iff)
qed

text \<open>One step of the binary search of \<open>clz32\<close> and of \<open>ctz32\<close>.\<close>

definition clz_step :: "nat \<Rightarrow> int \<times> u32 \<Rightarrow> int \<times> u32" where
  "clz_step k p = (if snd p AND NOT (mask (32 - k)) = 0 then (fst p + int k, push_bit k (snd p)) else p)"

definition ctz_step :: "nat \<Rightarrow> int \<times> u32 \<Rightarrow> int \<times> u32" where
  "ctz_step k p = (if snd p AND mask k = 0 then (fst p + int k, drop_bit k (snd p)) else p)"

lemma high_masks:
  "(0xFFFF0000 :: u32) = NOT (mask 16)" "(0xFF000000 :: u32) = NOT (mask 24)"
  "(0xF0000000 :: u32) = NOT (mask 28)" "(0xC0000000 :: u32) = NOT (mask 30)"
  "(0x80000000 :: u32) = NOT (mask 31)"
  by (code_simp, code_simp, code_simp, code_simp, code_simp)

lemma clz_step_eqs:
  "(if v AND 0xFFFF0000 = 0 then (n + 16, push_bit 16 v) else (n, v)) = clz_step 16 (n, v)"
  "(if v AND 0xFF000000 = 0 then (n + 8, push_bit 8 v) else (n, v)) = clz_step 8 (n, v)"
  "(if v AND 0xF0000000 = 0 then (n + 4, push_bit 4 v) else (n, v)) = clz_step 4 (n, v)"
  "(if v AND 0xC0000000 = 0 then (n + 2, push_bit 2 v) else (n, v)) = clz_step 2 (n, v)"
  "(if v AND 0x80000000 = 0 then (n + 1, push_bit 1 v) else (n, v)) = clz_step 1 (n, v)"
  unfolding clz_step_def high_masks by simp_all

lemma ctz_step_eqs:
  "(if v AND 0x0000FFFF = 0 then (n + 16, drop_bit 16 v) else (n, v)) = ctz_step 16 (n, v)"
  "(if v AND 0x000000FF = 0 then (n + 8, drop_bit 8 v) else (n, v)) = ctz_step 8 (n, v)"
  "(if v AND 0x0000000F = 0 then (n + 4, drop_bit 4 v) else (n, v)) = ctz_step 4 (n, v)"
  "(if v AND 0x00000003 = 0 then (n + 2, drop_bit 2 v) else (n, v)) = ctz_step 2 (n, v)"
  "(if v AND 0x00000001 = 0 then (n + 1, drop_bit 1 v) else (n, v)) = ctz_step 1 (n, v)"
  by (simp_all add: ctz_step_def mask_eq_exp_minus_1)

lemma clz32_steps:
  "clz32 v = (let p = clz_step 1 (clz_step 2 (clz_step 4 (clz_step 8 (clz_step 16 (0, v)))))
              in if snd p AND 0x80000000 = 0 then fst p + 1 else fst p)"
  unfolding clz32_def Let_def clz_step_eqs case_prod_unfold prod.collapse ..

lemma ctz32_steps:
  "ctz32 v = (let p = ctz_step 1 (ctz_step 2 (ctz_step 4 (ctz_step 8 (ctz_step 16 (0, v)))))
              in if snd p AND 0x00000001 = 0 then fst p + 1 else fst p)"
  unfolding ctz32_def Let_def ctz_step_eqs case_prod_unfold prod.collapse ..

lemma clz_step_inv:
  assumes "unat (snd p) = V * 2 ^ nat (fst p)" "0 \<le> fst p" "2 ^ (32 - 2 * k) \<le> unat (snd p)" "2 * k \<le> 32"
  shows "unat (snd (clz_step k p)) = V * 2 ^ nat (fst (clz_step k p)) \<and> 0 \<le> fst (clz_step k p)
    \<and> 2 ^ (32 - k) \<le> unat (snd (clz_step k p))"
proof (cases "unat (snd p) < 2 ^ (32 - k)")
  case True
  have e: "(2::nat) ^ (32 - k) * 2 ^ k = 2 ^ 32" "(2::nat) ^ (32 - 2 * k) * 2 ^ k = 2 ^ (32 - k)"
    using assms(4) by (simp_all flip: power_add)
  have "unat (snd p) * 2 ^ k < 2 ^ 32"
    using True e(1) by (metis mult_less_mono1 zero_less_numeral zero_less_power)
  then have x: "unat (push_bit k (snd p)) = unat (snd p) * 2 ^ k"
    by (subst unsigned_push_bit_eq) (simp add: push_bit_eq_mult take_bit_nat_eq_self)
  have "2 ^ (32 - k) \<le> unat (push_bit k (snd p))"
    unfolding x e(2) [symmetric] using assms(3) by simp
  with True assms(1,2) x show ?thesis
    by (simp add: clz_step_def and_high_mask nat_add_distrib power_add)
next
  case False
  with assms show ?thesis by (simp add: clz_step_def and_high_mask)
qed

lemma clz32_nonzero:
  assumes "v \<noteq> 0"
  shows "0 \<le> clz32 v \<and> 2 ^ 31 \<le> unat v * 2 ^ nat (clz32 v) \<and> unat v * 2 ^ nat (clz32 v) < 2 ^ 32"
proof -
  define I where "I k p \<longleftrightarrow> unat (snd p) = unat v * 2 ^ nat (fst p) \<and> 0 \<le> fst p \<and> 2 ^ (32 - k) \<le> unat (snd p)" for k and p :: "int \<times> u32"
  have step: "I (2 * k) p \<Longrightarrow> 2 * k \<le> 32 \<Longrightarrow> I k (clz_step k p)" for k and p :: "int \<times> u32"
    using clz_step_inv [of p "unat v" k] unfolding I_def by blast
  have "I 32 (0, v)" using assms by (simp add: I_def Suc_le_eq unat_gt_0)
  then have "I 16 (clz_step 16 (0, v))" using step [of 16] by simp
  then have "I 8 (clz_step 8 (clz_step 16 (0, v)))" using step [of 8] by simp
  then have "I 4 (clz_step 4 (clz_step 8 (clz_step 16 (0, v))))" using step [of 4] by simp
  then have "I 2 (clz_step 2 (clz_step 4 (clz_step 8 (clz_step 16 (0, v)))))" using step [of 2] by simp
  then have "I 1 (clz_step 1 (clz_step 2 (clz_step 4 (clz_step 8 (clz_step 16 (0, v))))))"
    using step [of 1] by simp
  note i = this [unfolded I_def]
  let ?p = "clz_step 1 (clz_step 2 (clz_step 4 (clz_step 8 (clz_step 16 (0, v)))))"
  have "\<not> unat (snd ?p) < 2 ^ 31" using i by simp
  then have c: "clz32 v = fst ?p"
    unfolding clz32_steps Let_def high_masks(5) and_high_mask by (rule if_not_P)
  from i have "unat (snd ?p) = unat v * 2 ^ nat (clz32 v)" "2 ^ 31 \<le> unat (snd ?p)" "0 \<le> clz32 v"
    unfolding c by simp_all
  then show ?thesis using unat_u32_less [of "snd ?p"] by simp
qed

lemma and_low_mask: "v AND mask k = 0 \<longleftrightarrow> 2 ^ k dvd unat v" for v :: u32
proof -
  have "v AND mask k = 0 \<longleftrightarrow> take_bit k (unat v) = 0"
    using unat_eq_zero [of "take_bit k v"] by (simp only: unsigned_take_bit_eq flip: take_bit_eq_mask)
  then show ?thesis by (simp add: take_bit_eq_0_iff)
qed

lemma ctz_step_inv:
  assumes "V = unat (snd p) * 2 ^ nat (fst p)" "0 \<le> fst p" "\<not> 2 ^ (2 * k) dvd unat (snd p)"
  shows "V = unat (snd (ctz_step k p)) * 2 ^ nat (fst (ctz_step k p)) \<and> 0 \<le> fst (ctz_step k p)
    \<and> \<not> 2 ^ k dvd unat (snd (ctz_step k p))"
proof (cases "2 ^ k dvd unat (snd p)")
  case True
  then obtain q where q: "unat (snd p) = 2 ^ k * q" by (rule dvdE)
  have x: "unat (drop_bit k (snd p)) = q"
    by (subst unat_drop_bit_eq) (simp add: drop_bit_eq_div q)
  have "2 ^ k dvd q \<Longrightarrow> 2 ^ k * 2 ^ k dvd 2 ^ k * q" by (intro mult_dvd_mono dvd_refl)
  then have "\<not> 2 ^ k dvd q" using assms(3) unfolding q mult_2 power_add by blast
  with True assms(1,2) x q show ?thesis
    by (simp add: ctz_step_def and_low_mask nat_add_distrib power_add)
next
  case False
  with assms show ?thesis by (simp add: ctz_step_def and_low_mask)
qed

lemma ctz32_nonzero:
  assumes "v \<noteq> 0"
  shows "0 \<le> ctz32 v \<and> 2 ^ nat (ctz32 v) dvd unat v \<and> odd (unat v div 2 ^ nat (ctz32 v))"
proof -
  define I where "I k p \<longleftrightarrow> unat v = unat (snd p) * 2 ^ nat (fst p) \<and> 0 \<le> fst p \<and> \<not> 2 ^ k dvd unat (snd p)" for k and p :: "int \<times> u32"
  have step: "I (2 * k) p \<Longrightarrow> I k (ctz_step k p)" for k and p :: "int \<times> u32"
    using ctz_step_inv [of "unat v" p k] unfolding I_def by blast
  have "0 < unat v" "unat v < 2 ^ 32" using assms unat_u32_less [of v] by (simp_all add: unat_gt_0)
  then have "\<not> 2 ^ 32 dvd unat v" by (rule nat_dvd_not_less)
  then have "I 32 (0, v)" by (simp add: I_def)
  then have "I 16 (ctz_step 16 (0, v))" using step [of 16] by simp
  then have "I 8 (ctz_step 8 (ctz_step 16 (0, v)))" using step [of 8] by simp
  then have "I 4 (ctz_step 4 (ctz_step 8 (ctz_step 16 (0, v))))" using step [of 4] by simp
  then have "I 2 (ctz_step 2 (ctz_step 4 (ctz_step 8 (ctz_step 16 (0, v)))))" using step [of 2] by simp
  then have "I 1 (ctz_step 1 (ctz_step 2 (ctz_step 4 (ctz_step 8 (ctz_step 16 (0, v))))))"
    using step [of 1] by simp
  note i = this [unfolded I_def]
  let ?p = "ctz_step 1 (ctz_step 2 (ctz_step 4 (ctz_step 8 (ctz_step 16 (0, v)))))"
  have "snd ?p AND 0x00000001 \<noteq> 0"
    using i and_low_mask [of "snd ?p" 1] by (simp add: mask_eq_exp_minus_1)
  then have c: "ctz32 v = fst ?p"
    unfolding ctz32_steps Let_def by (rule if_not_P)
  from i have "unat v = unat (snd ?p) * 2 ^ nat (ctz32 v)" "odd (unat (snd ?p))" "0 \<le> ctz32 v"
    unfolding c by simp_all
  then show ?thesis by simp
qed

lemma clz32_zero [simp]: "clz32 0 = 32" and ctz32_zero [simp]: "ctz32 0 = 32"
  by (code_simp, code_simp)

lemma clz_upper:
  fixes h l K M :: nat
  assumes "h * K < M * K" "l < M * K"
  shows "(h * (M * K) + l) * K < M * K * (M * K)"
proof -
  have K: "0 < K" and h: "h + 1 \<le> M" using assms(1) by (simp_all add: Suc_le_eq)
  have "(h * (M * K) + l) * K < (h * (M * K) + M * K) * K" using assms(2) K by simp
  also have "\<dots> = (h + 1) * (M * K * K)" by (simp add: algebra_simps)
  also have "\<dots> \<le> M * (M * K * K)" using h by (rule mult_le_mono1)
  also have "\<dots> = M * K * (M * K)" by (simp only: ac_simps)
  finally show ?thesis .
qed

lemma clz_lower:
  fixes h l K c B :: nat
  assumes "c \<le> h * K"
  shows "c * B \<le> (h * B + l) * K"
proof -
  have "c * B \<le> h * K * B" using assms by simp
  also have "\<dots> \<le> (h * B + l) * K" by (simp add: algebra_simps)
  finally show ?thesis .
qed

lemma clz64_nonzero:
  assumes "v \<noteq> 0"
  shows "0 \<le> clz64 v \<and> 2 ^ 63 \<le> unat v * 2 ^ nat (clz64 v) \<and> unat v * 2 ^ nat (clz64 v) < 2 ^ 64"
proof (cases "drop_bit 32 v = 0")
  case True
  then have "unat v div 2 ^ 32 = 0" using unat_drop_32 [of v] by simp
  then have l: "unat v < 2 ^ 32" by simp
  then have u: "unat (ucast v :: u32) = unat v" by (simp add: unat_ucast_32)
  then have "(ucast v :: u32) \<noteq> 0" using assms by (metis unat_eq_zero unsigned_0)
  note c = clz32_nonzero [OF this, unfolded u]
  have "clz64 v = 32 + clz32 (ucast v)" by (simp add: clz64_def True)
  with c show ?thesis by (simp add: nat_add_distrib power_add)
next
  case False
  let ?w = "ucast (drop_bit 32 v) :: u32"
  have hi: "unat ?w = unat v div 2 ^ 32"
    using unat_u64_less [of v] by (simp add: unat_ucast_32 unat_drop_32 less_mult_imp_div_less)
  have "?w \<noteq> 0" using False hi unat_drop_32 [of v] by (metis unat_eq_zero unsigned_0)
  note c = clz32_nonzero [OF this, unfolded hi]
  have e: "clz64 v = clz32 ?w" by (simp add: clz64_def False)
  let ?k = "nat (clz32 ?w)" and ?h = "unat v div 2 ^ 32" and ?l = "unat v mod 2 ^ 32"
  have "0 < unat ?w" using \<open>?w \<noteq> 0\<close> by (simp add: unat_gt_0)
  then have "0 < ?h" unfolding hi .
  then have "(2::nat) ^ ?k \<le> ?h * 2 ^ ?k" by simp
  also have "\<dots> < 2 ^ 32" using c by simp
  finally have "?k < 32" by (rule power_less_imp_less_exp [rotated]) simp
  then have B: "(2::nat) ^ 32 = 2 ^ (32 - ?k) * 2 ^ ?k" by (simp flip: power_add)
  have "(?h * 2 ^ 32 + ?l) * 2 ^ ?k < 2 ^ 32 * 2 ^ 32"
    unfolding B by (rule clz_upper) (use c in \<open>simp_all flip: B\<close>)
  moreover have "2 ^ 31 * 2 ^ 32 \<le> (?h * 2 ^ 32 + ?l) * 2 ^ ?k"
    by (rule clz_lower) (use c in simp)
  ultimately have "2 ^ 63 \<le> unat v * 2 ^ ?k" "unat v * 2 ^ ?k < 2 ^ 64"
    unfolding div_mult_mod_eq by simp_all
  with c e show ?thesis by simp
qed

lemma ctz64_nonzero:
  assumes "v \<noteq> 0"
  shows "0 \<le> ctz64 v \<and> 2 ^ nat (ctz64 v) dvd unat v \<and> odd (unat v div 2 ^ nat (ctz64 v))"
proof -
  let ?B = "2 ^ 32 :: nat"
  have lo: "unat (ucast v :: u32) = unat v mod ?B" by (rule unat_ucast_32)
  show ?thesis
  proof (cases "(ucast v :: u32) = 0")
    case True
    then have "unat v mod ?B = 0" using lo by simp
    then have v: "unat v = unat v div ?B * ?B" using div_mult_mod_eq [of "unat v" ?B] by simp
    let ?w = "ucast (drop_bit 32 v) :: u32"
    have hi: "unat ?w = unat v div ?B"
      using unat_u64_less [of v] by (simp add: unat_ucast_32 unat_drop_32 less_mult_imp_div_less)
    have "0 < unat v" using assms by (simp add: unat_gt_0)
    then have "?w \<noteq> 0" using v hi by (cases "?w = 0") simp_all
    from ctz32_nonzero [OF this] have c: "0 \<le> ctz32 ?w" "2 ^ nat (ctz32 ?w) dvd unat v div ?B"
      "odd (unat v div ?B div 2 ^ nat (ctz32 ?w))" unfolding hi by simp_all
    have e: "ctz64 v = 32 + ctz32 ?w" by (simp add: ctz64_def True)
    have "2 ^ nat (ctz64 v) = ?B * 2 ^ nat (ctz32 ?w)"
      unfolding e using c(1) by (simp add: nat_add_distrib power_add)
    moreover have "?B * 2 ^ nat (ctz32 ?w) dvd unat v"
      using c(2) by (subst v) (simp add: mult.commute mult_dvd_mono)
    ultimately show ?thesis using c(1,3) e by (simp add: div_mult2_eq)
  next
    case False
    have e: "ctz64 v = ctz32 (ucast v)" by (simp add: ctz64_def False)
    let ?k = "nat (ctz32 (ucast v))" and ?x = "unat v mod ?B"
    from ctz32_nonzero [OF False] have c: "0 \<le> ctz32 (ucast v)" "2 ^ ?k dvd ?x" "odd (?x div 2 ^ ?k)"
      unfolding lo by simp_all
    obtain q where q: "?x = 2 ^ ?k * q" using c(2) by (rule dvdE)
    have "0 < q" "odd q" using c(3) q by (simp_all add: odd_pos)
    then have "2 ^ ?k \<le> ?x" unfolding q by simp
    also have "?x < ?B" by simp
    finally have "?k < 32" by (rule power_less_imp_less_exp [rotated]) simp
    then have B: "?B = 2 ^ ?k * (2 * 2 ^ (31 - ?k))" by (simp flip: power_add power_Suc)
    have "unat v = unat v div ?B * ?B + ?x" by simp
    also have "\<dots> = 2 ^ ?k * (2 * (2 ^ (31 - ?k) * (unat v div ?B)) + q)"
      unfolding q by (subst (2) B) (simp only: distrib_left ac_simps)
    finally have "unat v = 2 ^ ?k * (2 * (2 ^ (31 - ?k) * (unat v div ?B)) + q)" .
    then have "2 ^ ?k dvd unat v" "unat v div 2 ^ ?k = 2 * (2 ^ (31 - ?k) * (unat v div ?B)) + q"
      by (metis dvd_triv_left, metis nonzero_mult_div_cancel_left power_not_zero zero_neq_numeral)
    with c(1) \<open>odd q\<close> show ?thesis unfolding e by simp
  qed
qed

section \<open>Counting the set bits\<close>

text \<open>
  A step of the bit counters adds neighbouring \<open>k\<close>-bit digits in parallel. \<open>pmask k n\<close> is its mask
  (\<open>n\<close> digits of \<open>k\<close> ones), \<open>psum k n\<close> what it computes, and \<open>dsum k n\<close> the sum of the \<open>n\<close> lowest
  \<open>k\<close>-bit digits, which it preserves.
\<close>

fun pmask :: "nat \<Rightarrow> nat \<Rightarrow> nat" where
  "pmask k 0 = 0"
| "pmask k (Suc n) = (2 ^ k - 1) + 2 ^ (2 * k) * pmask k n"

fun psum :: "nat \<Rightarrow> nat \<Rightarrow> nat \<Rightarrow> nat" where
  "psum k 0 x = 0"
| "psum k (Suc n) x = (x mod 2 ^ k + x div 2 ^ k mod 2 ^ k) + 2 ^ (2 * k) * psum k n (x div 2 ^ (2 * k))"

fun dsum :: "nat \<Rightarrow> nat \<Rightarrow> nat \<Rightarrow> nat" where
  "dsum k 0 x = 0"
| "dsum k (Suc n) x = x mod 2 ^ k + dsum k n (x div 2 ^ k)"

lemma bit_split: "a < 2 ^ p \<Longrightarrow> bit (a + 2 ^ p * b) i = (if i < p then bit a i else bit b (i - p))" for a b :: nat
proof -
  assume "a < 2 ^ p"
  then have a: "take_bit p a = a" by (simp add: take_bit_nat_eq_self)
  then have na: "bit a i \<Longrightarrow> i < p" for i using bit_take_bit_iff [of p a i] by simp
  have "a AND push_bit p b = 0"
    by (rule bit_eqI) (auto simp: bit_simps dest!: na)
  then have "a + 2 ^ p * b = a OR push_bit p b"
    by (simp add: disjunctive_add_eq_or push_bit_eq_mult mult.commute)
  then show ?thesis by (auto simp: bit_simps dest!: na)
qed

lemma and_split:
  "a < 2 ^ p \<Longrightarrow> c < 2 ^ p \<Longrightarrow> (a + 2 ^ p * b) AND (c + 2 ^ p * d) = (a AND c) + 2 ^ p * (b AND d)"
  for a b c d :: nat
proof -
  assume ac: "a < 2 ^ p" "c < 2 ^ p"
  then have "take_bit p (a AND c) = a AND c" by (simp add: take_bit_nat_eq_self take_bit_and)
  then have "a AND c < 2 ^ p" by (simp only: take_bit_nat_eq_self_iff)
  then show ?thesis
    using ac by (intro bit_eqI) (simp add: bit_split bit_and_iff)
qed

lemma and_ones: "x AND (2 ^ k - 1) = x mod 2 ^ k" for x :: nat
  using take_bit_eq_mask [of k x] by (simp add: take_bit_eq_mod mask_eq_exp_minus_1)

lemma and_pmask: "x AND pmask k (Suc n) = x mod 2 ^ k + 2 ^ (2 * k) * (x div 2 ^ (2 * k) AND pmask k n)"
proof -
  let ?q = "2 ^ (2 * k) :: nat"
  have "(2 ^ k - 1 :: nat) < ?q"
    by (rule less_le_trans [of _ "2 ^ k"]) (simp_all add: power_increasing)
  then have "(x mod ?q + ?q * (x div ?q)) AND pmask k (Suc n)
      = (x mod ?q AND (2 ^ k - 1)) + ?q * (x div ?q AND pmask k n)"
    unfolding pmask.simps by (intro and_split) simp_all
  moreover have "x mod ?q AND (2 ^ k - 1) = x mod 2 ^ k"
    unfolding and_ones by (simp add: mod_mod_cancel le_imp_power_dvd)
  ultimately show ?thesis by simp
qed

lemma psum_eq: "(x AND pmask k n) + (x div 2 ^ k AND pmask k n) = psum k n x"
proof (induction n arbitrary: x)
  case (Suc n)
  have d: "x div 2 ^ k div 2 ^ (2 * k) = x div 2 ^ (2 * k) div 2 ^ k"
    by (simp add: div_mult2_eq [symmetric] mult.commute)
  show ?case
    unfolding and_pmask d psum.simps Suc.IH [symmetric] by (simp add: algebra_simps)
qed simp

lemma digit_pair: "x mod 2 ^ k + y mod 2 ^ k < 2 ^ (2 * k)" if "0 < k" for x y k :: nat
proof -
  have "2 \<le> (2 :: nat) ^ k" using that by (cases k) simp_all
  then have "(2 :: nat) ^ k + 2 ^ k \<le> 2 ^ k * 2 ^ k" by (metis mult_2 mult_le_mono1)
  moreover have "x mod 2 ^ k + y mod 2 ^ k < 2 ^ k + 2 ^ k" by (intro add_strict_mono) simp_all
  ultimately show ?thesis by (simp only: mult_2 power_add)
qed

lemma dsum_psum: "0 < k \<Longrightarrow> dsum (2 * k) n (psum k n x) = dsum k (2 * n) x"
proof (induction n arbitrary: x)
  case (Suc n)
  have p: "psum k (Suc n) x mod 2 ^ (2 * k) = x mod 2 ^ k + x div 2 ^ k mod 2 ^ k"
    "psum k (Suc n) x div 2 ^ (2 * k) = psum k n (x div 2 ^ (2 * k))"
    using digit_pair [OF Suc.prems, of x "x div 2 ^ k"] by simp_all
  have "x div 2 ^ k div 2 ^ k = x div 2 ^ (2 * k)" by (simp add: div_mult2_eq [symmetric] mult_2 power_add)
  then show ?case unfolding dsum.simps(2) [of "2 * k"] p using Suc by simp
qed simp

lemma psum_bound: "0 < k \<Longrightarrow> psum k n x < 2 ^ (2 * k * n)"
proof (induction n arbitrary: x)
  case (Suc n)
  let ?s = "x mod 2 ^ k + x div 2 ^ k mod 2 ^ k" and ?r = "psum k n (x div 2 ^ (2 * k))"
  have "?s + 2 ^ (2 * k) * ?r < 2 ^ (2 * k) + 2 ^ (2 * k) * ?r"
    using digit_pair [OF Suc.prems, of x "x div 2 ^ k"] by simp
  also have "\<dots> = 2 ^ (2 * k) * (?r + 1)" by simp
  also have "\<dots> \<le> 2 ^ (2 * k) * 2 ^ (2 * k * n)"
    using Suc.IH [OF Suc.prems, of "x div 2 ^ (2 * k)"] by (intro mult_le_mono2) simp
  also have "\<dots> = 2 ^ (2 * k * Suc n)" by (simp add: power_add)
  finally show ?case by simp
qed simp

definition popcount :: "'a::len word \<Rightarrow> nat" where
  "popcount v = length (filter (bit v) [0..<LENGTH('a)])"

lemma dsum_1: "dsum 1 n x = length (filter (bit x) [0..<n])" for x :: nat
proof (induction n arbitrary: x)
  case (Suc n)
  have "[0..<Suc n] = 0 # map Suc [0..<n]" by (simp add: map_Suc_upt upt_conv_Cons)
  then have "length (filter (bit x) [0..<Suc n]) = of_bool (odd x) + length (filter (\<lambda>i. bit (x div 2) i) [0..<n])"
    by (simp add: filter_map comp_def bit_Suc bit_0)
  then show ?case using Suc.IH [of "x div 2"] by (simp add: mod_2_eq_odd)
qed simp

lemma popcount_dsum: "popcount v = dsum 1 LENGTH('a) (unat v)" for v :: "'a::len word"
proof -
  have "filter (bit v) [0..<LENGTH('a)] = filter (bit (unat v)) [0..<LENGTH('a)]"
    by (rule filter_cong) (simp_all add: bit_unsigned_iff)
  then show ?thesis by (simp only: popcount_def dsum_1)
qed

text \<open>One step of a counter, on words.\<close>

lemma pop_step:
  fixes v m :: "'a::len word"
  assumes "unat m = pmask k n" "0 < k" "2 * k * n = LENGTH('a)"
  shows "unat ((v AND m) + (drop_bit k v AND m)) = psum k n (unat v)"
proof -
  have d: "unat (drop_bit k v) = unat v div 2 ^ k"
    by (subst unat_drop_bit_eq) (simp only: drop_bit_eq_div)
  have "unat (v AND m) + unat (drop_bit k v AND m) = psum k n (unat v)"
    unfolding unsigned_and_eq d assms(1) by (rule psum_eq)
  with psum_bound [OF assms(2), of n "unat v"] assms(3) show ?thesis
    by (simp add: unat_word_ariths)
qed

lemma pmask_closed: "pmask k n * (2 ^ k + 1) + 1 = 2 ^ (2 * k * n)"
proof (induction n)
  case (Suc n)
  obtain t where t: "(2::nat) ^ k = t + 1" by (metis add.commute le_Suc_ex one_le_numeral one_le_power plus_1_eq_Suc One_nat_def)
  have "pmask k (Suc n) * (2 ^ k + 1) + 1
      = t * (t + 2) + 2 ^ (2 * k) * (pmask k n * (2 ^ k + 1)) + 1"
    by (simp add: t algebra_simps)
  also have "t * (t + 2) + 1 = (2::nat) ^ (2 * k)" by (simp add: t power_add mult_2)
  then have "t * (t + 2) + 2 ^ (2 * k) * (pmask k n * (2 ^ k + 1)) + 1
      = 2 ^ (2 * k) * (pmask k n * (2 ^ k + 1) + 1)" by simp
  also have "\<dots> = 2 ^ (2 * k * Suc n)" unfolding Suc.IH by (simp add: power_add)
  finally show ?case .
qed simp

lemma pmask_eqI:
  assumes "m * (2 ^ k + 1) + 1 = 2 ^ (2 * k * n)"
  shows "m = pmask k n"
proof -
  have "m * (2 ^ k + 1) = pmask k n * (2 ^ k + 1)"
    using assms unfolding pmask_closed [of k n, symmetric] by (rule add_right_imp_eq)
  then show ?thesis by (simp only: mult_cancel2) simp
qed

lemma pmask_values:
  "unat (0x55 :: u8) = pmask 1 4" "unat (0x33 :: u8) = pmask 2 2" "unat (0x0f :: u8) = pmask 4 1"
  "unat (0x5555 :: u16) = pmask 1 8" "unat (0x3333 :: u16) = pmask 2 4" "unat (0x0f0f :: u16) = pmask 4 2"
  "unat (0x00ff :: u16) = pmask 8 1"
  "unat (0x55555555 :: u32) = pmask 1 16" "unat (0x33333333 :: u32) = pmask 2 8"
  "unat (0x0f0f0f0f :: u32) = pmask 4 4" "unat (0x00ff00ff :: u32) = pmask 8 2"
  "unat (0x0000ffff :: u32) = pmask 16 1"
  "unat (0x5555555555555555 :: u64) = pmask 1 32" "unat (0x3333333333333333 :: u64) = pmask 2 16"
  "unat (0x0f0f0f0f0f0f0f0f :: u64) = pmask 4 8" "unat (0x00ff00ff00ff00ff :: u64) = pmask 8 4"
  "unat (0x0000ffff0000ffff :: u64) = pmask 16 2" "unat (0x00000000ffffffff :: u64) = pmask 32 1"
  by (rule pmask_eqI; simp)+

text \<open>A step keeps the digit sum, now of digits twice as wide.\<close>

lemma pop_step_dsum:
  fixes v m :: "'a::len word"
  assumes "unat m = pmask k n" "0 < k" "2 * k * n = LENGTH('a)"
  shows "dsum (2 * k) n (unat ((v AND m) + (drop_bit k v AND m))) = dsum k (2 * n) (unat v)"
  unfolding pop_step [OF assms] using assms(2) by (rule dsum_psum)

declare dsum.simps [simp del]

lemma dsum_whole: "dsum LENGTH('a) 1 (unat w) = unat w" for w :: "'a::len word"
  by (simp add: dsum.simps)

lemma ctpop8_popcount: "ctpop8 v = int (popcount v)"
proof -
  define f where "f k m x = (x AND m) + (drop_bit k x AND m)" for k and m x :: u8
  have "dsum 2 4 (unat (f 1 0x55 x)) = dsum 1 8 (unat x)"
    "dsum 4 2 (unat (f 2 0x33 x)) = dsum 2 4 (unat x)"
    "dsum 8 1 (unat (f 4 0x0f x)) = dsum 4 2 (unat x)" for x
    unfolding f_def
    using pop_step_dsum [OF pmask_values(1), of x]
      pop_step_dsum [OF pmask_values(2), of x]
      pop_step_dsum [OF pmask_values(3), of x]
    by simp_all
  then have "dsum 8 1 (unat (f 4 0x0f (f 2 0x33 (f 1 0x55 v)))) = dsum 1 8 (unat v)"
    by (simp only:)
  then have "unat (f 4 0x0f (f 2 0x33 (f 1 0x55 v))) = popcount v"
    using dsum_whole [where 'a = 8] by (simp add: popcount_dsum)
  moreover have "ctpop8 v = uint (f 4 0x0f (f 2 0x33 (f 1 0x55 v)))" by (simp only: ctpop8_def Let_def f_def)
  ultimately show ?thesis by (simp only: uint_nat)
qed

lemma ctpop16_popcount: "ctpop16 v = int (popcount v)"
proof -
  define f where "f k m x = (x AND m) + (drop_bit k x AND m)" for k and m x :: u16
  have "dsum 2 8 (unat (f 1 0x5555 x)) = dsum 1 16 (unat x)"
    "dsum 4 4 (unat (f 2 0x3333 x)) = dsum 2 8 (unat x)"
    "dsum 8 2 (unat (f 4 0x0f0f x)) = dsum 4 4 (unat x)"
    "dsum 16 1 (unat (f 8 0x00ff x)) = dsum 8 2 (unat x)" for x
    unfolding f_def
    using pop_step_dsum [OF pmask_values(4), of x]
      pop_step_dsum [OF pmask_values(5), of x]
      pop_step_dsum [OF pmask_values(6), of x]
      pop_step_dsum [OF pmask_values(7), of x]
    by simp_all
  then have "dsum 16 1 (unat (f 8 0x00ff (f 4 0x0f0f (f 2 0x3333 (f 1 0x5555 v))))) = dsum 1 16 (unat v)"
    by (simp only:)
  then have "unat (f 8 0x00ff (f 4 0x0f0f (f 2 0x3333 (f 1 0x5555 v)))) = popcount v"
    using dsum_whole [where 'a = 16] by (simp add: popcount_dsum)
  moreover have "ctpop16 v = uint (f 8 0x00ff (f 4 0x0f0f (f 2 0x3333 (f 1 0x5555 v))))" by (simp only: ctpop16_def Let_def f_def)
  ultimately show ?thesis by (simp only: uint_nat)
qed

lemma ctpop32_popcount: "ctpop32 v = int (popcount v)"
proof -
  define f where "f k m x = (x AND m) + (drop_bit k x AND m)" for k and m x :: u32
  have "dsum 2 16 (unat (f 1 0x55555555 x)) = dsum 1 32 (unat x)"
    "dsum 4 8 (unat (f 2 0x33333333 x)) = dsum 2 16 (unat x)"
    "dsum 8 4 (unat (f 4 0x0f0f0f0f x)) = dsum 4 8 (unat x)"
    "dsum 16 2 (unat (f 8 0x00ff00ff x)) = dsum 8 4 (unat x)"
    "dsum 32 1 (unat (f 16 0x0000ffff x)) = dsum 16 2 (unat x)" for x
    unfolding f_def
    using pop_step_dsum [OF pmask_values(8), of x]
      pop_step_dsum [OF pmask_values(9), of x]
      pop_step_dsum [OF pmask_values(10), of x]
      pop_step_dsum [OF pmask_values(11), of x]
      pop_step_dsum [OF pmask_values(12), of x]
    by simp_all
  then have "dsum 32 1 (unat (f 16 0x0000ffff (f 8 0x00ff00ff (f 4 0x0f0f0f0f (f 2 0x33333333 (f 1 0x55555555 v)))))) = dsum 1 32 (unat v)"
    by (simp only:)
  then have "unat (f 16 0x0000ffff (f 8 0x00ff00ff (f 4 0x0f0f0f0f (f 2 0x33333333 (f 1 0x55555555 v))))) = popcount v"
    using dsum_whole [where 'a = 32] by (simp add: popcount_dsum)
  moreover have "ctpop32 v = uint (f 16 0x0000ffff (f 8 0x00ff00ff (f 4 0x0f0f0f0f (f 2 0x33333333 (f 1 0x55555555 v)))))" by (simp only: ctpop32_def Let_def f_def)
  ultimately show ?thesis by (simp only: uint_nat)
qed

lemma ctpop64_popcount: "ctpop64 v = int (popcount v)"
proof -
  define f where "f k m x = (x AND m) + (drop_bit k x AND m)" for k and m x :: u64
  have "dsum 2 32 (unat (f 1 0x5555555555555555 x)) = dsum 1 64 (unat x)"
    "dsum 4 16 (unat (f 2 0x3333333333333333 x)) = dsum 2 32 (unat x)"
    "dsum 8 8 (unat (f 4 0x0f0f0f0f0f0f0f0f x)) = dsum 4 16 (unat x)"
    "dsum 16 4 (unat (f 8 0x00ff00ff00ff00ff x)) = dsum 8 8 (unat x)"
    "dsum 32 2 (unat (f 16 0x0000ffff0000ffff x)) = dsum 16 4 (unat x)"
    "dsum 64 1 (unat (f 32 0x00000000ffffffff x)) = dsum 32 2 (unat x)" for x
    unfolding f_def
    using pop_step_dsum [OF pmask_values(13), of x]
      pop_step_dsum [OF pmask_values(14), of x]
      pop_step_dsum [OF pmask_values(15), of x]
      pop_step_dsum [OF pmask_values(16), of x]
      pop_step_dsum [OF pmask_values(17), of x]
      pop_step_dsum [OF pmask_values(18), of x]
    by simp_all
  then have "dsum 64 1 (unat (f 32 0x00000000ffffffff (f 16 0x0000ffff0000ffff (f 8 0x00ff00ff00ff00ff (f 4 0x0f0f0f0f0f0f0f0f (f 2 0x3333333333333333 (f 1 0x5555555555555555 v))))))) = dsum 1 64 (unat v)"
    by (simp only:)
  then have "unat (f 32 0x00000000ffffffff (f 16 0x0000ffff0000ffff (f 8 0x00ff00ff00ff00ff (f 4 0x0f0f0f0f0f0f0f0f (f 2 0x3333333333333333 (f 1 0x5555555555555555 v)))))) = popcount v"
    using dsum_whole [where 'a = 64] by (simp add: popcount_dsum)
  moreover have "ctpop64 v = uint (f 32 0x00000000ffffffff (f 16 0x0000ffff0000ffff (f 8 0x00ff00ff00ff00ff (f 4 0x0f0f0f0f0f0f0f0f (f 2 0x3333333333333333 (f 1 0x5555555555555555 v))))))" by (simp only: ctpop64_def Let_def f_def)
  ultimately show ?thesis by (simp only: uint_nat)
qed

text \<open>
  The bit counters agree with their meaning. The four population counts, computed by parallel
  additions, count the set bits. For a non-zero word, \<open>clz\<close> is the shift that brings its highest
  bit to the top, and \<open>ctz\<close> the power of two it is divisible by with an odd quotient; for zero both
  return the width.
\<close>

theorem bit_counters_correct:
  "ctpop8 a = int (popcount a) \<and> ctpop16 b = int (popcount b)
   \<and> ctpop32 v = int (popcount v) \<and> ctpop64 w = int (popcount w)
   \<and> (if v = 0 then clz32 v = 32 \<and> ctz32 v = 32
      else 2 ^ 31 \<le> unat v * 2 ^ nat (clz32 v) \<and> unat v * 2 ^ nat (clz32 v) < 2 ^ 32
        \<and> 2 ^ nat (ctz32 v) dvd unat v \<and> odd (unat v div 2 ^ nat (ctz32 v)))
   \<and> (if w = 0 then clz64 w = 64 \<and> ctz64 w = 64
      else 2 ^ 63 \<le> unat w * 2 ^ nat (clz64 w) \<and> unat w * 2 ^ nat (clz64 w) < 2 ^ 64
        \<and> 2 ^ nat (ctz64 w) dvd unat w \<and> odd (unat w div 2 ^ nat (ctz64 w)))"
proof -
  have "clz64 0 = 64" "ctz64 0 = 64" by (simp_all add: clz64_def ctz64_def)
  then show ?thesis
    using clz32_nonzero [of v] ctz32_nonzero [of v] clz64_nonzero [of w] ctz64_nonzero [of w]
    by (cases "v = 0"; cases "w = 0")
       (simp_all add: ctpop8_popcount ctpop16_popcount ctpop32_popcount ctpop64_popcount)
qed

end
