(* ===== verification/Pit.thy ===== *)
theory Pit
  imports Irq HostUtils
begin

text \<open>
  The 8254 interval timer, \<open>hw/i8254.c\<close>. Times are \<open>int64_t\<close> nanoseconds of the virtual clock, kept
  as 64-bit words; an operation that reads the clock takes its reading \<open>now\<close>. A channel's
  \<open>irq_timer\<close> is \<open>None\<close> when the channel has none (the NULL pointer of channels 1 and 2), and
  otherwise holds the time it is armed for, if any. An index outside the three channels is \<open>None\<close>.
\<close>

record PITChannelState =
  count :: int
  latched_count :: u16
  count_latched :: u8
  status_latched :: u8
  status :: u8
  read_state :: u8
  write_state :: u8
  write_latch :: u8
  rw_mode :: u8
  mode :: u8
  bcd :: u8
  gate :: u8
  count_load_time :: u64
  next_transition_time :: u64
  irq_timer :: "u64 option option"
  chan_irq :: irq_line

record PITState =
  channels :: "PITChannelState list"

definition PIT_FREQ :: u32 where "PIT_FREQ = 1193182"
definition ticks_per_sec :: u32 where "ticks_per_sec = 1000000000"

definition RW_STATE_LSB :: u8 where "RW_STATE_LSB = 1"
definition RW_STATE_MSB :: u8 where "RW_STATE_MSB = 2"
definition RW_STATE_WORD0 :: u8 where "RW_STATE_WORD0 = 3"
definition RW_STATE_WORD1 :: u8 where "RW_STATE_WORD1 = 4"

abbreviation count64 :: "PITChannelState \<Rightarrow> u64" where
  "count64 s \<equiv> word_of_int (count s)"

text \<open>The C conversion of a \<open>uint64_t\<close> to \<open>int\<close>.\<close>

definition to_int :: "u64 \<Rightarrow> int" where
  "to_int x = sint (ucast x :: u32)"

definition pit_ticks :: "PITChannelState \<Rightarrow> u64 \<Rightarrow> u64" where
  "pit_ticks s current_time = muldiv64 (current_time - count_load_time s) PIT_FREQ ticks_per_sec"

definition pit_get_count :: "u64 \<Rightarrow> PITChannelState \<Rightarrow> int" where
  "pit_get_count now s =
     (let d = pit_ticks s now in
      if mode s = 0 \<or> mode s = 1 \<or> mode s = 4 \<or> mode s = 5 then to_int ((count64 s - d) AND 0xffff)
      else if mode s = 3 then to_int (count64 s - ((2 * d) mod count64 s))
      else to_int (count64 s - (d mod count64 s)))"

definition pit_get_out1 :: "PITChannelState \<Rightarrow> u64 \<Rightarrow> int" where
  "pit_get_out1 s current_time =
     (let d = pit_ticks s current_time in
      if mode s = 1 then of_bool (d < count64 s)
      else if mode s = 2 then (if d mod count64 s = 0 \<and> d \<noteq> 0 then 1 else 0)
      else if mode s = 3 then of_bool (d mod count64 s < word_of_int ((count s + 1) div 2))
      else if mode s = 4 \<or> mode s = 5 then of_bool (d = count64 s)
      else of_bool (d \<ge> count64 s))"

definition pit_get_out :: "PITState \<Rightarrow> nat \<Rightarrow> u64 \<Rightarrow> int" where
  "pit_get_out pit channel current_time = pit_get_out1 (channels pit ! channel) current_time"

text \<open>The tick of the next transition, if any, then its time.\<close>

definition pit_next_ticks :: "PITChannelState \<Rightarrow> u64 \<Rightarrow> u64 option" where
  "pit_next_ticks s d =
     (if mode s = 2 then
        (let base = (d div count64 s) * count64 s
         in Some (if d - base = 0 \<and> d \<noteq> 0 then base + count64 s else base + count64 s + 1))
      else if mode s = 3 then
        (let base = (d div count64 s) * count64 s;
             period2 = word_of_int ((count s + 1) div 2)
         in Some (if d - base < period2 then base + period2 else base + count64 s))
      else if mode s = 4 \<or> mode s = 5 then
        (if d < count64 s then Some (count64 s)
         else if d = count64 s then Some (count64 s + 1)
         else None)
      else (if d < count64 s then Some (count64 s) else None))"

definition pit_get_next_transition_time :: "PITChannelState \<Rightarrow> u64 \<Rightarrow> u64" where
  "pit_get_next_transition_time s current_time =
     (let d = pit_ticks s current_time
      in case pit_next_ticks s d of
           None \<Rightarrow> -1
         | Some next_time \<Rightarrow>
             (let next_time = count_load_time s + muldiv64 next_time ticks_per_sec PIT_FREQ
              in if next_time \<le> current_time then current_time + 1 else next_time))"

definition pit_irq_timer_update :: "PITChannelState \<Rightarrow> u64 \<Rightarrow> PITChannelState" where
  "pit_irq_timer_update s current_time =
     (case irq_timer s of
        None \<Rightarrow> s
      | Some _ \<Rightarrow>
         (let expire_time = pit_get_next_transition_time s current_time;
              irq_level = pit_get_out1 s current_time;
              s = s\<lparr>chan_irq := set_line irq_level (chan_irq s)\<rparr>;
              s = s\<lparr>next_transition_time := expire_time\<rparr>
          in if expire_time \<noteq> -1 then s\<lparr>irq_timer := Some (Some expire_time)\<rparr>
             else s\<lparr>irq_timer := Some None\<rparr>))"

definition pit_irq_timer :: "PITChannelState \<Rightarrow> PITChannelState" where
  "pit_irq_timer s = pit_irq_timer_update s (next_transition_time s)"

definition upd_channel :: "PITState \<Rightarrow> nat \<Rightarrow> (PITChannelState \<Rightarrow> PITChannelState) \<Rightarrow> PITState" where
  "upd_channel pit i f = pit\<lparr>channels := (channels pit)[i := f (channels pit ! i)]\<rparr>"

definition pit_chan_set_gate :: "u64 \<Rightarrow> int \<Rightarrow> PITChannelState \<Rightarrow> PITChannelState" where
  "pit_chan_set_gate now val s =
     (let s = (if (mode s = 1 \<or> mode s = 5 \<or> mode s = 2 \<or> mode s = 3) \<and> uint (gate s) < val then
                 (let s = s\<lparr>count_load_time := now\<rparr> in pit_irq_timer_update s (count_load_time s))
               else s)
      in s\<lparr>gate := word_of_int val\<rparr>)"

definition pit_set_gate :: "u64 \<Rightarrow> PITState \<Rightarrow> nat \<Rightarrow> int \<Rightarrow> PITState" where
  "pit_set_gate now pit channel val = upd_channel pit channel (pit_chan_set_gate now val)"

definition pit_get_gate :: "PITState \<Rightarrow> nat \<Rightarrow> int" where
  "pit_get_gate pit channel = uint (gate (channels pit ! channel))"

definition pit_get_initial_count :: "PITState \<Rightarrow> nat \<Rightarrow> int" where
  "pit_get_initial_count pit channel = count (channels pit ! channel)"

definition pit_get_mode :: "PITState \<Rightarrow> nat \<Rightarrow> int" where
  "pit_get_mode pit channel = uint (mode (channels pit ! channel))"

definition pit_load_count :: "u64 \<Rightarrow> int \<Rightarrow> PITChannelState \<Rightarrow> PITChannelState" where
  "pit_load_count now val s =
     (let val = (if val = 0 then 0x10000 else val);
          s = s\<lparr>count_load_time := now\<rparr>;
          s = s\<lparr>count := val\<rparr>
      in pit_irq_timer_update s (count_load_time s))"

definition pit_latch_count :: "u64 \<Rightarrow> PITChannelState \<Rightarrow> PITChannelState" where
  "pit_latch_count now s =
     (if count_latched s = 0
      then s\<lparr>latched_count := word_of_int (pit_get_count now s), count_latched := rw_mode s\<rparr>
      else s)"

text \<open>The read-back command for one channel, then the two halves of \<open>pit_ioport_write\<close>.\<close>

definition pit_read_back :: "u64 \<Rightarrow> u32 \<Rightarrow> PITChannelState \<Rightarrow> PITChannelState" where
  "pit_read_back now val s =
     (let s = (if val AND 0x20 = 0 then pit_latch_count now s else s)
      in if val AND 0x10 = 0 \<and> status_latched s = 0
         then s\<lparr>status := word_of_int (push_bit 7 (pit_get_out1 s now) OR push_bit 4 (uint (rw_mode s))
                   OR push_bit 1 (uint (mode s)) OR uint (bcd s)),
                status_latched := 1\<rparr>
         else s)"

definition pit_write_control :: "u64 \<Rightarrow> PITState \<Rightarrow> u32 \<Rightarrow> PITState option" where
  "pit_write_control now pit val =
     (let channel = unat (drop_bit 6 val) in
      if channel = 3 then
        Some (foldl (\<lambda>pit channel. if val AND push_bit channel 2 \<noteq> 0
                                   then upd_channel pit channel (pit_read_back now val) else pit)
                    pit [0, 1, 2])
      else if channel < 3 then
        (let access = ucast (drop_bit 4 val AND 3)
         in Some (upd_channel pit channel (\<lambda>s.
              if access = 0 then pit_latch_count now s
              else s\<lparr>rw_mode := access, read_state := access, write_state := access,
                     mode := ucast (drop_bit 1 val AND 7), bcd := ucast (val AND 1)\<rparr>)))
      else None)"

definition pit_write_counter :: "u64 \<Rightarrow> u32 \<Rightarrow> PITChannelState \<Rightarrow> PITChannelState" where
  "pit_write_counter now val s =
     (if write_state s = RW_STATE_MSB then pit_load_count now (sint (push_bit 8 val)) s
      else if write_state s = RW_STATE_WORD0 then
        s\<lparr>write_latch := ucast val, write_state := RW_STATE_WORD1\<rparr>
      else if write_state s = RW_STATE_WORD1 then
        (pit_load_count now (sint (ucast (write_latch s) OR push_bit 8 val)) s)\<lparr>write_state := RW_STATE_WORD0\<rparr>
      else pit_load_count now (sint val) s)"

definition pit_ioport_write :: "u64 \<Rightarrow> PITState \<Rightarrow> u32 \<Rightarrow> u32 \<Rightarrow> PITState option" where
  "pit_ioport_write now pit addr val =
     (let addr = addr AND 3 in
      if addr = 3 then pit_write_control now pit val
      else Some (upd_channel pit (unat addr) (pit_write_counter now val)))"

definition pit_read_channel :: "u64 \<Rightarrow> PITChannelState \<Rightarrow> int \<times> PITChannelState" where
  "pit_read_channel now s =
     (if status_latched s \<noteq> 0 then (uint (status s), s\<lparr>status_latched := 0\<rparr>)
      else if count_latched s \<noteq> 0 then
        (if count_latched s = RW_STATE_MSB then
           (uint (drop_bit 8 (latched_count s)), s\<lparr>count_latched := 0\<rparr>)
         else if count_latched s = RW_STATE_WORD0 then
           (uint (latched_count s AND 0xff), s\<lparr>count_latched := RW_STATE_MSB\<rparr>)
         else (uint (latched_count s AND 0xff), s\<lparr>count_latched := 0\<rparr>))
      else
        (let cnt = pit_get_count now s in
         if read_state s = RW_STATE_MSB then (drop_bit 8 cnt AND 0xff, s)
         else if read_state s = RW_STATE_WORD0 then (cnt AND 0xff, s\<lparr>read_state := RW_STATE_WORD1\<rparr>)
         else if read_state s = RW_STATE_WORD1 then
           (drop_bit 8 cnt AND 0xff, s\<lparr>read_state := RW_STATE_WORD0\<rparr>)
         else (cnt AND 0xff, s)))"

definition pit_ioport_read :: "u64 \<Rightarrow> PITState \<Rightarrow> u32 \<Rightarrow> (u32 \<times> PITState) option" where
  "pit_ioport_read now pit addr =
     (let i = unat (addr AND 3) in
      if i < 3 then
        (case pit_read_channel now (channels pit ! i) of
           (ret, s) \<Rightarrow> Some (word_of_int ret, pit\<lparr>channels := (channels pit)[i := s]\<rparr>))
      else None)"

definition pit_reset :: "u64 \<Rightarrow> PITState \<Rightarrow> PITState" where
  "pit_reset now pit =
     foldl (\<lambda>pit i. upd_channel pit i (\<lambda>s. pit_load_count now 0 (s\<lparr>mode := 3, gate := of_bool (i \<noteq> 2)\<rparr>)))
       pit [0, 1, 2]"

definition pit_zero :: PITChannelState where
  "pit_zero = \<lparr>count = 0, latched_count = 0, count_latched = 0, status_latched = 0, status = 0,
     read_state = 0, write_state = 0, write_latch = 0, rw_mode = 0, mode = 0, bcd = 0, gate = 0,
     count_load_time = 0, next_transition_time = 0, irq_timer = None, chan_irq = []\<rparr>"

definition pit_initfn :: PITState where
  "pit_initfn = \<lparr>channels = [pit_zero\<lparr>irq_timer := Some None\<rparr>, pit_zero, pit_zero]\<rparr>"

text \<open>
  The two HPET hooks act on the file's static \<open>pit_state\<close>, which is zero-initialised memory and not
  the device that \<open>pit_init\<close> creates; a world has both.
\<close>

record PITWorld =
  pit_dev :: PITState
  pit_state :: PITState

definition hpet_pit_disable :: "PITWorld \<Rightarrow> PITWorld" where
  "hpet_pit_disable w =
     w\<lparr>pit_state := upd_channel (pit_state w) 0
         (\<lambda>s. if irq_timer s = None then s else s\<lparr>irq_timer := Some None\<rparr>)\<rparr>"

definition hpet_pit_enable :: "u64 \<Rightarrow> PITWorld \<Rightarrow> PITWorld" where
  "hpet_pit_enable now w =
     w\<lparr>pit_state := upd_channel (pit_state w) 0 (\<lambda>s. pit_load_count now 0 (s\<lparr>mode := 3, gate := 1\<rparr>))\<rparr>"

definition pit_world :: PITWorld where
  "pit_world = \<lparr>pit_dev = pit_initfn, pit_state = \<lparr>channels = [pit_zero, pit_zero, pit_zero]\<rparr>\<rparr>"

section \<open>Ticks and nanoseconds\<close>

lemma ticks_nat: "unat (pit_ticks s t) = unat (t - count_load_time s) * 1193182 div 1000000000"
proof -
  let ?T = "unat (t - count_load_time s)"
  have "?T * 1193182 div 1000000000 \<le> ?T" by simp
  also have "?T < 2 ^ 64" by (rule unat_u64_less)
  finally show ?thesis
    by (simp add: pit_ticks_def muldiv64_nat PIT_FREQ_def ticks_per_sec_def)
qed

lemma elapsed: "unat l \<le> unat t \<Longrightarrow> unat (t - l) = unat t - unat l" for t l :: u64
  by (simp add: unat_sub word_le_nat_alt)

text \<open>
  Rounding: before the nanosecond a tick is converted to, the tick has not been reached; one
  nanosecond after it, it has.
\<close>

lemma before_tick: "T < n * G div f \<Longrightarrow> T * f div G < n" for T n G f :: nat
proof -
  assume "T < n * G div f"
  then have f: "0 < f" by (cases f) simp_all
  from \<open>T < n * G div f\<close> have "(T + 1) * f \<le> n * G div f * f" by (intro mult_le_mono1) simp
  also have "\<dots> \<le> n * G" by (rule div_times_less_eq_dividend)
  finally have "T * f < n * G" using f by simp
  then show ?thesis by (simp add: less_mult_imp_div_less)
qed

lemma after_tick: "n * G div f < T \<Longrightarrow> 0 < f \<Longrightarrow> 0 < G \<Longrightarrow> n \<le> T * f div G" for T n G f :: nat
proof -
  assume a: "n * G div f < T" "0 < f" "0 < G"
  have "n * G < (n * G div f + 1) * f"
    using div_mult_mod_eq [of "n * G" f] mod_less_divisor [OF a(2), of "n * G"] by (simp only: distrib_right)
  also have "\<dots> \<le> T * f" using a(1) by (intro mult_le_mono1) simp
  finally show ?thesis using a(3) by (simp add: less_eq_div_iff_mult_less_eq)
qed

section \<open>Output and next transition, in ticks\<close>

text \<open>A channel whose counter has been loaded.\<close>

definition chan_ok :: "PITChannelState \<Rightarrow> bool" where
  "chan_ok s \<longleftrightarrow> 1 \<le> count s \<and> count s \<le> 65536"

definition out_tick :: "u8 \<Rightarrow> nat \<Rightarrow> nat \<Rightarrow> bool" where
  "out_tick m c d =
     (if m = 1 then d < c
      else if m = 2 then d mod c = 0 \<and> d \<noteq> 0
      else if m = 3 then d mod c < (c + 1) div 2
      else if m = 4 \<or> m = 5 then d = c
      else c \<le> d)"

definition next_tick :: "u8 \<Rightarrow> nat \<Rightarrow> nat \<Rightarrow> nat option" where
  "next_tick m c d =
     (if m = 2 then Some (d div c * c + c + (if d mod c = 0 \<and> d \<noteq> 0 then 0 else 1))
      else if m = 3 then Some (d div c * c + (if d mod c < (c + 1) div 2 then (c + 1) div 2 else c))
      else if m = 4 \<or> m = 5 then (if d < c then Some c else if d = c then Some (c + 1) else None)
      else (if d < c then Some c else None))"

lemma count_bound: "chan_ok s \<Longrightarrow> 1 \<le> nat (count s) \<and> nat (count s) \<le> 65536"
  by (simp add: chan_ok_def nat_le_iff le_nat_iff)

lemma count64_nat: "chan_ok s \<Longrightarrow> unat (count64 s) = nat (count s)"
  by (simp add: chan_ok_def unsigned_of_int take_bit_int_eq_self)

lemma period_nat: "chan_ok s \<Longrightarrow> unat (word_of_int ((count s + 1) div 2) :: u64) = (nat (count s) + 1) div 2"
proof -
  assume "chan_ok s"
  then have c: "(count s + 1) div 2 = int ((nat (count s) + 1) div 2)" "nat (count s) + 1 < 2 ^ 64"
    using count_bound [of s] by (simp_all add: chan_ok_def zdiv_int)
  have "(nat (count s) + 1) div 2 < 2 ^ 64"
    using c(2) by (rule le_less_trans [OF div_le_dividend])
  then show ?thesis unfolding c(1) by (simp add: unsigned_of_nat take_bit_nat_eq_self)
qed

lemma out1_tick:
  assumes "chan_ok s"
  shows "pit_get_out1 s t = of_bool (out_tick (mode s) (nat (count s)) (unat (pit_ticks s t)))"
proof -
  note c = count64_nat [OF assms] period_nat [OF assms]
  have z: "x = y \<longleftrightarrow> unat x = unat y" for x y :: u64 by (metis unsigned_word_eqI)
  show ?thesis
    unfolding pit_get_out1_def out_tick_def Let_def word_less_nat_alt word_le_nat_alt unat_mod_distrib z c
    by simp
qed

lemma mod_block: "q * c \<le> d \<Longrightarrow> d < q * c + c \<Longrightarrow> d mod c = d - q * c" for q c d :: nat
proof -
  assume a: "q * c \<le> d" "d < q * c + c"
  then have "d mod c = (q * c + (d - q * c)) mod c" by simp
  also have "\<dots> = (d - q * c) mod c" by (rule mod_mult_self3)
  also have "\<dots> = d - q * c" using a by simp
  finally show ?thesis .
qed

lemma block: "0 < c \<Longrightarrow> d div c * c \<le> d \<and> d < d div c * c + c" for c d :: nat
  using div_mult_mod_eq [of d c] mod_less_divisor [of c d] by linarith

lemma next_tick_later:
  assumes "0 < c" "next_tick m c d = Some n"
  shows "d < n \<and> n \<le> d + c + 1"
proof -
  define b where "b = d div c * c"
  have b: "b \<le> d" "d < b + c" using block [OF assms(1), of d] by (simp_all only: b_def)
  have p: "(c + 1) div 2 \<le> c" using assms(1) by simp
  have "d mod c = d - b" by (simp add: b_def minus_div_mult_eq_mod)
  with assms(2) b p show ?thesis
    unfolding next_tick_def b_def [symmetric] by (auto split: if_splits)
qed

lemma half_period: "b \<le> d \<Longrightarrow> d \<le> d' \<Longrightarrow> d' < b + (if d - b < p then p else c) \<Longrightarrow> (d' - b < p) = (d - b < p)"
  for b d d' p c :: nat
  by (auto split: if_splits)

text \<open>Up to the next transition the output does not change (rate generator mode 2 apart).\<close>

lemma next_tick_stable:
  assumes "0 < c" "m \<noteq> 2" "d \<le> d'" "case next_tick m c d of None \<Rightarrow> True | Some n \<Rightarrow> d' < n"
  shows "out_tick m c d' = out_tick m c d"
proof (cases "m = 3")
  case True
  let ?b = "d div c * c"
  have b: "?b \<le> d" "d < ?b + c" using block [OF assms(1), of d] by simp_all
  have p: "(c + 1) div 2 \<le> c" using assms(1) by simp
  have d: "d mod c = d - ?b" by (simp add: minus_div_mult_eq_mod)
  have n: "d' < ?b + (if d mod c < (c + 1) div 2 then (c + 1) div 2 else c)"
    using assms(4) True by (simp add: next_tick_def)
  then have "d' < ?b + c" using p by (simp split: if_splits)
  moreover have le: "?b \<le> d'" using b(1) assms(3) by (rule le_trans)
  ultimately have "d' mod c = d' - ?b" by (intro mod_block)
  moreover have "d' - ?b < (c + 1) div 2 \<longleftrightarrow> d - ?b < (c + 1) div 2"
    using b(1) assms(3) n unfolding d by (rule half_period)
  ultimately show ?thesis using d True by (simp add: out_tick_def)
next
  case False
  then show ?thesis
    using assms(2-4) by (auto simp: out_tick_def next_tick_def split: if_splits)
qed

lemma next_ticks_nat:
  assumes "chan_ok s" "unat d < 2 ^ 63"
  shows "map_option unat (pit_next_ticks s d) = next_tick (mode s) (nat (count s)) (unat d)"
proof -
  let ?c = "nat (count s)" and ?d = "unat d"
  have c: "1 \<le> ?c" "?c \<le> 65536" using count_bound [OF assms(1)] by simp_all
  have "?d div ?c * ?c \<le> ?d" by simp
  then have sm: "?d div ?c * ?c < 2 ^ 63" using assms(2) by (rule le_less_trans)
  let ?base = "(d div count64 s) * count64 s"
  have base: "unat ?base = ?d div ?c * ?c"
    using sm by (subst unat_word_ariths(2)) (simp add: unat_div_distrib count64_nat [OF assms(1)])
  have sub: "unat (d - ?base) = ?d mod ?c"
  proof -
    have "?base \<le> d" by (simp add: word_le_nat_alt base)
    then show ?thesis by (simp add: minus_div_mult_eq_mod unat_mod_distrib count64_nat [OF assms(1)])
  qed
  have "(?c + 1) div 2 \<le> ?c" using c(1) by simp
  then have p2: "(?c + 1) div 2 \<le> 65536" using c(2) by (rule le_trans)
  have add: "unat (?base + x) = unat ?base + unat x" if "unat x \<le> 65537" for x
    using sm that by (subst unat_word_ariths(1)) (simp add: base)
  note cn = count64_nat [OF assms(1)] and pn = period_nat [OF assms(1)]
  have s1: "unat (count64 s + 1) = ?c + 1"
    using c by (subst unat_word_ariths(1)) (simp add: cn)
  have a1: "unat (?base + count64 s) = ?d div ?c * ?c + ?c"
    using add [of "count64 s"] c unfolding cn base by simp
  have a2: "unat (?base + count64 s + 1) = ?d div ?c * ?c + ?c + 1"
    using add [of "count64 s + 1"] c unfolding s1 base by (simp add: add.assoc)
  have a3: "unat (?base + word_of_int ((count s + 1) div 2)) = ?d div ?c * ?c + (?c + 1) div 2"
    using add [of "word_of_int ((count s + 1) div 2)"] p2 unfolding pn base by simp
  have z: "x = y \<longleftrightarrow> unat x = unat y" for x y :: u64 by (metis unsigned_word_eqI)
  show ?thesis
    unfolding pit_next_ticks_def next_tick_def Let_def word_less_nat_alt z sub cn pn
    by (simp add: a1 a2 a3 s1 cn del: One_nat_def)
qed

section \<open>The interrupt timer\<close>

text \<open>The virtual clock stays far below the sign bit of \<open>int64_t\<close>, and a channel is loaded in the past.\<close>

definition clock_ok :: "PITChannelState \<Rightarrow> u64 \<Rightarrow> bool" where
  "clock_ok s t \<longleftrightarrow> unat (count_load_time s) \<le> unat t \<and> unat t < 2 ^ 62"

lemma ticks_small: "clock_ok s t \<Longrightarrow> unat (pit_ticks s t) \<le> unat t - unat (count_load_time s)"
  by (simp add: ticks_nat elapsed clock_ok_def div_le_mono)

lemma ticks_mono: "clock_ok s t \<Longrightarrow> unat t \<le> unat t' \<Longrightarrow> unat (pit_ticks s t) \<le> unat (pit_ticks s t')"
  by (auto simp: ticks_nat elapsed clock_ok_def intro!: div_le_mono)

lemma next_time_nat:
  assumes "chan_ok s" "clock_ok s t" "next_tick (mode s) (nat (count s)) (unat (pit_ticks s t)) = Some n"
  shows "unat (pit_get_next_transition_time s t)
    = max (unat (count_load_time s) + n * 1000000000 div 1193182) (unat t + 1)"
proof -
  let ?d = "pit_ticks s t" and ?l = "unat (count_load_time s)"
  have t: "unat t < 2 ^ 62" "?l \<le> unat t" using assms(2) by (simp_all add: clock_ok_def)
  have d: "unat ?d \<le> unat t - ?l" using assms(2) by (rule ticks_small)
  then have "unat ?d < 2 ^ 63" using t by simp
  with next_ticks_nat [OF assms(1) this] assms(3) obtain w where
    w: "pit_next_ticks s ?d = Some w" "unat w = n" by auto
  have c: "0 < nat (count s)" "nat (count s) \<le> 65536" using count_bound [OF assms(1)] by linarith+
  have n: "n \<le> unat ?d + 65537" using next_tick_later [OF c(1) assms(3)] c(2) by simp
  have "unat ?d * 1000000000 div 1193182 \<le> unat t - ?l"
  proof -
    have "unat ?d * 1000000000 \<le> (unat t - ?l) * 1193182"
      using t(2) by (simp add: ticks_nat elapsed)
    then have "unat ?d * 1000000000 div 1193182 \<le> (unat t - ?l) * 1193182 div 1193182" by (rule div_le_mono)
    then show ?thesis by simp
  qed
  moreover have "n * 1000000000 div 1193182 \<le> (unat ?d * 1000000000 + 65537 * 1000000000) div 1193182"
    using n by (intro div_le_mono) simp
  moreover have "(unat ?d * 1000000000 + 65537 * 1000000000) div 1193182
      \<le> unat ?d * 1000000000 div 1193182 + 65537 * 1000000000 div 1193182 + 1"
    using div_add1_eq [of "unat ?d * 1000000000" "65537 * 1000000000" 1193182] by simp
  ultimately have e: "?l + n * 1000000000 div 1193182 < 2 ^ 63" using t by simp
  then have m: "unat (muldiv64 w ticks_per_sec PIT_FREQ) = n * 1000000000 div 1193182"
    using w(2) by (simp add: muldiv64_nat PIT_FREQ_def ticks_per_sec_def)
  let ?e = "count_load_time s + muldiv64 w ticks_per_sec PIT_FREQ"
  have ue: "unat ?e = ?l + n * 1000000000 div 1193182"
    using e by (subst unat_word_ariths(1)) (simp add: m)
  have ut: "unat (t + 1) = unat t + 1" using t by (subst unat_word_ariths(1)) simp
  have "pit_get_next_transition_time s t = (if ?e \<le> t then t + 1 else ?e)"
    by (simp add: pit_get_next_transition_time_def w(1))
  then show ?thesis using ue ut by (simp add: word_le_nat_alt)
qed

lemma next_time_none:
  assumes "chan_ok s" "clock_ok s t" "next_tick (mode s) (nat (count s)) (unat (pit_ticks s t)) = None"
  shows "pit_get_next_transition_time s t = -1"
proof -
  have "unat (pit_ticks s t) \<le> unat t" using ticks_small [OF assms(2)] by (rule le_trans) simp
  then have "unat (pit_ticks s t) < 2 ^ 63" using assms(2) by (simp add: clock_ok_def)
  from next_ticks_nat [OF assms(1) this] assms(3) show ?thesis
    by (simp add: pit_get_next_transition_time_def)
qed

lemma unat_minus_one_u64: "unat (-1 :: u64) = 2 ^ 64 - 1"
  by (simp add: unsigned_minus_1_eq_mask mask_eq_exp_minus_1)

text \<open>The tick that the timer is armed for is not reached before the armed time.\<close>

lemma before_armed:
  assumes "chan_ok s" "clock_ok s t" "unat t \<le> unat t'" "unat t' < 2 ^ 62"
    and "pit_get_next_transition_time s t = -1 \<or> t' < pit_get_next_transition_time s t"
    and "next_tick (mode s) (nat (count s)) (unat (pit_ticks s t)) = Some n"
  shows "unat (pit_ticks s t') < n"
proof (cases "t' = t")
  case True
  have "0 < nat (count s)" using count_bound [OF assms(1)] by linarith
  with True next_tick_later [OF _ assms(6)] show ?thesis by simp
next
  case False
  let ?l = "unat (count_load_time s)" and ?E = "pit_get_next_transition_time s t"
  have l: "?l \<le> unat t" "?l \<le> unat t'" using assms(2,3) by (simp_all add: clock_ok_def)
  have lt: "unat t < unat t'" using False assms(3) by (metis le_neq_implies_less unsigned_word_eqI)
  have "?E = -1 \<Longrightarrow> unat t' < unat ?E" using assms(4) by (simp add: unat_minus_one_u64)
  then have "unat t' < unat ?E" using assms(5) by (auto simp: word_less_nat_alt)
  then have "unat t' < ?l + n * 1000000000 div 1193182" using next_time_nat [OF assms(1,2,6)] lt by simp
  then have "unat t' - ?l < n * 1000000000 div 1193182" using l by simp
  from before_tick [OF this] show ?thesis using l by (simp add: ticks_nat elapsed)
qed

text \<open>Until the next transition the output keeps its level.\<close>

lemma out_stable:
  assumes "chan_ok s" "mode s \<noteq> 2" "clock_ok s t" "unat t \<le> unat t'" "unat t' < 2 ^ 62"
    and "pit_get_next_transition_time s t = -1 \<or> t' < pit_get_next_transition_time s t"
  shows "pit_get_out1 s t' = pit_get_out1 s t"
proof -
  let ?d = "unat (pit_ticks s t)" and ?d' = "unat (pit_ticks s t')"
  have c: "0 < nat (count s)" using count_bound [OF assms(1)] by linarith
  have "case next_tick (mode s) (nat (count s)) ?d of None \<Rightarrow> True | Some n \<Rightarrow> ?d' < n"
    using before_armed [OF assms(1,3-6)] by (simp split: option.splits)
  then have "out_tick (mode s) (nat (count s)) ?d' = out_tick (mode s) (nat (count s)) ?d"
    using c assms(2) ticks_mono [OF assms(3,4)] by (intro next_tick_stable)
  then show ?thesis by (simp add: out1_tick [OF assms(1)])
qed

text \<open>The rate generator: the pulse is a tick long, and the timer is armed for a tick too late.\<close>

lemma next_tick_rate:
  assumes "0 < c" "next_tick 2 c d = Some n" "d \<le> d'" "d' < n"
  shows "out_tick 2 c d' \<noteq> out_tick 2 c d \<longleftrightarrow> (if out_tick 2 c d then d' \<noteq> d else d' div c \<noteq> d div c)"
proof -
  let ?b = "d div c * c"
  have b: "?b \<le> d" "d < ?b + c" using block [OF assms(1), of d] by simp_all
  have d: "d mod c = d - ?b" by (simp add: minus_div_mult_eq_mod)
  have le: "?b \<le> d'" using b(1) assms(3) by (rule le_trans)
  show ?thesis
  proof (cases "d' < ?b + c")
    case True
    have m: "d' mod c = d' - ?b" using le True by (intro mod_block)
    then have "d' div c * c = ?b" using le minus_mod_eq_div_mult [of d' c] by linarith
    then have q: "d' div c = d div c" using assms(1) by simp
    have "((d' - B = 0 \<and> d' \<noteq> 0) \<noteq> (d - B = 0 \<and> d \<noteq> 0)) = (if d - B = 0 \<and> d \<noteq> 0 then d' \<noteq> d else False)"
      if "B \<le> d" for B using that assms(3) by (cases "d = B") auto
    from this [OF b(1)] show ?thesis unfolding q out_tick_def m d by simp
  next
    case False
    then have "\<not> out_tick 2 c d" "d' = ?b + c"
      using assms(2,4) by (auto simp: next_tick_def out_tick_def split: if_splits)
    then show ?thesis using assms(1) by (auto simp: out_tick_def)
  qed
qed

lemma rate_drift:
  assumes "chan_ok s" "mode s = 2" "clock_ok s t" "unat t \<le> unat t'" "unat t' < 2 ^ 62"
    and "pit_get_next_transition_time s t = -1 \<or> t' < pit_get_next_transition_time s t"
  shows "pit_get_out1 s t \<noteq> pit_get_out1 s t' \<longleftrightarrow>
    (if pit_get_out1 s t = 1 then pit_ticks s t' \<noteq> pit_ticks s t
     else unat (pit_ticks s t') div nat (count s) \<noteq> unat (pit_ticks s t) div nat (count s))"
proof -
  let ?d = "unat (pit_ticks s t)" and ?d' = "unat (pit_ticks s t')" and ?c = "nat (count s)"
  have c: "0 < ?c" using count_bound [OF assms(1)] by linarith
  obtain n where n: "next_tick 2 ?c ?d = Some n" by (simp add: next_tick_def)
  have "?d' < n" using n assms(2) by (intro before_armed [OF assms(1,3-6)]) simp
  with next_tick_rate [OF c n ticks_mono [OF assms(3,4)]]
  have "out_tick 2 ?c ?d' \<noteq> out_tick 2 ?c ?d \<longleftrightarrow> (if out_tick 2 ?c ?d then ?d' \<noteq> ?d else ?d' div ?c \<noteq> ?d div ?c)" .
  then show ?thesis by (auto simp: out1_tick [OF assms(1)] assms(2) word_unat_eq_iff)
qed

lemma update_frame [simp]:
  "count (pit_irq_timer_update s t) = count s" "mode (pit_irq_timer_update s t) = mode s"
  "count_load_time (pit_irq_timer_update s t) = count_load_time s"
  "rw_mode (pit_irq_timer_update s t) = rw_mode s" "read_state (pit_irq_timer_update s t) = read_state s"
  "write_state (pit_irq_timer_update s t) = write_state s" "write_latch (pit_irq_timer_update s t) = write_latch s"
  "count_latched (pit_irq_timer_update s t) = count_latched s"
  "status_latched (pit_irq_timer_update s t) = status_latched s"
  "latched_count (pit_irq_timer_update s t) = latched_count s"
  "gate (pit_irq_timer_update s t) = gate s"
  "(irq_timer (pit_irq_timer_update s t) = None) = (irq_timer s = None)"
  by (simp_all add: pit_irq_timer_update_def Let_def split: option.splits)

lemma ticks_cong: "count_load_time s = count_load_time s' \<Longrightarrow> pit_ticks s t = pit_ticks s' t"
  by (simp add: pit_ticks_def)

lemma update_out1 [simp]: "pit_get_out1 (pit_irq_timer_update s t) t' = pit_get_out1 s t'"
  unfolding pit_get_out1_def ticks_cong [of "pit_irq_timer_update s t" s, OF update_frame(3)] update_frame ..

text \<open>
  C9: how the interrupt line of the timer follows its output. Whenever the channel's interrupt timer
  is updated at some time, the line is driven to the output at that time and the timer is armed for
  a later time, if at all. In every mode but the rate generator (mode 2), at every time from then on
  and before the one armed for (for ever, when it is not armed) the level on the line is the
  output. In the rate generator it is not, because the timer is armed for the end of the pulse
  instead of its start: after an update outside a pulse the line is wrong exactly from the start of
  the next period on, and after an update in a pulse exactly from the tick that ends it on.
\<close>

theorem pit_irq_level:
  assumes "chan_ok s" "irq_timer s \<noteq> None" "clock_ok s t"
    and "s' = pit_irq_timer_update s t" "unat t \<le> unat t'" "unat t' < 2 ^ 62"
    and "case irq_timer s' of Some (Some e) \<Rightarrow> t' < e | _ \<Rightarrow> True"
  shows "line_level (chan_irq s') = pit_get_out1 s' t
    \<and> (case irq_timer s' of Some (Some e) \<Rightarrow> t < e | _ \<Rightarrow> True)
    \<and> (mode s \<noteq> 2 \<longrightarrow> line_level (chan_irq s') = pit_get_out1 s' t')
    \<and> (mode s = 2 \<longrightarrow> (line_level (chan_irq s') \<noteq> pit_get_out1 s' t' \<longleftrightarrow>
         (if line_level (chan_irq s') = 1 then pit_ticks s' t' \<noteq> pit_ticks s' t
          else unat (pit_ticks s' t') div nat (count s) \<noteq> unat (pit_ticks s' t) div nat (count s))))"
proof -
  let ?E = "pit_get_next_transition_time s t"
  obtain x where x: "irq_timer s = Some x" using assms(2) by auto
  have i: "irq_timer s' = Some (if ?E \<noteq> -1 then Some ?E else None)" "line_level (chan_irq s') = pit_get_out1 s t"
    unfolding assms(4) pit_irq_timer_update_def by (simp_all add: x Let_def)
  have o: "pit_get_out1 s' u = pit_get_out1 s u" "pit_ticks s' u = pit_ticks s u" for u
    unfolding assms(4) by (simp_all add: ticks_cong [OF update_frame(3)])
  have w: "?E = -1 \<or> t' < ?E" using assms(7) i(1) by (auto split: if_splits)
  have "?E \<noteq> -1 \<Longrightarrow> t < ?E"
  proof -
    assume "?E \<noteq> -1"
    then obtain n where n: "next_tick (mode s) (nat (count s)) (unat (pit_ticks s t)) = Some n"
      using next_time_none [OF assms(1,3)] by fastforce
    from next_time_nat [OF assms(1,3) n] show "t < ?E" by (simp add: word_less_nat_alt)
  qed
  then show ?thesis
    using i(1) out_stable [OF assms(1) _ assms(3,5,6) w] rate_drift [OF assms(1) _ assms(3,5,6) w]
    unfolding i(2) o by simp
qed

text \<open>A square wave: the ticks of its transitions, and that the firing times meet them.\<close>

lemma next_tick_same:
  assumes "0 < c" "next_tick 3 c d = Some n" "d \<le> d'" "d' < n"
  shows "next_tick 3 c d' = Some n"
proof -
  let ?b = "d div c * c"
  have b: "?b \<le> d" "d < ?b + c" using block [OF assms(1), of d] by simp_all
  have p: "(c + 1) div 2 \<le> c" using assms(1) by simp
  have d: "d mod c = d - ?b" by (simp add: minus_div_mult_eq_mod)
  have n: "n = ?b + (if d mod c < (c + 1) div 2 then (c + 1) div 2 else c)"
    using assms(2) by (simp add: next_tick_def)
  then have "d' < ?b + c" using p assms(4) by (simp split: if_splits)
  moreover have le: "?b \<le> d'" using b(1) assms(3) by (rule le_trans)
  ultimately have m: "d' mod c = d' - ?b" by (intro mod_block)
  have h: "d' - ?b < (c + 1) div 2 \<longleftrightarrow> d - ?b < (c + 1) div 2"
    using b(1) assms(3,4) unfolding n d by (rule half_period)
  have "d' div c * c = ?b" using m le minus_mod_eq_div_mult [of d' c] by linarith
  then show ?thesis unfolding next_tick_def m h n d by simp
qed

lemma next_tick_toggles:
  assumes "2 \<le> c" "next_tick 3 c d = Some n"
  shows "out_tick 3 c n \<longleftrightarrow> \<not> out_tick 3 c d"
proof -
  let ?p = "(c + 1) div 2"
  have p: "0 < ?p" "?p < c" using assms(1) by simp_all
  have n: "n = d div c * c + (if d mod c < ?p then ?p else c)" using assms(2) by (simp add: next_tick_def)
  then have "n mod c = (if d mod c < ?p then ?p else 0)"
    using p by (cases "d mod c < ?p") (simp_all only: mod_mult_self3 mod_less mod_self if_True if_False)
  then show ?thesis using p by (simp add: out_tick_def)
qed

lemma tick_reached:
  fixes T n j :: nat
  assumes "T = n * 1000000000 div 1193182 + j" "1 \<le> j" "j \<le> 2"
  shows "T * 1193182 div 1000000000 = n"
proof (rule div_nat_eqI)
  let ?q = "n * 1000000000 div 1193182" and ?r = "n * 1000000000 mod 1193182"
  have q: "?q * 1193182 + ?r = n * 1000000000" by (rule div_mult_mod_eq)
  have r: "?r < 1193182" by simp
  have T: "T * 1193182 = ?q * 1193182 + j * 1193182" unfolding assms(1) by (rule distrib_right)
  show "1000000000 * n \<le> T * 1193182" unfolding T using q r assms(2) by linarith
  show "T * 1193182 < 1000000000 * Suc n" unfolding T mult_Suc_right using q assms(3) by linarith
qed

lemma firing_time:
  assumes "chan_ok s" "clock_ok s t" "next_tick (mode s) (nat (count s)) (unat (pit_ticks s t)) = Some n"
    and "e = pit_get_next_transition_time s t" "unat t < 2 ^ 61"
  shows "unat t < unat e" "unat e \<le> unat t + 55000000" "unat (pit_ticks s (e + 1)) = n"
    "unat (count_load_time s) + n * 1000000000 div 1193182 \<le> unat e"
proof -
  let ?l = "unat (count_load_time s)" and ?d = "unat (pit_ticks s t)" and ?q = "n * 1000000000 div 1193182"
  have l: "?l \<le> unat t" using assms(2) by (simp add: clock_ok_def)
  have e: "unat e = max (?l + ?q) (unat t + 1)" unfolding assms(4) using assms(1-3) by (rule next_time_nat)
  have c: "0 < nat (count s)" "nat (count s) \<le> 65536" using count_bound [OF assms(1)] by linarith+
  have n: "?d < n" "n \<le> ?d + 65537" using next_tick_later [OF c(1) assms(3)] c(2) by simp_all
  have d: "?d = (unat t - ?l) * 1193182 div 1000000000" using l by (simp add: ticks_nat elapsed)
  have q: "unat t - ?l \<le> ?q"
  proof (rule ccontr)
    assume "\<not> ?thesis"
    then have "n \<le> (unat t - ?l) * 1193182 div 1000000000" by (intro after_tick) simp_all
    with n(1) d show False by simp
  qed
  have "?d * 1000000000 \<le> (unat t - ?l) * 1193182" unfolding d by simp
  then have "n * 1000000000 \<le> (unat t - ?l + 54926240) * 1193182" using n(2) by simp
  then have "?q \<le> (unat t - ?l + 54926240) * 1193182 div 1193182" by (rule div_le_mono)
  then have u: "?q \<le> unat t - ?l + 54926240" by simp
  show "unat t < unat e" "?l + ?q \<le> unat e" using e by simp_all
  show ub: "unat e \<le> unat t + 55000000" using e u l by simp
  have e1: "unat (e + 1) = unat e + 1" using ub assms(5) by (subst unat_word_ariths(1)) simp
  have "unat (e + 1) - ?l = ?q + 1 \<or> unat (e + 1) - ?l = ?q + 2"
    using e e1 q l by (auto simp: max_def)
  moreover have "unat (e + 1 - count_load_time s) = unat (e + 1) - ?l" using e e1 l by (intro elapsed) simp
  ultimately show "unat (pit_ticks s (e + 1)) = n"
    using tick_reached [of _ n 1] tick_reached [of _ n 2] by (auto simp: ticks_nat)
qed

lemma update_next_time [simp]:
  "pit_get_next_transition_time (pit_irq_timer_update s t) t' = pit_get_next_transition_time s t'"
  unfolding pit_get_next_transition_time_def pit_next_ticks_def
    ticks_cong [of "pit_irq_timer_update s t" s, OF update_frame(3)] update_frame ..

lemma update_driven:
  assumes "irq_timer s \<noteq> None"
  shows "next_transition_time (pit_irq_timer_update s t) = pit_get_next_transition_time s t"
    "line_level (chan_irq (pit_irq_timer_update s t)) = pit_get_out1 s t"
    "irq_timer (pit_irq_timer_update s t) = Some (if pit_get_next_transition_time s t \<noteq> -1
       then Some (pit_get_next_transition_time s t) else None)"
  using assms by (auto simp: pit_irq_timer_update_def Let_def)

lemma timer_driven:
  assumes "irq_timer s \<noteq> None" "e = pit_get_next_transition_time s t"
  shows "pit_irq_timer (pit_irq_timer_update s t) = pit_irq_timer_update (pit_irq_timer_update s t) e"
  using update_driven(1) [OF assms(1), of t] by (simp add: pit_irq_timer_def assms(2))

lemma armed:
  assumes "irq_timer s \<noteq> None" "unat (pit_get_next_transition_time s t) < 2 ^ 62"
  shows "irq_timer (pit_irq_timer_update s t) = Some (Some (pit_get_next_transition_time s t))"
proof -
  have "pit_get_next_transition_time s t \<noteq> -1" using assms(2) by (auto simp: unat_minus_one_u64)
  then show ?thesis using update_driven(3) [OF assms(1), of t] by simp
qed

text \<open>A timer that expires before its tick is reached is armed again for the next nanosecond.\<close>

lemma refire:
  assumes "chan_ok s" "mode s = 3" "clock_ok s t" "unat t < 2 ^ 61"
    and "next_tick 3 (nat (count s)) (unat (pit_ticks s t)) = Some n"
    and "e = pit_get_next_transition_time s t" "unat (pit_ticks s e) \<noteq> n"
  shows "pit_get_next_transition_time s e = e + 1"
proof -
  note f = firing_time [OF assms(1,3) _ assms(6,4), unfolded assms(2), OF assms(5)]
  have e: "clock_ok s e" using f(1,2) assms(3,4) by (simp add: clock_ok_def)
  have "unat (pit_ticks s e) \<le> n" and le: "unat (pit_ticks s t) \<le> unat (pit_ticks s e)"
    using f(1) ticks_mono [OF e, of "e + 1"] ticks_mono [OF assms(3), of e] f(2,3) assms(4)
    by (simp_all add: unat_word_ariths(1))
  with assms(7) have lt: "unat (pit_ticks s e) < n" by simp
  have "0 < nat (count s)" using count_bound [OF assms(1)] by linarith
  from next_tick_same [OF this assms(5) le lt]
  have "next_tick (mode s) (nat (count s)) (unat (pit_ticks s e)) = Some n" by (simp add: assms(2))
  from next_time_nat [OF assms(1) e this] f(4)
  have "unat (pit_get_next_transition_time s e) = unat e + 1" by simp
  then show ?thesis using f(2) assms(4) by (simp add: word_unat_eq_iff unat_word_ariths(1))
qed

text \<open>
  C25: the square wave generator keeps the interrupt line oscillating. In mode 3 with a count of at
  least two, updating the interrupt timer arms it, for a time strictly later and at most 55
  milliseconds away, and after one or two expirations the level of the line is the opposite one.
\<close>

theorem pit_square_wave:
  assumes "chan_ok s" "2 \<le> count s" "mode s = 3" "irq_timer s \<noteq> None" "clock_ok s t" "unat t < 2 ^ 61"
    and "s' = pit_irq_timer_update s t"
  shows "\<exists>e k. irq_timer s' = Some (Some e) \<and> unat t < unat e \<and> unat e \<le> unat t + 55000000
    \<and> (k = 1 \<or> k = 2) \<and> line_level (chan_irq ((pit_irq_timer ^^ k) s')) = 1 - line_level (chan_irq s')"
proof -
  let ?c = "nat (count s)" and ?e = "pit_get_next_transition_time s t"
  have c: "2 \<le> ?c" using assms(2) by simp
  obtain n where n: "next_tick (mode s) ?c (unat (pit_ticks s t)) = Some n"
    using assms(3) by (auto simp: next_tick_def)
  note f = firing_time [OF assms(1,5) n refl assms(6)]
  have armed: "irq_timer s' = Some (Some ?e)"
    unfolding assms(7) using assms(4,6) f(2) by (intro armed) simp_all
  have s': "irq_timer s' \<noteq> None" using armed by simp
  let ?s1 = "pit_irq_timer s'"
  have s1: "?s1 = pit_irq_timer_update s' ?e" unfolding assms(7) using assms(4) by (intro timer_driven) simp_all
  have lev: "line_level (chan_irq ?s1) = pit_get_out1 s ?e" "line_level (chan_irq s') = pit_get_out1 s t"
    unfolding s1 update_driven(2) [OF s'] by (simp_all add: assms(7) update_driven(2) [OF assms(4)])
  have tog: "unat (pit_ticks s x) = n \<Longrightarrow> pit_get_out1 s x = 1 - pit_get_out1 s t" for x
    using next_tick_toggles [OF c, of "unat (pit_ticks s t)" n] n assms(3)
    by (simp add: out1_tick [OF assms(1)])
  show ?thesis
  proof (cases "unat (pit_ticks s ?e) = n")
    case True
    then have "line_level (chan_irq ((pit_irq_timer ^^ 1) s')) = 1 - line_level (chan_irq s')"
      by (simp add: lev tog)
    with armed f(1,2) show ?thesis by blast
  next
    case False
    have "pit_get_next_transition_time s ?e = ?e + 1"
      using assms(1,3,5,6) n False by (intro refire) simp_all
    then have "pit_irq_timer ?s1 = pit_irq_timer_update ?s1 (?e + 1)"
      unfolding s1 using s' by (intro timer_driven) (simp_all add: assms(7))
    moreover have "irq_timer ?s1 \<noteq> None" using s' by (simp add: s1)
    ultimately have "line_level (chan_irq (pit_irq_timer ?s1)) = pit_get_out1 ?s1 (?e + 1)"
      by (simp add: update_driven(2))
    then have "line_level (chan_irq (pit_irq_timer ?s1)) = pit_get_out1 s (?e + 1)"
      unfolding s1 update_out1 unfolding assms(7) update_out1 .
    then have "line_level (chan_irq ((pit_irq_timer ^^ 2) s')) = 1 - line_level (chan_irq s')"
      using f(3) by (simp add: numeral_2_eq_2 lev tog)
    with armed f(1,2) show ?thesis by blast
  qed
qed

section \<open>The device\<close>

text \<open>
  What reaches the device: byte accesses to its ports (four are registered for writing, three for
  reading), the gate of channel 2 that the speaker drives, the expiry of the timer, and the reset.
\<close>

datatype pit_event = PWrite u32 u8 | PRead u32 | PGate bool | PTimer | PReset

definition pit_step :: "PITState \<Rightarrow> u64 \<times> pit_event \<Rightarrow> unit + PITState" where
  "pit_step pit ev =
     (case ev of (now, e) \<Rightarrow>
       case e of
         PWrite addr val \<Rightarrow> (case pit_ioport_write now pit addr (ucast val) of None \<Rightarrow> Inl () | Some p \<Rightarrow> Inr p)
       | PRead addr \<Rightarrow>
           if unat (addr AND 3) < 3
           then (case pit_ioport_read now pit addr of None \<Rightarrow> Inl () | Some (v, p) \<Rightarrow> Inr p)
           else Inr pit
       | PGate b \<Rightarrow> Inr (pit_set_gate now pit 2 (of_bool b))
       | PTimer \<Rightarrow> Inr (upd_channel pit 0 pit_irq_timer)
       | PReset \<Rightarrow> Inr (pit_reset now pit))"

text \<open>
  Three channels, each with a counter that has been loaded (no modulo by zero) and a mode of three
  bits; channel 0 alone has a timer.
\<close>

definition pit_inv :: "PITState \<Rightarrow> bool" where
  "pit_inv pit \<longleftrightarrow> length (channels pit) = 3 \<and>
     (\<forall>i<3. chan_ok (channels pit ! i) \<and> mode (channels pit ! i) \<le> 7 \<and>
        (irq_timer (channels pit ! i) = None) = (i \<noteq> 0))"

definition chan_keeps :: "PITChannelState \<Rightarrow> PITChannelState \<Rightarrow> bool" where
  "chan_keeps s s' \<longleftrightarrow> (chan_ok s \<and> mode s \<le> 7 \<longrightarrow> chan_ok s' \<and> mode s' \<le> 7)
     \<and> (irq_timer s' = None) = (irq_timer s = None)"

lemma chan_keeps_refl [simp]: "chan_keeps s s"
  by (simp add: chan_keeps_def)

lemma chan_keeps_trans: "chan_keeps s s' \<Longrightarrow> chan_keeps s' s'' \<Longrightarrow> chan_keeps s s''"
  by (auto simp: chan_keeps_def)

lemma chan_keeps_update [simp]: "chan_keeps s (pit_irq_timer_update s t)"
  by (simp add: chan_keeps_def chan_ok_def)

lemma chan_keeps_timer [simp]: "chan_keeps s (pit_irq_timer s)"
  by (simp add: pit_irq_timer_def)

lemma chan_keeps_load: "0 \<le> val \<Longrightarrow> val \<le> 65535 \<Longrightarrow> chan_keeps s (pit_load_count now val s)"
  by (simp add: chan_keeps_def pit_load_count_def Let_def chan_ok_def)

lemma chan_keeps_latch [simp]: "chan_keeps s (pit_latch_count now s)"
  by (simp add: chan_keeps_def pit_latch_count_def chan_ok_def)

lemma chan_keeps_read_back [simp]: "chan_keeps s (pit_read_back now val s)"
  using chan_keeps_latch [of s now]
  by (simp add: chan_keeps_def pit_read_back_def Let_def chan_ok_def)

lemma chan_keeps_gate [simp]: "chan_keeps s (pit_chan_set_gate now val s)"
  by (simp add: chan_keeps_def pit_chan_set_gate_def Let_def chan_ok_def)

lemma chan_keeps_if:
  "(b \<Longrightarrow> chan_keeps s x) \<Longrightarrow> (\<not> b \<Longrightarrow> chan_keeps s y) \<Longrightarrow> chan_keeps s (if b then x else y)"
  by simp

lemma chan_keeps_counter [simp]: "chan_keeps s (pit_write_counter now (ucast val) s)" for val :: u8
proof -
  have f: "chan_keeps (t\<lparr>write_state := w\<rparr>) t" "chan_keeps t (t\<lparr>write_state := w\<rparr>)"
    "chan_keeps t (t\<lparr>write_latch := b, write_state := w\<rparr>)" for t w b
    by (simp_all add: chan_keeps_def chan_ok_def)
  have b: "unat val \<le> 255" "unat (write_latch s) \<le> 255" by (rule unat_byte)+
  have l: "chan_keeps s (pit_load_count now (int k) s)" if "k \<le> 65535" for k
    using that by (intro chan_keeps_load) simp_all
  show ?thesis
    unfolding pit_write_counter_def sint_bytes
    using b by (intro f(3) l chan_keeps_trans [OF l f(2)] chan_keeps_if) simp_all
qed

lemma mode_3bits: "ucast (drop_bit 1 v AND 7) \<le> (7 :: u8)" for v :: u32
proof -
  have "drop_bit 1 v AND 7 \<le> 7" by (rule word_and_le1)
  then show ?thesis by (simp add: word_le_nat_alt unat_ucast8)
qed

lemma chan_keeps_upd:
  assumes "pit_inv pit" "i < 3" "\<And>s. s = channels pit ! i \<Longrightarrow> chan_keeps s (f s)"
  shows "pit_inv (upd_channel pit i f)"
  using assms by (auto simp: pit_inv_def upd_channel_def chan_keeps_def nth_list_update)

lemma channel_lt: "unat (drop_bit 6 (ucast v :: u32)) < 4" for v :: u8
proof -
  have "unat v div 64 < 4" using unat_byte [of v] by (simp add: div_less_iff_less_mult)
  then show ?thesis by (simp add: unat_drop_bit_eq unat_ucast_byte drop_bit_nat_def)
qed

lemma pit_write_control_inv:
  fixes val :: u8
  assumes "pit_inv pit"
  shows "\<exists>p. pit_write_control now pit (ucast val) = Some p \<and> pit_inv p"
proof -
  let ?v = "ucast val :: u32"
  have rb: "pit_inv p \<Longrightarrow> i < 3 \<Longrightarrow> pit_inv (upd_channel p i (pit_read_back now ?v))" for p i
    by (simp add: chan_keeps_upd)
  have m: "chan_keeps s (s\<lparr>rw_mode := a, read_state := a, write_state := a,
      mode := ucast (drop_bit 1 ?v AND 7), bcd := b\<rparr>)" for s a b
    by (simp add: chan_keeps_def chan_ok_def mode_3bits del: One_nat_def)
  have one: "i < 3 \<Longrightarrow> pit_inv (upd_channel pit i (\<lambda>s. if c then pit_latch_count now s
      else s\<lparr>rw_mode := a, read_state := a, write_state := a, mode := ucast (drop_bit 1 ?v AND 7), bcd := b\<rparr>))"
    for i c a b using assms m by (intro chan_keeps_upd) simp_all
  have "unat (drop_bit 6 ?v) = 3 \<or> unat (drop_bit 6 ?v) < 3" using channel_lt [of val] by linarith
  then show ?thesis
  proof
    assume "unat (drop_bit 6 ?v) = 3"
    then show ?thesis unfolding pit_write_control_def Let_def by (simp add: assms rb)
  next
    assume c: "unat (drop_bit 6 ?v) < 3"
    then have "unat (drop_bit 6 ?v) \<noteq> 3" by simp
    with c one [OF c] show ?thesis unfolding pit_write_control_def Let_def by simp
  qed
qed

lemma pit_ioport_write_inv:
  fixes val :: u8
  assumes "pit_inv pit"
  shows "\<exists>p. pit_ioport_write now pit addr (ucast val) = Some p \<and> pit_inv p"
proof (cases "addr AND 3 = 3")
  case False
  have "addr AND 3 \<le> 3" by (rule word_and_le1)
  with False have "unat (addr AND 3) < 3"
    by (simp add: word_le_nat_alt word_unat_eq_iff)
  then show ?thesis using assms False by (simp add: pit_ioport_write_def Let_def chan_keeps_upd)
qed (use assms in \<open>simp add: pit_ioport_write_def pit_write_control_inv\<close>)

lemma pit_read_channel_keeps: "chan_keeps s (snd (pit_read_channel now s))"
  by (simp add: chan_keeps_def chan_ok_def pit_read_channel_def Let_def)

lemma pit_ioport_read_inv:
  assumes "pit_inv pit" "unat (addr AND 3) < 3"
  shows "\<exists>v p. pit_ioport_read now pit addr = Some (v, p) \<and> pit_inv p"
proof -
  let ?i = "unat (addr AND 3)"
  have "pit_ioport_read now pit addr = Some (word_of_int (fst (pit_read_channel now (channels pit ! ?i))),
      upd_channel pit ?i (\<lambda>s. snd (pit_read_channel now s)))"
    using assms(2) by (simp add: pit_ioport_read_def Let_def upd_channel_def split: prod.split)
  then show ?thesis using assms by (simp add: chan_keeps_upd pit_read_channel_keeps)
qed

lemma pit_reset_channel:
  "chan_ok (pit_load_count now 0 (s\<lparr>mode := 3, gate := g\<rparr>))"
  "mode (pit_load_count now 0 (s\<lparr>mode := 3, gate := g\<rparr>)) = 3"
  "(irq_timer (pit_load_count now 0 (s\<lparr>mode := 3, gate := g\<rparr>)) = None) = (irq_timer s = None)"
  by (simp_all add: pit_load_count_def Let_def chan_ok_def)

lemma length_3: "length xs = 3 \<Longrightarrow> \<exists>a b c. xs = [a, b, c]"
  by (metis (no_types) length_0_conv length_Suc_conv numeral_3_eq_3)

lemma pit_reset_channels:
  assumes "channels pit = [a, b, c]"
  shows "pit_reset now pit = pit\<lparr>channels :=
    [pit_load_count now 0 (a\<lparr>mode := 3, gate := 1\<rparr>), pit_load_count now 0 (b\<lparr>mode := 3, gate := 1\<rparr>),
     pit_load_count now 0 (c\<lparr>mode := 3, gate := 0\<rparr>)]\<rparr>"
  by (simp add: pit_reset_def upd_channel_def assms)

lemma pit_reset_inv:
  assumes "length (channels pit) = 3" "\<And>i. i < 3 \<Longrightarrow> (irq_timer (channels pit ! i) = None) = (i \<noteq> 0)"
  shows "pit_inv (pit_reset now pit)"
proof -
  obtain a b c where "channels pit = [a, b, c]" using length_3 [OF assms(1)] by blast
  then show ?thesis
    using assms(2) [of 0] assms(2) [of 1] assms(2) [of 2]
    by (simp add: pit_reset_channels pit_inv_def pit_reset_channel less_Suc_eq numeral_3_eq_3 all_conj_distrib)
qed

lemma pit_step_inv: "pit_inv pit \<Longrightarrow> \<exists>p. pit_step pit ev = Inr p \<and> pit_inv p"
proof -
  assume i: "pit_inv pit"
  obtain now e where ev: "ev = (now, e)" by force
  show ?thesis
  proof (cases e)
    case (PWrite addr val)
    with pit_ioport_write_inv [OF i, of now addr val] ev show ?thesis by (auto simp: pit_step_def)
  next
    case (PRead addr)
    with pit_ioport_read_inv [OF i, of addr now] i ev show ?thesis by (auto simp: pit_step_def)
  next
    case PReset
    moreover have "pit_inv (pit_reset now pit)" using i by (intro pit_reset_inv) (simp_all add: pit_inv_def)
    ultimately show ?thesis by (simp add: pit_step_def ev)
  qed (simp_all add: pit_step_def ev i pit_set_gate_def chan_keeps_upd)
qed

interpretation pit_sys: safe_system pit_step pit_inv
proof
  fix s e t
  assume "pit_inv s" "pit_step s e = Inr t"
  then show "pit_inv t" using pit_step_inv [of s e] by auto
next
  fix s e
  assume "pit_inv s"
  then show "\<exists>t. pit_step s e = Inr t" using pit_step_inv [of s e] by blast
qed

section \<open>Counter values and reads\<close>

lemma to_int_small: "unat x < 2 ^ 31 \<Longrightarrow> to_int x = int (unat x)"
proof -
  assume a: "unat x < 2 ^ 31"
  then have "unat (ucast x :: u32) = unat x" by (simp add: unat_ucast_32)
  with a show ?thesis by (simp add: to_int_def sint_small)
qed

lemma word_sub_mod: "0 < unat c \<Longrightarrow> unat (c - m mod c) \<le> unat c" for c m :: u64
proof -
  assume "0 < unat c"
  then have "unat (m mod c) \<le> unat c" unfolding unat_mod_distrib by (intro less_imp_le mod_less_divisor)
  then show ?thesis by (simp add: unat_sub word_le_nat_alt)
qed

lemma pit_get_count_range:
  assumes "chan_ok s"
  shows "0 \<le> pit_get_count now s \<and> pit_get_count now s \<le> 65536"
proof -
  have a: "unat (x AND 0xffff) \<le> 65536" for x :: u64
  proof -
    have "x AND 0xffff \<le> 0xffff" by (rule word_and_le1)
    then have "unat (x AND 0xffff) \<le> unat (0xffff :: u64)" by (rule word_le_nat_alt [THEN iffD1])
    also have "\<dots> \<le> 65536" by simp
    finally show ?thesis .
  qed
  have c: "0 < unat (count64 s)" "unat (count64 s) \<le> 65536"
    using count64_nat [OF assms] count_bound [OF assms] by linarith+
  have b: "unat (count64 s - x mod count64 s) \<le> 65536" for x using word_sub_mod [OF c(1)] c(2) by (rule le_trans)
  have t: "0 \<le> to_int x \<and> to_int x \<le> 65536" if "unat x \<le> 65536" for x
  proof -
    from that have "to_int x = int (unat x)" by (intro to_int_small) simp
    with that show ?thesis by linarith
  qed
  show ?thesis unfolding pit_get_count_def Let_def using t [OF a] t [OF b] by (simp split: if_split)
qed

lemma and_255_range: "0 \<le> x AND 0xff \<and> x AND 0xff \<le> (255 :: int)"
  using AND_upper2 [of 255 x] by (simp add: AND_lower)

lemma pit_read_range: "0 \<le> fst (pit_read_channel now s) \<and> fst (pit_read_channel now s) \<le> 255"
proof -
  have u8: "0 \<le> uint b \<and> uint b \<le> 255" for b :: u8
    using of_nat_le_iff [where 'a = int, THEN iffD2, OF unat_byte [of b]] by simp
  have lo: "0 \<le> uint (w AND 0xff) \<and> uint (w AND 0xff) \<le> 255" for w :: u16
    using and_255_range [of "uint w"] by (simp add: uint_and)
  have hi: "0 \<le> uint (drop_bit 8 w) \<and> uint (drop_bit 8 w) \<le> 255" for w :: u16
  proof -
    have "unat w < 2 ^ LENGTH(16)" by (rule unsigned_less)
    then have "unat w div 256 \<le> 255" by simp
    moreover have "uint (drop_bit 8 w) = int (unat w div 256)"
      by (subst uint_nat, subst unat_drop_bit_eq) (simp add: drop_bit_nat_def)
    ultimately show ?thesis by linarith
  qed
  show ?thesis
    unfolding pit_read_channel_def Let_def using u8 lo hi and_255_range by (simp split: if_split)
qed

lemma pit_initfn_reset: "pit_inv (pit_reset now pit_initfn)"
proof (rule pit_reset_inv)
  fix i :: nat
  assume "i < 3"
  then have "i = 0 \<or> i = 1 \<or> i = 2" by linarith
  then show "(irq_timer (channels pit_initfn ! i) = None) = (i \<noteq> 0)"
    by (auto simp: pit_initfn_def pit_zero_def)
qed (simp add: pit_initfn_def)

lemma pit_inv_channels: "pit_inv p \<Longrightarrow> list_all chan_ok (channels p)"
  by (simp add: pit_inv_def list_all_length)

text \<open>
  C26: the timer is safe for every guest. Once the created device has been reset, no sequence of
  byte accesses to its ports, gate changes, expirations and resets, at any times, indexes outside
  the three channels; every channel keeps a count between 1 and 65536 (so that no operation divides
  by zero), the counter it computes at any time lies in the same range, and every read of a channel
  is a byte.
\<close>

theorem pit_safe:
  "\<exists>p. run_err pit_step (pit_reset t0 pit_initfn) es = Inr p \<and> length (channels p) = 3
     \<and> list_all (\<lambda>s. 1 \<le> count s \<and> count s \<le> 65536
          \<and> 0 \<le> pit_get_count now s \<and> pit_get_count now s \<le> 65536
          \<and> 0 \<le> fst (pit_read_channel now s) \<and> fst (pit_read_channel now s) \<le> 255) (channels p)"
proof -
  obtain p where p: "run_err pit_step (pit_reset t0 pit_initfn) es = Inr p" "pit_inv p"
    using pit_sys.safe_run [OF pit_initfn_reset] by blast
  have "list_all (\<lambda>s. 1 \<le> count s \<and> count s \<le> 65536
          \<and> 0 \<le> pit_get_count now s \<and> pit_get_count now s \<le> 65536
          \<and> 0 \<le> fst (pit_read_channel now s) \<and> fst (pit_read_channel now s) \<le> 255) (channels p)"
    using pit_inv_channels [OF p(2)] pit_get_count_range pit_read_range
    by (auto simp: chan_ok_def elim!: list.pred_mono_strong)
  with p show ?thesis by (auto simp: pit_inv_def)
qed

lemma bytes_of_u16: "uint (w AND 0xff) + 256 * uint (drop_bit 8 w) = uint w" for w :: u16
proof -
  have "uint (w AND 0xff) = uint w mod 256"
    using take_bit_eq_mask [of 8 "uint w"] by (simp add: uint_and mask_eq_exp_minus_1 take_bit_eq_mod)
  moreover have "uint (drop_bit 8 w) = uint w div 256"
    by (subst uint_nat, subst unat_drop_bit_eq) (simp add: drop_bit_nat_def zdiv_int)
  ultimately show ?thesis by simp
qed

lemma pit_latch_command:
  assumes "i < 3" "channels pit ! i = s" "count_latched s = 0"
  shows "pit_ioport_write t0 pit 3 (push_bit 6 (of_nat i)) = Some (upd_channel pit i (\<lambda>s.
    s\<lparr>latched_count := word_of_int (pit_get_count t0 s), count_latched := rw_mode s\<rparr>))"
proof -
  have "i = 0 \<or> i = 1 \<or> i = 2" using assms(1) by linarith
  then show ?thesis
    using assms(2,3) by (auto simp: pit_ioport_write_def pit_write_control_def pit_latch_count_def upd_channel_def)
qed

lemma pit_read_at:
  assumes "i < 3"
  shows "pit_ioport_read now pit (of_nat i) =
    Some (word_of_int (fst (pit_read_channel now (channels pit ! i))),
      pit\<lparr>channels := (channels pit)[i := snd (pit_read_channel now (channels pit ! i))]\<rparr>)"
proof -
  have "i = 0 \<or> i = 1 \<or> i = 2" using assms by linarith
  then have "unat (of_nat i AND 3 :: u32) = i" by auto
  then show ?thesis using assms by (simp add: pit_ioport_read_def Let_def split: prod.split)
qed

lemma uint_byte_u32: "0 \<le> k \<Longrightarrow> k \<le> 255 \<Longrightarrow> uint (word_of_int k :: u32) = k"
  by (simp add: unsigned_of_int take_bit_int_eq_self)

text \<open>
  A latched counter is read back exactly. A latch command for a channel in word access mode
  with nothing latched, followed by two reads of the channel at any later times, returns the low
  and the high byte of the counter as it was when the command was written, however much the counter
  has moved since, and leaves the channel with nothing latched and otherwise as it was.
\<close>

theorem pit_latch_roundtrip:
  assumes "i < 3" "length (channels pit) = 3" "s = channels pit ! i"
    and "rw_mode s = RW_STATE_WORD0" "count_latched s = 0" "status_latched s = 0"
  shows "\<exists>p1 b0 p2 b1 p3. pit_ioport_write t0 pit 3 (push_bit 6 (of_nat i)) = Some p1
    \<and> pit_ioport_read t1 p1 (of_nat i) = Some (b0, p2) \<and> pit_ioport_read t2 p2 (of_nat i) = Some (b1, p3)
    \<and> uint b0 + 256 * uint b1 = pit_get_count t0 s mod 65536
    \<and> p3 = pit\<lparr>channels := (channels pit)[i := s\<lparr>latched_count := word_of_int (pit_get_count t0 s)\<rparr>]\<rparr>"
proof -
  define w :: u16 where "w = word_of_int (pit_get_count t0 s)"
  define s1 where "s1 = s\<lparr>latched_count := w, count_latched := RW_STATE_WORD0\<rparr>"
  define s2 where "s2 = s\<lparr>latched_count := w, count_latched := RW_STATE_MSB\<rparr>"
  let ?pit = "\<lambda>s. pit\<lparr>channels := (channels pit)[i := s]\<rparr>"
  have p1: "pit_ioport_write t0 pit 3 (push_bit 6 (of_nat i)) = Some (?pit s1)"
    using pit_latch_command [OF assms(1) assms(3) [symmetric] assms(5)] assms(3,4)
    by (simp add: upd_channel_def s1_def w_def)
  have r1: "pit_read_channel t1 s1 = (uint (w AND 0xff), s2)"
    using assms(6) by (simp add: pit_read_channel_def s1_def s2_def RW_STATE_WORD0_def RW_STATE_MSB_def)
  have r2: "pit_read_channel t2 s2 = (uint (drop_bit 8 w), s\<lparr>latched_count := w\<rparr>)"
    using assms(5,6) by (simp add: pit_read_channel_def s2_def RW_STATE_WORD0_def RW_STATE_MSB_def)
  have b: "uint (word_of_int (uint (w AND 0xff)) :: u32) = uint (w AND 0xff)"
    "uint (word_of_int (uint (drop_bit 8 w)) :: u32) = uint (drop_bit 8 w)"
    using pit_read_range [of t1 s1] pit_read_range [of t2 s2]
    by (simp_all only: r1 r2 fst_conv uint_byte_u32)
  have v: "uint (w AND 0xff) + 256 * uint (drop_bit 8 w) = pit_get_count t0 s mod 65536"
    unfolding bytes_of_u16 by (simp add: w_def unsigned_of_int take_bit_eq_mod)
  have "pit_ioport_read t1 (?pit s1) (of_nat i) = Some (word_of_int (uint (w AND 0xff)), ?pit s2)"
    using assms(1,2) by (simp add: pit_read_at r1)
  moreover have "pit_ioport_read t2 (?pit s2) (of_nat i)
      = Some (word_of_int (uint (drop_bit 8 w)), ?pit (s\<lparr>latched_count := w\<rparr>))"
    using assms(1,2) by (simp add: pit_read_at r2)
  ultimately show ?thesis using p1 v unfolding w_def [symmetric] by (metis b)
qed

text \<open>
  The HPET hooks miss the timer. In the world \<open>pit_init\<close> makes, neither hook changes the device,
  in any state it may have reached: the expiry its interrupt timer is armed for, the level it drives
  and its registers stay as they are, so that a guest in HPET legacy mode still gets the
  interrupts of the 8254.
\<close>

lemma hpet_pit_ineffective:
  "pit_dev (hpet_pit_disable w) = pit_dev w \<and> pit_dev (hpet_pit_enable now w) = pit_dev w
   \<and> pit_state (hpet_pit_disable pit_world) = pit_state pit_world"
  by (simp add: hpet_pit_disable_def hpet_pit_enable_def upd_channel_def pit_world_def pit_zero_def)

section \<open>Witnesses\<close>

definition pit_wit :: PITChannelState where
  "pit_wit = pit_zero\<lparr>irq_timer := Some None, mode := 3, count := 100\<rparr>"

lemma pit_wit_ok: "chan_ok pit_wit" "mode pit_wit = 3" "2 \<le> count pit_wit" "irq_timer pit_wit \<noteq> None" "clock_ok pit_wit 7"
  by (simp_all add: pit_wit_def pit_zero_def chan_ok_def clock_ok_def)

lemma pit_wit_armed: "irq_timer (pit_irq_timer_update pit_wit 7) = Some (Some 41904)"
  by code_simp

text \<open>A square wave, and a rate generator of 100 ticks: armed for tick 101, late by one.\<close>

definition pit_rate_wit :: PITChannelState where
  "pit_rate_wit = pit_zero\<lparr>irq_timer := Some None, mode := 2, count := 100\<rparr>"

lemma pit_rate_wit_ok: "chan_ok pit_rate_wit" "mode pit_rate_wit = 2" "count pit_rate_wit = 100" "irq_timer pit_rate_wit \<noteq> None" "clock_ok pit_rate_wit 7"
  by (simp_all add: pit_rate_wit_def pit_zero_def chan_ok_def clock_ok_def)

lemma pit_rate_wit_armed: "irq_timer (pit_irq_timer_update pit_rate_wit 7) = Some (Some 84647)"
  by code_simp

lemma pit_rate_wit_ticks:
  "line_level (chan_irq (pit_irq_timer_update pit_rate_wit 7)) = 0"
  "unat (pit_ticks (pit_irq_timer_update pit_rate_wit 7) 83810) = 100"
  "unat (pit_ticks (pit_irq_timer_update pit_rate_wit 7) 7) = 0"
  by code_simp+

theorem pit_irq_level_witness:
  "chan_ok pit_wit \<and> mode pit_wit \<noteq> 2 \<and> clock_ok pit_wit 7
   \<and> line_level (chan_irq (pit_irq_timer_update pit_wit 7)) = pit_get_out1 (pit_irq_timer_update pit_wit 7) 41903
   \<and> line_level (chan_irq (pit_irq_timer_update pit_rate_wit 7)) \<noteq> pit_get_out1 (pit_irq_timer_update pit_rate_wit 7) 83810"
  using pit_irq_level [OF pit_wit_ok(1,4,5) refl, of 41903] pit_irq_level [OF pit_rate_wit_ok(1,4,5) refl, of 83810]
  by (simp add: pit_wit_ok pit_wit_armed pit_rate_wit_ok pit_rate_wit_armed pit_rate_wit_ticks)

theorem pit_square_wave_witness:
  "\<exists>e k. irq_timer (pit_irq_timer_update pit_wit 7) = Some (Some e) \<and> 7 < unat e \<and> unat e \<le> 55000007
    \<and> (k = 1 \<or> k = 2) \<and> line_level (chan_irq ((pit_irq_timer ^^ k) (pit_irq_timer_update pit_wit 7)))
      = 1 - line_level (chan_irq (pit_irq_timer_update pit_wit 7))"
  using pit_square_wave [OF pit_wit_ok(1,3,2,4,5) _ refl] by simp

definition pit_wit_dev :: PITState where
  "pit_wit_dev = \<lparr>channels = [pit_wit, pit_wit, pit_wit\<lparr>rw_mode := 3\<rparr>]\<rparr>"

theorem pit_latch_roundtrip_witness:
  "rw_mode (channels pit_wit_dev ! 2) = RW_STATE_WORD0 \<and>
   (\<exists>p1 b0 p2 b1 p3. pit_ioport_write 1000 pit_wit_dev 3 (push_bit 6 (of_nat 2)) = Some p1
    \<and> pit_ioport_read 5000 p1 (of_nat 2) = Some (b0, p2) \<and> pit_ioport_read 9000 p2 (of_nat 2) = Some (b1, p3)
    \<and> uint b0 + 256 * uint b1 = pit_get_count 1000 (channels pit_wit_dev ! 2) mod 65536)"
proof -
  have w: "rw_mode (channels pit_wit_dev ! 2) = RW_STATE_WORD0" "count_latched (channels pit_wit_dev ! 2) = 0"
    "status_latched (channels pit_wit_dev ! 2) = 0" "length (channels pit_wit_dev) = 3" "(2::nat) < 3"
    by (simp_all add: pit_wit_dev_def RW_STATE_WORD0_def pit_wit_def pit_zero_def)
  from pit_latch_roundtrip [OF w(5,4) refl w(1-3), of 1000 5000 9000] w(1) show ?thesis by blast
qed

end
