(* ===== verification/QObject.thy ===== *)
theory QObject
  imports Prelude "HOL-Library.Multiset"
begin

text \<open>
  The reference-counted objects of the monitor protocol: \<open>qobject.h\<close>, \<open>qint.c\<close>, \<open>qbool.c\<close>, \<open>qfloat.c\<close>,
  \<open>qstring.c\<close>, \<open>qlist.c\<close> and \<open>qdict.c\<close>. Error objects (\<open>qerror.c\<close>) are not modelled.

  Memory is a map from addresses to objects, 0 being the null pointer; \<open>qemu_malloc\<close> is the argument
  \<open>p\<close> of the constructors, the address it returned. A \<open>size_t\<close> that counts references or entries is a
  32-bit word; lengths and capacities of strings are naturals (the allocator aborts long before
  they wrap). The C type \<open>double\<close> is the type variable \<open>'d\<close>. A failed assertion, an access outside an
  allocated object and, for the recursive destruction, an exhausted recursion bound are errors.
\<close>

section \<open>Objects\<close>

type_synonym ptr = nat
type_synonym cstr = "u8 list"

datatype qtype_code = QTYPE_NONE | QTYPE_QINT | QTYPE_QSTRING | QTYPE_QDICT | QTYPE_QLIST
  | QTYPE_QFLOAT | QTYPE_QBOOL | QTYPE_QERROR

record QString =
  qs_string :: "u8 list"
  qs_length :: nat
  qs_capacity :: nat

record QDictEntry =
  dkey :: cstr
  dvalue :: ptr

record QDict =
  dsize :: u32
  dtable :: "QDictEntry list list"

datatype 'd qdata = QInt u64 | QStr QString | QDictD QDict | QListD "ptr list" | QFloat 'd | QBool int

record 'd QObject =
  refcnt :: u32
  qdat :: "'d qdata"

type_synonym 'd qheap = "ptr \<rightharpoonup> 'd QObject"

datatype qerr = AssertFailed | BadAccess | NoFuel

definition access :: "'d qheap \<Rightarrow> ptr \<Rightarrow> qerr + 'd QObject" where
  "access h a = (case h a of None \<Rightarrow> Inl BadAccess | Some x \<Rightarrow> Inr x)"

definition set_data :: "ptr \<Rightarrow> 'd qdata \<Rightarrow> 'd qheap \<Rightarrow> 'd qheap" where
  "set_data p d h = (case h p of None \<Rightarrow> h | Some x \<Rightarrow> h(p \<mapsto> x\<lparr>qdat := d\<rparr>))"

fun type_of :: "'d qdata \<Rightarrow> qtype_code" where
  "type_of (QInt _) = QTYPE_QINT"
| "type_of (QStr _) = QTYPE_QSTRING"
| "type_of (QDictD _) = QTYPE_QDICT"
| "type_of (QListD _) = QTYPE_QLIST"
| "type_of (QFloat _) = QTYPE_QFLOAT"
| "type_of (QBool _) = QTYPE_QBOOL"

definition QOBJECT_INIT :: "ptr \<Rightarrow> 'd qdata \<Rightarrow> 'd qheap \<Rightarrow> 'd qheap" where
  "QOBJECT_INIT p d h = h(p \<mapsto> \<lparr>refcnt = 1, qdat = d\<rparr>)"

definition qobject_type :: "'d qheap \<Rightarrow> ptr \<Rightarrow> qerr + qtype_code" where
  "qobject_type h a = ebind (access h a) (\<lambda>x. Inr (type_of (qdat x)))"

definition qobject_incref :: "'d qheap \<Rightarrow> ptr \<Rightarrow> qerr + 'd qheap" where
  "qobject_incref h a =
     (if a = 0 then Inr h
      else ebind (access h a) (\<lambda>x. Inr (h(a \<mapsto> x\<lparr>refcnt := refcnt x + 1\<rparr>))))"

section \<open>Destruction\<close>

text \<open>
  The destructors, over the function \<open>dec\<close> that drops a reference. Each takes the object apart in
  memory before it frees it: an entry is unlinked, then the value it held is dropped.
\<close>

definition QDICT_BUCKET_MAX :: nat where "QDICT_BUCKET_MAX = 512"

definition free_obj :: "ptr \<Rightarrow> 'd qheap \<Rightarrow> 'd qheap" where
  "free_obj p h = h(p := None)"

type_synonym 'd dec = "'d qheap \<Rightarrow> ptr \<Rightarrow> qerr + 'd qheap"

fun qlist_destroy_loop :: "'d dec \<Rightarrow> ptr \<Rightarrow> ptr list \<Rightarrow> 'd qheap \<Rightarrow> qerr + 'd qheap" where
  "qlist_destroy_loop dec p [] h = Inr h"
| "qlist_destroy_loop dec p (v # vs) h =
     ebind (dec (set_data p (QListD vs) h) v) (qlist_destroy_loop dec p vs)"

definition qlist_destroy_obj :: "'d dec \<Rightarrow> ptr \<Rightarrow> ptr list \<Rightarrow> 'd qheap \<Rightarrow> qerr + 'd qheap" where
  "qlist_destroy_obj dec p vs h = ebind (qlist_destroy_loop dec p vs h) (\<lambda>h. Inr (free_obj p h))"

definition qentry_destroy :: "'d dec \<Rightarrow> QDictEntry \<Rightarrow> 'd qheap \<Rightarrow> qerr + 'd qheap" where
  "qentry_destroy dec e h = (if dvalue e = 0 then Inl AssertFailed else dec h (dvalue e))"

fun qdict_destroy_bucket :: "'d dec \<Rightarrow> ptr \<Rightarrow> QDict \<Rightarrow> nat \<Rightarrow> QDictEntry list \<Rightarrow> 'd qheap \<Rightarrow> qerr + 'd qheap" where
  "qdict_destroy_bucket dec p d i [] h = Inr h"
| "qdict_destroy_bucket dec p d i (e # es) h =
     ebind (qentry_destroy dec e (set_data p (QDictD (d\<lparr>dtable := (dtable d)[i := es]\<rparr>)) h))
       (qdict_destroy_bucket dec p d i es)"

fun qdict_destroy_loop :: "'d dec \<Rightarrow> ptr \<Rightarrow> QDict \<Rightarrow> nat list \<Rightarrow> 'd qheap \<Rightarrow> qerr + 'd qheap" where
  "qdict_destroy_loop dec p d [] h = Inr h"
| "qdict_destroy_loop dec p d (i # is) h =
     ebind (qdict_destroy_bucket dec p d i (dtable d ! i) h)
       (qdict_destroy_loop dec p (d\<lparr>dtable := (dtable d)[i := []]\<rparr>) is)"

definition qdict_destroy_obj :: "'d dec \<Rightarrow> ptr \<Rightarrow> QDict \<Rightarrow> 'd qheap \<Rightarrow> qerr + 'd qheap" where
  "qdict_destroy_obj dec p d h =
     ebind (qdict_destroy_loop dec p d [0..<QDICT_BUCKET_MAX] h) (\<lambda>h. Inr (free_obj p h))"

definition qobject_destroy :: "'d dec \<Rightarrow> ptr \<Rightarrow> 'd qdata \<Rightarrow> 'd qheap \<Rightarrow> qerr + 'd qheap" where
  "qobject_destroy dec p d h =
     (case d of
        QDictD dict \<Rightarrow> qdict_destroy_obj dec p dict h
      | QListD vs \<Rightarrow> qlist_destroy_obj dec p vs h
      | _ \<Rightarrow> Inr (free_obj p h))"

text \<open>
  The recursion of \<open>qobject_decref\<close> through the destructors is bounded by the fuel: one unit for
  each object whose destruction is in progress, of which there are at most as many as objects.
\<close>

primrec qobject_decref :: "nat \<Rightarrow> 'd dec" where
  "qobject_decref 0 h a = Inl NoFuel"
| "qobject_decref (Suc n) h a =
     (if a = 0 then Inr h
      else ebind (access h a) (\<lambda>x.
        let rc = refcnt x - 1; h = h(a \<mapsto> x\<lparr>refcnt := rc\<rparr>)
        in if rc = 0 then qobject_destroy (qobject_decref n) a (qdat x) h else Inr h))"

section \<open>Integers, booleans, floats\<close>

definition qint_from_int :: "ptr \<Rightarrow> u64 \<Rightarrow> 'd qheap \<Rightarrow> 'd qheap" where
  "qint_from_int p v h = QOBJECT_INIT p (QInt v) h"

definition qbool_from_int :: "ptr \<Rightarrow> int \<Rightarrow> 'd qheap \<Rightarrow> 'd qheap" where
  "qbool_from_int p v h = QOBJECT_INIT p (QBool v) h"

definition qfloat_from_double :: "ptr \<Rightarrow> 'd \<Rightarrow> 'd qheap \<Rightarrow> 'd qheap" where
  "qfloat_from_double p v h = QOBJECT_INIT p (QFloat v) h"

text \<open>A conversion returns the null pointer when the type differs; reading through it is an error.\<close>

definition qobject_to :: "qtype_code \<Rightarrow> 'd qheap \<Rightarrow> ptr \<Rightarrow> qerr + ptr" where
  "qobject_to t h a = ebind (qobject_type h a) (\<lambda>t'. Inr (if t' \<noteq> t then 0 else a))"

definition qobject_to_qint :: "'d qheap \<Rightarrow> ptr \<Rightarrow> qerr + ptr" where
  "qobject_to_qint = qobject_to QTYPE_QINT"
definition qobject_to_qbool :: "'d qheap \<Rightarrow> ptr \<Rightarrow> qerr + ptr" where
  "qobject_to_qbool = qobject_to QTYPE_QBOOL"
definition qobject_to_qfloat :: "'d qheap \<Rightarrow> ptr \<Rightarrow> qerr + ptr" where
  "qobject_to_qfloat = qobject_to QTYPE_QFLOAT"
definition qobject_to_qstring :: "'d qheap \<Rightarrow> ptr \<Rightarrow> qerr + ptr" where
  "qobject_to_qstring = qobject_to QTYPE_QSTRING"
definition qobject_to_qlist :: "'d qheap \<Rightarrow> ptr \<Rightarrow> qerr + ptr" where
  "qobject_to_qlist = qobject_to QTYPE_QLIST"
definition qobject_to_qdict :: "'d qheap \<Rightarrow> ptr \<Rightarrow> qerr + ptr" where
  "qobject_to_qdict = qobject_to QTYPE_QDICT"

definition get_int :: "'d qheap \<Rightarrow> ptr \<Rightarrow> qerr + u64" where
  "get_int h a = ebind (access h a) (\<lambda>x. case qdat x of QInt v \<Rightarrow> Inr v | _ \<Rightarrow> Inl BadAccess)"

definition get_bool :: "'d qheap \<Rightarrow> ptr \<Rightarrow> qerr + int" where
  "get_bool h a = ebind (access h a) (\<lambda>x. case qdat x of QBool v \<Rightarrow> Inr v | _ \<Rightarrow> Inl BadAccess)"

definition get_double :: "'d qheap \<Rightarrow> ptr \<Rightarrow> qerr + 'd" where
  "get_double h a = ebind (access h a) (\<lambda>x. case qdat x of QFloat v \<Rightarrow> Inr v | _ \<Rightarrow> Inl BadAccess)"

definition get_str :: "'d qheap \<Rightarrow> ptr \<Rightarrow> qerr + u8 list" where
  "get_str h a = ebind (access h a) (\<lambda>x. case qdat x of QStr v \<Rightarrow> Inr (qs_string v) | _ \<Rightarrow> Inl BadAccess)"

definition get_list :: "'d qheap \<Rightarrow> ptr \<Rightarrow> qerr + ptr list" where
  "get_list h a = ebind (access h a) (\<lambda>x. case qdat x of QListD v \<Rightarrow> Inr v | _ \<Rightarrow> Inl BadAccess)"

definition get_dict :: "'d qheap \<Rightarrow> ptr \<Rightarrow> qerr + QDict" where
  "get_dict h a = ebind (access h a) (\<lambda>x. case qdat x of QDictD v \<Rightarrow> Inr v | _ \<Rightarrow> Inl BadAccess)"

section \<open>Lists\<close>

definition qlist_new :: "ptr \<Rightarrow> 'd qheap \<Rightarrow> 'd qheap" where
  "qlist_new p h = QOBJECT_INIT p (QListD []) h"

definition qlist_append_obj :: "'d qheap \<Rightarrow> ptr \<Rightarrow> ptr \<Rightarrow> qerr + 'd qheap" where
  "qlist_append_obj h qlist v = ebind (get_list h qlist) (\<lambda>vs. Inr (set_data qlist (QListD (vs @ [v])) h))"

primrec iter_list :: "(ptr \<Rightarrow> 's \<Rightarrow> qerr + 's) \<Rightarrow> ptr list \<Rightarrow> 's \<Rightarrow> qerr + 's" where
  "iter_list f [] s = Inr s"
| "iter_list f (v # vs) s = ebind (f v s) (iter_list f vs)"

definition qlist_iter :: "'d qheap \<Rightarrow> ptr \<Rightarrow> (ptr \<Rightarrow> 's \<Rightarrow> qerr + 's) \<Rightarrow> 's \<Rightarrow> qerr + 's" where
  "qlist_iter h qlist iter s = ebind (get_list h qlist) (\<lambda>vs. iter_list iter vs s)"

definition qlist_copy_elem :: "ptr \<Rightarrow> ptr \<Rightarrow> 'd qheap \<Rightarrow> qerr + 'd qheap" where
  "qlist_copy_elem dst obj h = ebind (qobject_incref h obj) (\<lambda>h. qlist_append_obj h dst obj)"

definition qlist_copy :: "ptr \<Rightarrow> 'd qheap \<Rightarrow> ptr \<Rightarrow> qerr + 'd qheap" where
  "qlist_copy dst h src =
     (let h = qlist_new dst h in qlist_iter h src (qlist_copy_elem dst) h)"

definition qlist_pop :: "'d qheap \<Rightarrow> ptr \<Rightarrow> qerr + (ptr \<times> 'd qheap)" where
  "qlist_pop h qlist =
     (if qlist = 0 then Inr (0, h)
      else ebind (get_list h qlist) (\<lambda>vs.
        case vs of [] \<Rightarrow> Inr (0, h) | v # vs \<Rightarrow> Inr (v, set_data qlist (QListD vs) h)))"

definition qlist_peek :: "'d qheap \<Rightarrow> ptr \<Rightarrow> qerr + ptr" where
  "qlist_peek h qlist =
     (if qlist = 0 then Inr 0
      else ebind (get_list h qlist) (\<lambda>vs. case vs of [] \<Rightarrow> Inr 0 | v # vs \<Rightarrow> Inr v))"

definition qlist_empty :: "'d qheap \<Rightarrow> ptr \<Rightarrow> qerr + bool" where
  "qlist_empty h qlist = ebind (get_list h qlist) (\<lambda>vs. Inr (vs = []))"

section \<open>Dictionaries\<close>

text \<open>An entry pointer is the bucket and the position of the entry in the bucket.\<close>

definition tdb_hash :: "cstr \<Rightarrow> u32" where
  "tdb_hash name =
     (let v = foldl (\<lambda>v (i, c). v + push_bit (((i * 5) mod 2 ^ 32) mod 24) (ucast c))
                (0x238F13AF * of_nat (length name)) (enumerate 0 name)
      in 1103515243 * v + 12345)"

definition bucket_of :: "cstr \<Rightarrow> nat" where
  "bucket_of key = unat (tdb_hash key mod of_nat QDICT_BUCKET_MAX)"

definition qdict_new :: "ptr \<Rightarrow> 'd qheap \<Rightarrow> 'd qheap" where
  "qdict_new p h = QOBJECT_INIT p (QDictD \<lparr>dsize = 0, dtable = replicate QDICT_BUCKET_MAX []\<rparr>) h"

definition alloc_entry :: "cstr \<Rightarrow> ptr \<Rightarrow> QDictEntry" where
  "alloc_entry key v = \<lparr>dkey = key, dvalue = v\<rparr>"

fun find_index :: "cstr \<Rightarrow> QDictEntry list \<Rightarrow> nat option" where
  "find_index key [] = None"
| "find_index key (e # es) = (if dkey e = key then Some 0 else map_option Suc (find_index key es))"

definition qdict_find :: "QDict \<Rightarrow> cstr \<Rightarrow> nat \<Rightarrow> (nat \<times> nat) option" where
  "qdict_find d key bucket = map_option (Pair bucket) (find_index key (dtable d ! bucket))"

definition entry_at :: "QDict \<Rightarrow> nat \<times> nat \<Rightarrow> QDictEntry" where
  "entry_at d e = dtable d ! fst e ! snd e"

definition set_entry :: "QDict \<Rightarrow> nat \<times> nat \<Rightarrow> ptr \<Rightarrow> QDict" where
  "set_entry d e v =
     d\<lparr>dtable := (dtable d)[fst e := (dtable d ! fst e)[snd e := (entry_at d e)\<lparr>dvalue := v\<rparr>]]\<rparr>"

definition insert_entry :: "QDict \<Rightarrow> nat \<Rightarrow> QDictEntry \<Rightarrow> QDict" where
  "insert_entry d b e = d\<lparr>dtable := (dtable d)[b := e # dtable d ! b], dsize := dsize d + 1\<rparr>"

definition remove_entry :: "QDict \<Rightarrow> nat \<times> nat \<Rightarrow> QDict" where
  "remove_entry d e = d\<lparr>dtable := (dtable d)[fst e :=
     take (snd e) (dtable d ! fst e) @ drop (Suc (snd e)) (dtable d ! fst e)]\<rparr>"

definition qdict_put_obj :: "nat \<Rightarrow> 'd qheap \<Rightarrow> ptr \<Rightarrow> cstr \<Rightarrow> ptr \<Rightarrow> qerr + 'd qheap" where
  "qdict_put_obj n h qdict key v =
     ebind (get_dict h qdict) (\<lambda>d.
       let bucket = bucket_of key in
       case qdict_find d key bucket of
         Some e \<Rightarrow>
           ebind (qobject_decref n h (dvalue (entry_at d e))) (\<lambda>h.
             ebind (get_dict h qdict) (\<lambda>d. Inr (set_data qdict (QDictD (set_entry d e v)) h)))
       | None \<Rightarrow> Inr (set_data qdict (QDictD (insert_entry d bucket (alloc_entry key v))) h))"

definition dict_get :: "QDict \<Rightarrow> cstr \<Rightarrow> ptr" where
  "dict_get d key = (case qdict_find d key (bucket_of key) of None \<Rightarrow> 0 | Some e \<Rightarrow> dvalue (entry_at d e))"

definition qdict_get :: "'d qheap \<Rightarrow> ptr \<Rightarrow> cstr \<Rightarrow> qerr + ptr" where
  "qdict_get h qdict key = ebind (get_dict h qdict) (\<lambda>d. Inr (dict_get d key))"

definition qdict_haskey :: "'d qheap \<Rightarrow> ptr \<Rightarrow> cstr \<Rightarrow> qerr + int" where
  "qdict_haskey h qdict key =
     ebind (get_dict h qdict) (\<lambda>d. Inr (if qdict_find d key (bucket_of key) = None then 0 else 1))"

definition qdict_size :: "'d qheap \<Rightarrow> ptr \<Rightarrow> qerr + u32" where
  "qdict_size h qdict = ebind (get_dict h qdict) (\<lambda>d. Inr (dsize d))"

definition qdict_get_obj :: "'d qheap \<Rightarrow> ptr \<Rightarrow> cstr \<Rightarrow> qtype_code \<Rightarrow> qerr + ptr" where
  "qdict_get_obj h qdict key type =
     ebind (qdict_get h qdict key) (\<lambda>obj.
       if obj = 0 then Inl AssertFailed
       else ebind (qobject_type h obj) (\<lambda>t. if t \<noteq> type then Inl AssertFailed else Inr obj))"

text \<open>The conversion of an \<open>int64_t\<close> to a \<open>double\<close> is the machine's.\<close>

definition qdict_get_double :: "(u64 \<Rightarrow> 'd) \<Rightarrow> 'd qheap \<Rightarrow> ptr \<Rightarrow> cstr \<Rightarrow> qerr + 'd" where
  "qdict_get_double to_double h qdict key =
     ebind (qdict_get h qdict key) (\<lambda>obj.
       if obj = 0 then Inl AssertFailed
       else ebind (qobject_type h obj) (\<lambda>t.
         if t = QTYPE_QFLOAT then ebind (qobject_to_qfloat h obj) (get_double h)
         else if t = QTYPE_QINT then ebind (qobject_to_qint h obj) (\<lambda>o'. ebind (get_int h o') (Inr \<circ> to_double))
         else Inl AssertFailed))"

definition qdict_get_int :: "'d qheap \<Rightarrow> ptr \<Rightarrow> cstr \<Rightarrow> qerr + u64" where
  "qdict_get_int h qdict key =
     ebind (qdict_get_obj h qdict key QTYPE_QINT) (\<lambda>obj. ebind (qobject_to_qint h obj) (get_int h))"

definition qdict_get_bool :: "'d qheap \<Rightarrow> ptr \<Rightarrow> cstr \<Rightarrow> qerr + int" where
  "qdict_get_bool h qdict key =
     ebind (qdict_get_obj h qdict key QTYPE_QBOOL) (\<lambda>obj. ebind (qobject_to_qbool h obj) (get_bool h))"

definition qdict_get_qlist :: "'d qheap \<Rightarrow> ptr \<Rightarrow> cstr \<Rightarrow> qerr + ptr" where
  "qdict_get_qlist h qdict key = ebind (qdict_get_obj h qdict key QTYPE_QLIST) (qobject_to_qlist h)"

definition qdict_get_qdict :: "'d qheap \<Rightarrow> ptr \<Rightarrow> cstr \<Rightarrow> qerr + ptr" where
  "qdict_get_qdict h qdict key = ebind (qdict_get_obj h qdict key QTYPE_QDICT) (qobject_to_qdict h)"

definition qdict_get_str :: "'d qheap \<Rightarrow> ptr \<Rightarrow> cstr \<Rightarrow> qerr + u8 list" where
  "qdict_get_str h qdict key =
     ebind (qdict_get_obj h qdict key QTYPE_QSTRING) (\<lambda>obj. ebind (qobject_to_qstring h obj) (get_str h))"

definition qdict_get_try_int :: "'d qheap \<Rightarrow> ptr \<Rightarrow> cstr \<Rightarrow> u64 \<Rightarrow> qerr + u64" where
  "qdict_get_try_int h qdict key def_value =
     ebind (qdict_get h qdict key) (\<lambda>obj.
       if obj = 0 then Inr def_value
       else ebind (qobject_type h obj) (\<lambda>t.
         if t \<noteq> QTYPE_QINT then Inr def_value else ebind (qobject_to_qint h obj) (get_int h)))"

definition qdict_get_try_bool :: "'d qheap \<Rightarrow> ptr \<Rightarrow> cstr \<Rightarrow> int \<Rightarrow> qerr + int" where
  "qdict_get_try_bool h qdict key def_value =
     ebind (qdict_get h qdict key) (\<lambda>obj.
       if obj = 0 then Inr def_value
       else ebind (qobject_type h obj) (\<lambda>t.
         if t \<noteq> QTYPE_QBOOL then Inr def_value else ebind (qobject_to_qbool h obj) (get_bool h)))"

definition qdict_get_try_str :: "'d qheap \<Rightarrow> ptr \<Rightarrow> cstr \<Rightarrow> qerr + u8 list option" where
  "qdict_get_try_str h qdict key =
     ebind (qdict_get h qdict key) (\<lambda>obj.
       if obj = 0 then Inr None
       else ebind (qobject_type h obj) (\<lambda>t.
         if t \<noteq> QTYPE_QSTRING then Inr None
         else ebind (qobject_to_qstring h obj) (\<lambda>o'. ebind (get_str h o') (Inr \<circ> Some))))"

definition dict_entries :: "QDict \<Rightarrow> QDictEntry list" where
  "dict_entries d = concat (map (\<lambda>i. dtable d ! i) [0..<QDICT_BUCKET_MAX])"

definition qdict_iter :: "'d qheap \<Rightarrow> ptr \<Rightarrow> (cstr \<Rightarrow> ptr \<Rightarrow> 's \<Rightarrow> 's) \<Rightarrow> 's \<Rightarrow> qerr + 's" where
  "qdict_iter h qdict iter s =
     ebind (get_dict h qdict) (\<lambda>d. Inr (foldl (\<lambda>s e. iter (dkey e) (dvalue e) s) s (dict_entries d)))"

function qdict_next_entry :: "QDict \<Rightarrow> nat \<Rightarrow> (nat \<times> nat) option" where
  "qdict_next_entry d i =
     (if i < QDICT_BUCKET_MAX then (if dtable d ! i \<noteq> [] then Some (i, 0) else qdict_next_entry d (Suc i))
      else None)"
  by pat_completeness auto
termination by (relation "measure (\<lambda>(d, i). QDICT_BUCKET_MAX - i)") auto

declare qdict_next_entry.simps [simp del]

definition qdict_first :: "QDict \<Rightarrow> (nat \<times> nat) option" where
  "qdict_first d = qdict_next_entry d 0"

definition qdict_next :: "QDict \<Rightarrow> nat \<times> nat \<Rightarrow> (nat \<times> nat) option" where
  "qdict_next d e =
     (if Suc (snd e) < length (dtable d ! fst e) then Some (fst e, Suc (snd e))
      else qdict_next_entry d (bucket_of (dkey (entry_at d e)) + 1))"

definition qdict_del :: "nat \<Rightarrow> 'd qheap \<Rightarrow> ptr \<Rightarrow> cstr \<Rightarrow> qerr + 'd qheap" where
  "qdict_del n h qdict key =
     ebind (get_dict h qdict) (\<lambda>d.
       case qdict_find d key (bucket_of key) of
         None \<Rightarrow> Inr h
       | Some e \<Rightarrow>
           ebind (qentry_destroy (qobject_decref n) (entry_at d e) (set_data qdict (QDictD (remove_entry d e)) h))
             (\<lambda>h. ebind (get_dict h qdict) (\<lambda>d. Inr (set_data qdict (QDictD (d\<lparr>dsize := dsize d - 1\<rparr>)) h))))"

section \<open>Strings\<close>

text \<open>
  The buffer is the allocated block; a write outside it is an error. What \<open>qemu_realloc\<close> puts in the
  new part of a block is the argument \<open>junk\<close>. A C string argument is its bytes, without the
  terminator.
\<close>

definition qstring_from_substr :: "cstr \<Rightarrow> int \<Rightarrow> int \<Rightarrow> QString option" where
  "qstring_from_substr str start end' =
     (let len = end' - start + 1 in
      if start < 0 \<or> len < 0 \<or> int (length str) + 1 < start + len then None
      else Some \<lparr>qs_string = take (nat len) (drop (nat start) (str @ [0])) @ [0],
                 qs_length = nat len, qs_capacity = nat len\<rparr>)"

definition qstring_from_str :: "cstr \<Rightarrow> QString option" where
  "qstring_from_str str = qstring_from_substr str 0 (int (length str) - 1)"

definition qstring_new :: "QString option" where
  "qstring_new = qstring_from_str []"

definition capacity_increase :: "u8 \<Rightarrow> QString \<Rightarrow> nat \<Rightarrow> QString" where
  "capacity_increase junk qs len =
     (if qs_capacity qs < qs_length qs + len then
        (let cap = (qs_capacity qs + len) * 2
         in qs\<lparr>qs_capacity := cap,
               qs_string := take (cap + 1) (qs_string qs @ replicate (cap + 1) junk)\<rparr>)
      else qs)"

definition write_bytes :: "u8 list \<Rightarrow> nat \<Rightarrow> u8 list \<Rightarrow> u8 list option" where
  "write_bytes buf off bs =
     (if off + length bs \<le> length buf then Some (take off buf @ bs @ drop (off + length bs) buf) else None)"

definition qstring_append :: "u8 \<Rightarrow> QString \<Rightarrow> cstr \<Rightarrow> QString option" where
  "qstring_append junk qs str =
     (let qs = capacity_increase junk qs (length str)
      in case write_bytes (qs_string qs) (qs_length qs) str of
           None \<Rightarrow> None
         | Some b \<Rightarrow>
             (let n = qs_length qs + length str
              in map_option (\<lambda>b. qs\<lparr>qs_length := n, qs_string := b\<rparr>) (write_bytes b n [0])))"

definition qstring_append_chr :: "u8 \<Rightarrow> QString \<Rightarrow> u8 \<Rightarrow> QString option" where
  "qstring_append_chr junk qs c =
     (let qs = capacity_increase junk qs 1
      in case write_bytes (qs_string qs) (qs_length qs) [c] of
           None \<Rightarrow> None
         | Some b \<Rightarrow>
             (let n = qs_length qs + 1
              in map_option (\<lambda>b. qs\<lparr>qs_length := n, qs_string := b\<rparr>) (write_bytes b n [0])))"

text \<open>Decimal digits, as \<open>snprintf\<close> prints an \<open>int64_t\<close>; at most 20 bytes.\<close>

fun dec_nat :: "nat \<Rightarrow> cstr" where
  "dec_nat n = (if n < 10 then [of_nat (48 + n)] else dec_nat (n div 10) @ [of_nat (48 + n mod 10)])"

declare dec_nat.simps [simp del]

definition qstring_append_int :: "u8 \<Rightarrow> QString \<Rightarrow> u64 \<Rightarrow> QString option" where
  "qstring_append_int junk qs v =
     qstring_append junk qs (if sint v < 0 then 45 # dec_nat (nat (- sint v)) else dec_nat (nat (sint v)))"

section \<open>References\<close>

abbreviation dict_children :: "QDict \<Rightarrow> ptr list" where
  "dict_children d \<equiv> map dvalue (concat (dtable d))"

fun children :: "'d qdata \<Rightarrow> ptr list" where
  "children (QListD vs) = vs"
| "children (QDictD d) = dict_children d"
| "children _ = []"

definition dict_ok :: "QDict \<Rightarrow> bool" where
  "dict_ok d \<longleftrightarrow> length (dtable d) = QDICT_BUCKET_MAX
     \<and> (\<forall>i<QDICT_BUCKET_MAX. distinct (map dkey (dtable d ! i)) \<and> (\<forall>e\<in>set (dtable d ! i). bucket_of (dkey e) = i))
     \<and> dsize d = of_nat (length (concat (dtable d)))"

fun data_ok :: "'d qdata \<Rightarrow> bool" where
  "data_ok (QDictD d) = dict_ok d"
| "data_ok _ = True"

definition refs :: "'d qheap \<Rightarrow> ptr multiset" where
  "refs h = (\<Sum>p\<in>dom h. mset (children (qdat (the (h p)))))"

text \<open>
  The heap invariant: \<open>R\<close> holds the references that the program has besides those in objects, \<open>Z\<close> the
  objects whose destruction is in progress. Every reference points to an object, and the count of
  an object is the number of references to it, which is zero for the objects in \<open>Z\<close> alone.
\<close>

definition qinv :: "ptr set \<Rightarrow> ptr multiset \<Rightarrow> 'd qheap \<Rightarrow> bool" where
  "qinv Z R h \<longleftrightarrow> finite (dom h) \<and> 0 \<notin> dom h \<and> Z \<subseteq> dom h \<and> set_mset (R + refs h) \<subseteq> dom h
     \<and> (\<forall>p x. h p = Some x \<longrightarrow> unat (refcnt x) = count (R + refs h) p \<and> (refcnt x = 0 \<longleftrightarrow> p \<in> Z)
          \<and> (p \<notin> Z \<longrightarrow> data_ok (qdat x)))"

lemma refs_upd:
  assumes "finite (dom h)" "h p = Some x"
  shows "refs (h(p \<mapsto> y)) + mset (children (qdat x)) = refs h + mset (children (qdat y))"
proof -
  have d: "dom (h(p \<mapsto> y)) = insert p (dom h - {p})" "dom h = insert p (dom h - {p})" using assms(2) by auto
  have "refs (h(p \<mapsto> y)) = mset (children (qdat y)) + (\<Sum>q\<in>dom h - {p}. mset (children (qdat (the (h q)))))"
    unfolding refs_def d(1) using assms(1) by (subst sum.insert) (auto intro!: sum.cong)
  moreover have "refs h = mset (children (qdat x)) + (\<Sum>q\<in>dom h - {p}. mset (children (qdat (the (h q)))))"
    unfolding refs_def using assms by (subst d(2), subst sum.insert) auto
  ultimately show ?thesis by (simp add: ac_simps)
qed

lemma refs_new:
  assumes "finite (dom h)" "h p = None"
  shows "refs (h(p \<mapsto> y)) = refs h + mset (children (qdat y))"
proof -
  have "dom (h(p \<mapsto> y)) = insert p (dom h)" "p \<notin> dom h" using assms(2) by auto
  then have "refs (h(p \<mapsto> y)) = mset (children (qdat y)) + (\<Sum>q\<in>dom h. mset (children (qdat (the ((h(p \<mapsto> y)) q)))))"
    unfolding refs_def using assms(1) by simp
  also have "(\<Sum>q\<in>dom h. mset (children (qdat (the ((h(p \<mapsto> y)) q))))) = refs h"
    unfolding refs_def using \<open>p \<notin> dom h\<close> by (intro sum.cong) auto
  finally show ?thesis by (rule trans) (rule add.commute)
qed

lemma refs_del:
  assumes "finite (dom h)" "h p = Some x" "children (qdat x) = []"
  shows "refs (h(p := None)) = refs h"
proof -
  have d: "dom (h(p := None)) = dom h - {p}" "dom h = insert p (dom h - {p})" using assms(2) by auto
  have "refs h = (\<Sum>q\<in>dom h - {p}. mset (children (qdat (the (h q)))))"
    unfolding refs_def using assms by (subst d(2), subst sum.insert) auto
  also have "\<dots> = refs (h(p := None))" unfolding refs_def d(1) by (intro sum.cong) auto
  finally show ?thesis ..
qed

lemma refs_same: "finite (dom h) \<Longrightarrow> h p = Some x \<Longrightarrow> qdat y = qdat x \<Longrightarrow> refs (h(p \<mapsto> y)) = refs h"
  using refs_upd [of h p x y] by simp

lemma qinv_obj:
  assumes "qinv Z R h" "h p = Some x"
  shows "finite (dom h)" "p \<noteq> 0" "unat (refcnt x) = count (R + refs h) p" "refcnt x = 0 \<longleftrightarrow> p \<in> Z"
    "p \<notin> Z \<Longrightarrow> data_ok (qdat x)"
  using assms by (auto simp: qinv_def)

lemma qinv_root: "qinv Z R h \<Longrightarrow> a \<in># R + refs h \<Longrightarrow> \<exists>x. h a = Some x \<and> a \<noteq> 0 \<and> a \<notin> Z"
proof -
  assume q: "qinv Z R h" and a: "a \<in># R + refs h"
  then have "a \<in> dom h" by (auto simp: qinv_def)
  then obtain x where x: "h a = Some x" by auto
  have "0 < count (R + refs h) a" using a by (simp add: count_greater_zero_iff del: count_union)
  then have "0 < unat (refcnt x)" unfolding qinv_obj(3) [OF q x] .
  then have "refcnt x \<noteq> 0" by auto
  with qinv_obj(2,4) [OF q x] x show ?thesis by blast
qed

text \<open>Dropping one of several references; dropping the last; unlinking from an object in destruction.\<close>

lemma unat_dec: "x \<noteq> 0 \<Longrightarrow> unat (x - 1) = unat x - 1" for x :: u32
  by (simp add: unat_minus_one)

lemma qinv_dec:
  assumes "qinv Z (add_mset a R) h" "h a = Some x"
  shows "refcnt x - 1 \<noteq> 0 \<Longrightarrow> qinv Z R (h(a \<mapsto> x\<lparr>refcnt := refcnt x - 1\<rparr>))"
    "refcnt x - 1 = 0 \<Longrightarrow> qinv (insert a Z) R (h(a \<mapsto> x\<lparr>refcnt := refcnt x - 1\<rparr>))"
proof -
  let ?h = "h(a \<mapsto> x\<lparr>refcnt := refcnt x - 1\<rparr>)"
  note q = qinv_obj [OF assms]
  have r: "refs ?h = refs h" by (rule refs_same [OF q(1) assms(2)]) simp
  obtain y where "h a = Some y" "a \<notin> Z" using qinv_root [OF assms(1), of a] by auto
  then have aZ: "a \<notin> Z" and nz: "refcnt x \<noteq> 0" using q(4) by auto
  have c: "unat (refcnt x - 1) = count (R + refs h) a" using q(3) unat_dec [OF nz] by simp
  have o: "h p = Some y \<Longrightarrow> p \<noteq> a \<Longrightarrow> unat (refcnt y) = count (R + refs h) p
      \<and> (refcnt y = 0 \<longleftrightarrow> p \<in> Z) \<and> (p \<notin> Z \<longrightarrow> data_ok (qdat y))" for p y
    using assms(1) by (auto simp: qinv_def)
  have b: "finite (dom ?h)" "0 \<notin> dom ?h" "Z \<subseteq> dom ?h" "set_mset (R + refs h) \<subseteq> dom ?h"
    using assms(1,2) by (auto simp: qinv_def)
  show "qinv Z R ?h" if "refcnt x - 1 \<noteq> 0"
    unfolding qinv_def r using b o c aZ q(5) that by auto
  show "qinv (insert a Z) R ?h" if "refcnt x - 1 = 0"
    unfolding qinv_def r using b o c aZ that by auto
qed

lemma set_data_eq: "h p = Some x \<Longrightarrow> set_data p d h = h(p \<mapsto> x\<lparr>qdat := d\<rparr>)"
  by (simp add: set_data_def)

lemma qinv_store:
  assumes "qinv Z R h" "h p = Some x" "R' + mset (children d) = R + mset (children (qdat x))"
    and "p \<notin> Z \<Longrightarrow> data_ok d"
  shows "qinv Z R' (set_data p d h)"
proof -
  let ?h = "h(p \<mapsto> x\<lparr>qdat := d\<rparr>)"
  have u: "refs ?h + mset (children (qdat x)) = refs h + mset (children d)"
    using refs_upd [OF qinv_obj(1) [OF assms(1,2)] assms(2), of "x\<lparr>qdat := d\<rparr>"] by simp
  have "R' + refs ?h + mset (children (qdat x)) = R' + mset (children d) + refs h"
    by (simp add: u add.assoc)
  also have "\<dots> = R + refs h + mset (children (qdat x))" by (simp add: assms(3) ac_simps)
  finally have r: "R' + refs ?h = R + refs h" by simp
  show ?thesis
    unfolding set_data_eq [of h p x, OF assms(2)] qinv_def r using assms(1,2,4) by (auto simp: qinv_def)
qed

lemma qinv_unlink:
  assumes "qinv Z R h" "h p = Some x" "p \<in> Z"
    and "mset (children (qdat x)) = add_mset v (mset (children d))"
  shows "qinv Z (add_mset v R) (set_data p d h)"
  using assms by (intro qinv_store) auto

lemma qinv_free:
  assumes "qinv (insert p Z) R h" "p \<notin> Z" "h p = Some x" "children (qdat x) = []"
  shows "qinv Z R (free_obj p h)"
proof -
  have r: "refs (h(p := None)) = refs h" using qinv_obj(1) [OF assms(1,3)] assms(3,4) by (rule refs_del)
  have "refcnt x = 0" using qinv_obj(4) [OF assms(1,3)] by simp
  then have "count (R + refs h) p = 0" using qinv_obj(3) [OF assms(1,3)] by simp
  then have n: "p \<notin># R + refs h" by (simp add: count_eq_zero_iff)
  show ?thesis
    unfolding free_obj_def qinv_def r using assms(1,2) n by (auto simp: qinv_def)
qed

section \<open>Destruction keeps the heap\<close>

text \<open>What an operation leaves alone: the objects in \<open>Z\<close>, and the contents of what survives outside \<open>P\<close>.\<close>

definition frame :: "ptr set \<Rightarrow> ptr set \<Rightarrow> 'd qheap \<Rightarrow> 'd qheap \<Rightarrow> bool" where
  "frame P Z h h' \<longleftrightarrow> dom h' \<subseteq> dom h \<and> (\<forall>z\<in>Z. h' z = h z)
     \<and> (\<forall>q y. h' q = Some y \<longrightarrow> q \<notin> P \<longrightarrow> (\<exists>x. h q = Some x \<and> qdat y = qdat x))"

lemma frame_refl [simp]: "frame P Z h h"
  by (simp add: frame_def)

lemma frame_trans: "frame P Z h h' \<Longrightarrow> frame P Z h' h'' \<Longrightarrow> frame P Z h h''"
proof -
  assume a: "frame P Z h h'" "frame P Z h' h''"
  have "\<exists>x. h q = Some x \<and> qdat y = qdat x" if "h'' q = Some y" "q \<notin> P" for q y
  proof -
    obtain x' where "h' q = Some x'" "qdat y = qdat x'" using a(2) \<open>h'' q = Some y\<close> \<open>q \<notin> P\<close> unfolding frame_def by blast
    moreover from this(1) obtain x where "h q = Some x" "qdat x' = qdat x" using a(1) \<open>q \<notin> P\<close> unfolding frame_def by blast
    ultimately show ?thesis by simp
  qed
  moreover have "dom h'' \<subseteq> dom h" using a unfolding frame_def by (meson subset_trans)
  moreover have "\<forall>z\<in>Z. h'' z = h z" using a unfolding frame_def by simp
  ultimately show ?thesis unfolding frame_def by simp
qed

lemma frame_mono: "frame P Z h h' \<Longrightarrow> P \<subseteq> P' \<Longrightarrow> Z' \<subseteq> Z \<Longrightarrow> frame P' Z' h h'"
  unfolding frame_def by blast

lemma frame_set_data: "h p = Some x \<Longrightarrow> frame {p} (Z - {p}) h (set_data p d h)"
  by (auto simp: frame_def set_data_def)

lemma frame_card: "frame P Z h h' \<Longrightarrow> finite (dom h) \<Longrightarrow> card (dom h' - W) \<le> card (dom h - W)"
  by (auto simp: frame_def intro!: card_mono)

definition dec_ok :: "nat \<Rightarrow> 'd dec \<Rightarrow> bool" where
  "dec_ok m dec \<longleftrightarrow> (\<forall>Z R h a. qinv Z (add_mset a R) h \<longrightarrow> card (dom h - Z) \<le> m \<longrightarrow>
     (\<exists>h'. dec h a = Inr h' \<and> qinv Z R h' \<and> frame {} Z h h'))"

lemma unlink_step:
  assumes "dec_ok m dec" "qinv Z R h" "h p = Some x" "p \<in> Z" "card (dom h - Z) \<le> m"
    and "mset (children (qdat x)) = add_mset v (mset (children d))"
  obtains h' where "dec (set_data p d h) v = Inr h'" "qinv Z R h'" "h' p = Some (x\<lparr>qdat := d\<rparr>)"
    "frame {p} (Z - {p}) h h'" "card (dom h' - Z) \<le> m" "v \<noteq> 0"
proof -
  let ?h = "set_data p d h"
  have q: "qinv Z (add_mset v R) ?h" using assms(2-4,6) by (rule qinv_unlink)
  have h: "?h = h(p \<mapsto> x\<lparr>qdat := d\<rparr>)" using assms(3) by (rule set_data_eq)
  then have dm: "dom ?h = dom h" using assms(3) by auto
  then have "card (dom ?h - Z) \<le> m" using assms(5) by simp
  then obtain h' where h': "dec ?h v = Inr h'" "qinv Z R h'" "frame {} Z ?h h'"
    using assms(1) q unfolding dec_ok_def by blast
  have fin: "finite (dom h)" using assms(2) by (simp add: qinv_def)
  have "frame {p} (Z - {p}) h ?h" using assms(3) by (rule frame_set_data)
  moreover have "frame {p} (Z - {p}) ?h h'" using h'(3) by (rule frame_mono) auto
  ultimately have f: "frame {p} (Z - {p}) h h'" by (rule frame_trans)
  have "card (dom h' - Z) \<le> card (dom h - Z)" using f fin by (rule frame_card)
  then have "card (dom h' - Z) \<le> m" using assms(5) by simp
  moreover have "h' p = ?h p" using h'(3) assms(4) by (simp add: frame_def)
  then have "h' p = Some (x\<lparr>qdat := d\<rparr>)" by (simp add: h)
  moreover have "v \<noteq> 0" using qinv_root [OF q, of v] by auto
  ultimately show thesis using that h' f by blast
qed

lemma qlist_destroy_loop_ok:
  assumes "dec_ok m dec" "qinv Z R h" "h p = Some x" "p \<in> Z" "card (dom h - Z) \<le> m" "qdat x = QListD vs"
  shows "\<exists>h' y. qlist_destroy_loop dec p vs h = Inr h' \<and> qinv Z R h' \<and> h' p = Some y
    \<and> children (qdat y) = [] \<and> frame {p} (Z - {p}) h h'"
  using assms(2-6)
proof (induction vs arbitrary: h x)
  case (Cons v vs)
  have "mset (children (qdat x)) = add_mset v (mset (children (QListD vs)))" using Cons.prems(5) by simp
  from unlink_step [OF assms(1) Cons.prems(1-4) this] obtain h' where
    h': "dec (set_data p (QListD vs) h) v = Inr h'" "qinv Z R h'" "h' p = Some (x\<lparr>qdat := QListD vs\<rparr>)"
    "frame {p} (Z - {p}) h h'" "card (dom h' - Z) \<le> m" by blast
  have "qdat (x\<lparr>qdat := QListD vs\<rparr>) = QListD vs" by simp
  from Cons.IH [OF h'(2,3) Cons.prems(3) h'(5) this] obtain h'' y where
    "qlist_destroy_loop dec p vs h' = Inr h''" "qinv Z R h''" "h'' p = Some y" "children (qdat y) = []"
    "frame {p} (Z - {p}) h' h''" by blast
  with h'(1) frame_trans [OF h'(4)] show ?case by simp
qed auto

lemma mset_concat_upd: "i < length xs \<Longrightarrow> mset (concat (xs[i := e # es])) = add_mset e (mset (concat (xs[i := es])))"
  by (simp add: upd_conv_take_nth_drop)

lemma qdict_destroy_bucket_ok:
  assumes "dec_ok m dec" "qinv Z R h" "h p = Some x" "p \<in> Z" "card (dom h - Z) \<le> m"
    and "qdat x = QDictD (d\<lparr>dtable := (dtable d)[i := es]\<rparr>)" "i < length (dtable d)"
  shows "\<exists>h' y. qdict_destroy_bucket dec p d i es h = Inr h' \<and> qinv Z R h' \<and> h' p = Some y
    \<and> qdat y = QDictD (d\<lparr>dtable := (dtable d)[i := []]\<rparr>) \<and> frame {p} (Z - {p}) h h' \<and> card (dom h' - Z) \<le> m"
  using assms(2-6)
proof (induction es arbitrary: h x)
  case (Cons e es)
  let ?d = "QDictD (d\<lparr>dtable := (dtable d)[i := es]\<rparr>)"
  have "mset (children (qdat x)) = add_mset (dvalue e) (mset (children ?d))"
    using Cons.prems(5) assms(7) by (simp add: mset_concat_upd)
  from unlink_step [OF assms(1) Cons.prems(1-4) this] obtain h' where
    h': "dec (set_data p ?d h) (dvalue e) = Inr h'" "qinv Z R h'" "h' p = Some (x\<lparr>qdat := ?d\<rparr>)"
    "frame {p} (Z - {p}) h h'" "card (dom h' - Z) \<le> m" "dvalue e \<noteq> 0" by blast
  have "qdat (x\<lparr>qdat := ?d\<rparr>) = ?d" by simp
  from Cons.IH [OF h'(2,3) Cons.prems(3) h'(5) this] obtain h'' y where
    "qdict_destroy_bucket dec p d i es h' = Inr h''" "qinv Z R h''" "h'' p = Some y"
    "qdat y = QDictD (d\<lparr>dtable := (dtable d)[i := []]\<rparr>)" "frame {p} (Z - {p}) h' h''" "card (dom h'' - Z) \<le> m" by blast
  with h'(1,6) frame_trans [OF h'(4)] show ?case by (simp add: qentry_destroy_def)
qed auto

lemma qdict_destroy_loop_ok:
  assumes "dec_ok m dec" "qinv Z R h" "h p = Some x" "p \<in> Z" "card (dom h - Z) \<le> m"
    and "qdat x = QDictD d" "\<forall>i\<in>set is. i < length (dtable d)"
  shows "\<exists>h' y. qdict_destroy_loop dec p d is h = Inr h' \<and> qinv Z R h' \<and> h' p = Some y
    \<and> qdat y = QDictD (d\<lparr>dtable := foldl (\<lambda>t i. t[i := []]) (dtable d) is\<rparr>) \<and> frame {p} (Z - {p}) h h'"
  using assms(2-7)
proof (induction "is" arbitrary: h x d)
  case (Cons i "is")
  let ?d = "d\<lparr>dtable := (dtable d)[i := []]\<rparr>"
  have "qdat x = QDictD (d\<lparr>dtable := (dtable d)[i := dtable d ! i]\<rparr>)" "i < length (dtable d)"
    using Cons.prems(5,6) by simp_all
  from qdict_destroy_bucket_ok [OF assms(1) Cons.prems(1-4) this] obtain h' y where
    h': "qdict_destroy_bucket dec p d i (dtable d ! i) h = Inr h'" "qinv Z R h'" "h' p = Some y"
    "qdat y = QDictD ?d" "frame {p} (Z - {p}) h h'" "card (dom h' - Z) \<le> m" by blast
  have "\<forall>i\<in>set is. i < length (dtable ?d)" using Cons.prems(6) by simp
  from Cons.IH [OF h'(2,3) Cons.prems(3) h'(6,4) this] obtain h'' y' where
    "qdict_destroy_loop dec p ?d is h' = Inr h''" "qinv Z R h''" "h'' p = Some y'"
    "qdat y' = QDictD (?d\<lparr>dtable := foldl (\<lambda>t i. t[i := []]) (dtable ?d) is\<rparr>)" "frame {p} (Z - {p}) h' h''" by blast
  with h'(1) frame_trans [OF h'(5)] show ?case by simp
qed auto

lemma clear_nth:
  "j < length t \<Longrightarrow> foldl (\<lambda>t i. t[i := []]) t is ! j = (if j \<in> set is then [] else t ! j)"
  by (induction "is" arbitrary: t) (auto simp: nth_list_update)

lemma clear_length [simp]: "length (foldl (\<lambda>t i. t[i := []]) t is) = length t"
  by (induction "is" arbitrary: t) auto

lemma clear_all: "concat (foldl (\<lambda>t i. t[i := []]) t [0..<length t]) = []"
  by (auto simp: concat_eq_Nil_conv in_set_conv_nth clear_nth)

lemma frame_free: "frame {p} (Z - {p}) h h' \<Longrightarrow> p \<notin> Z \<Longrightarrow> frame {} Z h (free_obj p h')"
  by (auto simp: frame_def free_obj_def split: if_splits)

lemma qobject_destroy_ok:
  assumes "dec_ok m dec" "qinv (insert p Z) R h" "p \<notin> Z" "h p = Some x" "card (dom h - insert p Z) \<le> m"
    and "data_ok (qdat x)"
  shows "\<exists>h'. qobject_destroy dec p (qdat x) h = Inr h' \<and> qinv Z R h' \<and> frame {} Z h h'"
proof -
  have fin: "qinv Z R (free_obj p h') \<and> frame {} Z h (free_obj p h')"
    if "qinv (insert p Z) R h'" "h' p = Some y" "children (qdat y) = []" "frame {p} (insert p Z - {p}) h h'" for h' y
    using that assms(3) qinv_free [of p Z R h' y] frame_free [of p "insert p Z" h h'] frame_mono [of "{p}" "insert p Z - {p}" h h' "{p}" Z]
    by (auto intro: frame_free)
  show ?thesis
  proof (cases "qdat x")
    case (QDictD d)
    have l: "length (dtable d) = QDICT_BUCKET_MAX" using assms(6) QDictD by (simp add: dict_ok_def)
    then have "\<forall>i\<in>set [0..<QDICT_BUCKET_MAX]. i < length (dtable d)" by simp
    from qdict_destroy_loop_ok [OF assms(1,2,4) insertI1 assms(5) QDictD this] obtain h' y where
      h': "qdict_destroy_loop dec p d [0..<QDICT_BUCKET_MAX] h = Inr h'" "qinv (insert p Z) R h'" "h' p = Some y"
      "qdat y = QDictD (d\<lparr>dtable := foldl (\<lambda>t i. t[i := []]) (dtable d) [0..<QDICT_BUCKET_MAX]\<rparr>)"
      "frame {p} (insert p Z - {p}) h h'" by blast
    have "children (qdat y) = []" unfolding h'(4) l [symmetric] by (simp add: clear_all)
    from fin [OF h'(2,3) this h'(5)] h'(1) show ?thesis
      by (simp add: qobject_destroy_def qdict_destroy_obj_def QDictD)
  next
    case (QListD vs)
    from qlist_destroy_loop_ok [OF assms(1,2,4) insertI1 assms(5) this] obtain h' y where
      h': "qlist_destroy_loop dec p vs h = Inr h'" "qinv (insert p Z) R h'" "h' p = Some y"
      "children (qdat y) = []" "frame {p} (insert p Z - {p}) h h'" by blast
    from fin [OF h'(2-5)] h'(1) show ?thesis
      by (simp add: qobject_destroy_def qlist_destroy_obj_def QListD)
  qed (use fin [OF assms(2,4) _ frame_refl] in \<open>simp_all add: qobject_destroy_def\<close>)
qed

lemma qobject_decref_ok: "dec_ok m (qobject_decref m :: 'd dec)"
proof (induction m)
  case 0
  show ?case unfolding dec_ok_def
  proof (intro allI impI)
    fix Z R a and h :: "'d qheap"
    assume q: "qinv Z (add_mset a R) h" and c: "card (dom h - Z) \<le> 0"
    obtain x where "h a = Some x" "a \<notin> Z" using qinv_root [OF q, of a] by auto
    moreover have "finite (dom h)" using q by (simp add: qinv_def)
    ultimately show "\<exists>h'. qobject_decref 0 h a = Inr h' \<and> qinv Z R h' \<and> frame {} Z h h'" using c by auto
  qed
next
  case (Suc m)
  show ?case unfolding dec_ok_def
  proof (intro allI impI)
    fix Z R a and h :: "'d qheap"
    assume q: "qinv Z (add_mset a R) h" and c: "card (dom h - Z) \<le> Suc m"
    obtain x where x: "h a = Some x" "a \<notin> Z" "a \<noteq> 0" using qinv_root [OF q, of a] by auto
    let ?x = "x\<lparr>refcnt := refcnt x - 1\<rparr>"
    let ?h = "h(a \<mapsto> ?x)"
    have f: "frame {} Z h ?h" using x by (auto simp: frame_def)
    have fin: "finite (dom h)" using q by (simp add: qinv_def)
    show "\<exists>h'. qobject_decref (Suc m) h a = Inr h' \<and> qinv Z R h' \<and> frame {} Z h h'"
    proof (cases "refcnt x - 1 = 0")
      case True
      have "dom ?h - insert a Z = (dom h - Z) - {a}" using x by auto
      moreover have "a \<in> dom h - Z" using x by auto
      ultimately have "card (dom ?h - insert a Z) \<le> m" using c fin by (simp add: card_Diff_singleton)
      moreover have "data_ok (qdat ?x)" using qinv_obj(5) [OF q x(1,2)] by simp
      moreover have "?h a = Some ?x" by simp
      ultimately have "\<exists>h'. qobject_destroy (qobject_decref m) a (qdat ?x) ?h = Inr h' \<and> qinv Z R h' \<and> frame {} Z ?h h'"
        using qobject_destroy_ok [OF Suc qinv_dec(2) [OF q x(1) True] x(2), of ?x] by blast
      then show ?thesis using frame_trans [OF f] x True by (auto simp: access_def)
    next
      case False
      then show ?thesis using qinv_dec(1) [OF q x(1)] f x by (simp add: access_def)
    qed
  qed
qed

text \<open>Destruction never reads the contents of an object that survives it.\<close>

definition indep :: "'d dec \<Rightarrow> bool" where
  "indep dec \<longleftrightarrow> (\<forall>h a h'. dec h a = Inr h' \<longrightarrow> dom h' \<subseteq> dom h
     \<and> (\<forall>p d. p \<in> dom h' \<longrightarrow> dec (set_data p d h) a = Inr (set_data p d h')))"

lemma set_data_commute: "p \<noteq> q \<Longrightarrow> set_data p d (set_data q e h) = set_data q e (set_data p d h)"
  by (auto simp: set_data_def fun_upd_twist split: option.splits)

lemma dom_set_data [simp]: "dom (set_data p d h) = dom h"
  by (auto simp: set_data_def split: option.splits)

lemma indepD:
  assumes "indep dec" "dec h a = Inr h'"
  shows "dom h' \<subseteq> dom h" "p \<in> dom h' \<Longrightarrow> dec (set_data p d h) a = Inr (set_data p d h')"
  using assms unfolding indep_def by blast+

lemma indep_list_loop:
  assumes "indep dec" "qlist_destroy_loop dec q vs h = Inr h'"
  shows "dom h' \<subseteq> dom h \<and> (\<forall>p d. p \<in> dom h' \<longrightarrow> p \<noteq> q \<longrightarrow>
    qlist_destroy_loop dec q vs (set_data p d h) = Inr (set_data p d h'))"
  using assms(2)
proof (induction vs arbitrary: h)
  case (Cons v vs)
  then obtain h1 where h1: "dec (set_data q (QListD vs) h) v = Inr h1" "qlist_destroy_loop dec q vs h1 = Inr h'"
    by (auto simp: ebind_eq_Inr)
  note IH = Cons.IH [OF h1(2)]
  have d: "dom h1 \<subseteq> dom h" using indepD(1) [OF assms(1) h1(1)] by simp
  have "qlist_destroy_loop dec q (v # vs) (set_data p d h) = Inr (set_data p d h')" if "p \<in> dom h'" "p \<noteq> q" for p d
  proof -
    have "p \<in> dom h1" using IH that(1) by blast
    from indepD(2) [OF assms(1) h1(1) this, of d] IH that show ?thesis
      by (simp add: set_data_commute [of p q])
  qed
  with IH d show ?case by blast
qed auto

lemma indep_bucket:
  assumes "indep dec" "qdict_destroy_bucket dec q e i es h = Inr h'"
  shows "dom h' \<subseteq> dom h \<and> (\<forall>p d. p \<in> dom h' \<longrightarrow> p \<noteq> q \<longrightarrow>
    qdict_destroy_bucket dec q e i es (set_data p d h) = Inr (set_data p d h'))"
  using assms(2)
proof (induction es arbitrary: h)
  case (Cons v vs)
  then obtain h1 where nz: "dvalue v \<noteq> 0" and
    h1: "dec (set_data q (QDictD (e\<lparr>dtable := (dtable e)[i := vs]\<rparr>)) h) (dvalue v) = Inr h1"
    "qdict_destroy_bucket dec q e i vs h1 = Inr h'"
    by (auto simp: ebind_eq_Inr qentry_destroy_def split: if_splits)
  note IH = Cons.IH [OF h1(2)]
  have d: "dom h1 \<subseteq> dom h" using indepD(1) [OF assms(1) h1(1)] by simp
  have "qdict_destroy_bucket dec q e i (v # vs) (set_data p d h) = Inr (set_data p d h')"
    if "p \<in> dom h'" "p \<noteq> q" for p d
  proof -
    have "p \<in> dom h1" using IH that(1) by blast
    from indepD(2) [OF assms(1) h1(1) this, of d] IH that nz show ?thesis
      by (simp add: set_data_commute [of p q] qentry_destroy_def)
  qed
  with IH d show ?case by blast
qed auto

lemma indep_dict_loop:
  assumes "indep dec" "qdict_destroy_loop dec q e is h = Inr h'"
  shows "dom h' \<subseteq> dom h \<and> (\<forall>p d. p \<in> dom h' \<longrightarrow> p \<noteq> q \<longrightarrow>
    qdict_destroy_loop dec q e is (set_data p d h) = Inr (set_data p d h'))"
  using assms(2)
proof (induction "is" arbitrary: h e)
  case (Cons i "is")
  then obtain h1 where h1: "qdict_destroy_bucket dec q e i (dtable e ! i) h = Inr h1"
    "qdict_destroy_loop dec q (e\<lparr>dtable := (dtable e)[i := []]\<rparr>) is h1 = Inr h'"
    by (auto simp: ebind_eq_Inr)
  from indep_bucket [OF assms(1) h1(1)] h1(1) Cons.IH [OF h1(2)] show ?case by (auto simp: ebind_eq_Inr subset_iff)
qed auto

lemma free_set_data: "p \<noteq> q \<Longrightarrow> free_obj q (set_data p d h) = set_data p d (free_obj q h)"
  by (auto simp: free_obj_def set_data_def fun_upd_twist split: option.splits)

lemma indep_destroy:
  assumes "indep dec" "qobject_destroy dec q e h = Inr h'"
  shows "dom h' \<subseteq> dom h \<and> (\<forall>p d. p \<in> dom h' \<longrightarrow>
    p \<noteq> q \<and> qobject_destroy dec q e (set_data p d h) = Inr (set_data p d h'))"
proof -
  have fr: "h' = free_obj q h1 \<Longrightarrow> p \<in> dom h' \<Longrightarrow> p \<noteq> q \<and> p \<in> dom h1" for h1 p
    by (auto simp: free_obj_def split: if_splits)
  have leaf: "dom h' \<subseteq> dom h \<and> (\<forall>p d. p \<in> dom h' \<longrightarrow> p \<noteq> q \<and> free_obj q (set_data p d h) = set_data p d h')"
    if "free_obj q h = h'"
  proof -
    have h': "h' = free_obj q h" using that ..
    have "p \<noteq> q \<and> free_obj q (set_data p d h) = set_data p d h'" if "p \<in> dom h'" for p d
      using fr [OF h' that] free_set_data [of p q d h] by (simp add: h')
    moreover have "dom h' \<subseteq> dom h" by (auto simp: h' free_obj_def split: if_splits)
    ultimately show ?thesis by blast
  qed
  show ?thesis
  proof (cases e)
    case (QDictD d)
    with assms(2) obtain h1 where h1: "qdict_destroy_loop dec q d [0..<QDICT_BUCKET_MAX] h = Inr h1" "h' = free_obj q h1"
      by (auto simp: qobject_destroy_def qdict_destroy_obj_def ebind_eq_Inr)
    from indep_dict_loop [OF assms(1) h1(1)] fr [OF h1(2)] QDictD h1(2) show ?thesis
      by (auto simp: qobject_destroy_def qdict_destroy_obj_def free_set_data)
  next
    case (QListD vs)
    with assms(2) obtain h1 where h1: "qlist_destroy_loop dec q vs h = Inr h1" "h' = free_obj q h1"
      by (auto simp: qobject_destroy_def qlist_destroy_obj_def ebind_eq_Inr)
    from indep_list_loop [OF assms(1) h1(1)] fr [OF h1(2)] QListD h1(2) show ?thesis
      by (auto simp: qobject_destroy_def qlist_destroy_obj_def free_set_data)
  qed (use assms(2) leaf in \<open>simp_all add: qobject_destroy_def\<close>)
qed

lemma qobject_swap: "x\<lparr>qdat := d, refcnt := r\<rparr> = x\<lparr>refcnt := r, qdat := d\<rparr>" for x :: "'d QObject"
  by (cases x) simp

lemma set_data_refcnt:
  "set_data p d (h(a \<mapsto> x\<lparr>refcnt := r\<rparr>)) = (set_data p d h)(a \<mapsto> (if p = a then x\<lparr>refcnt := r, qdat := d\<rparr> else x\<lparr>refcnt := r\<rparr>))"
  by (auto simp: set_data_def fun_eq_iff split: option.splits)

lemma indep_decref: "indep (qobject_decref n :: 'd dec)"
proof (induction n)
  case 0
  show ?case by (simp add: indep_def)
next
  case (Suc n)
  have "dom h' \<subseteq> dom h \<and> (\<forall>p d. p \<in> dom h' \<longrightarrow>
      qobject_decref (Suc n) (set_data p d h) a = Inr (set_data p d h'))"
    if a: "qobject_decref (Suc n) h a = Inr h'" for a and h h' :: "'d qheap"
  proof (cases "a = 0")
    case False
    with a obtain x where x: "h a = Some x"
      by (auto simp: access_def ebind_eq_Inr split: option.splits)
    let ?x = "x\<lparr>refcnt := refcnt x - 1\<rparr>"
    have dm: "dom (h(a \<mapsto> ?x)) = dom h" using x by auto
    show ?thesis
    proof (cases "refcnt x - 1 = 0")
      case True
      then have d: "qobject_destroy (qobject_decref n) a (qdat x) (h(a \<mapsto> ?x)) = Inr h'"
        using a False x by (simp add: access_def)
      note i = indep_destroy [OF Suc d]
      have "qobject_decref (Suc n) (set_data p e h) a = Inr (set_data p e h')" if "p \<in> dom h'" for p e
      proof -
        have p: "p \<noteq> a" "qobject_destroy (qobject_decref n) a (qdat x) (set_data p e (h(a \<mapsto> ?x))) = Inr (set_data p e h')"
          using i that by blast+
        moreover have "set_data p e h a = Some x" using p(1) x by (simp add: set_data_def split: option.splits)
        ultimately show ?thesis using False True by (simp add: access_def set_data_refcnt)
      qed
      then show ?thesis using i dm by blast
    next
      case False
      then have h': "h' = h(a \<mapsto> ?x)" using a \<open>a \<noteq> 0\<close> x by (simp add: access_def)
      have "set_data p e h a = Some (if p = a then x\<lparr>qdat := e\<rparr> else x)" for p e
        using x by (simp add: set_data_def split: option.splits)
      then show ?thesis using False \<open>a \<noteq> 0\<close> dm by (simp add: h' access_def set_data_refcnt qobject_swap)
    qed
  qed (use a in auto)
  then show ?case unfolding indep_def by blast
qed

lemma indep_destroy_frame: "qobject_decref n h a = Inr h' \<Longrightarrow> p \<in> dom h' \<Longrightarrow>
    qobject_decref n (set_data p d h) a = Inr (set_data p d h')"
  using indepD(2) [OF indep_decref] .

section \<open>Dictionaries as maps\<close>

definition dict_map :: "QDict \<Rightarrow> cstr \<rightharpoonup> ptr" where
  "dict_map d k = map_of (map (\<lambda>e. (dkey e, dvalue e)) (dtable d ! bucket_of k)) k"

lemma bucket_less: "bucket_of k < QDICT_BUCKET_MAX"
proof -
  have "unat (tdb_hash k mod 512) < 512" by (simp add: unat_mod_distrib)
  then show ?thesis by (simp add: bucket_of_def QDICT_BUCKET_MAX_def)
qed

lemma find_index_map: "map_of (map (\<lambda>e. (dkey e, dvalue e)) es) k = map_option (\<lambda>i. dvalue (es ! i)) (find_index k es)"
  by (induction es) (auto simp: option.map_comp comp_def)

lemma find_index_Some: "find_index k es = Some i \<Longrightarrow> i < length es \<and> dkey (es ! i) = k"
  by (induction es arbitrary: i) (auto split: if_splits)

lemma find_index_None: "find_index k es = None \<longleftrightarrow> k \<notin> dkey ` set es"
  by (induction es) auto

lemma qdict_find_Some:
  assumes "qdict_find d k (bucket_of k) = Some e"
  shows "fst e = bucket_of k" "snd e < length (dtable d ! bucket_of k)" "dkey (entry_at d e) = k"
    "dict_map d k = Some (dvalue (entry_at d e))"
  using assms find_index_Some [of k "dtable d ! bucket_of k"]
  by (auto simp: qdict_find_def entry_at_def dict_map_def find_index_map)

lemma qdict_find_None: "qdict_find d k (bucket_of k) = None \<longleftrightarrow> dict_map d k = None"
  by (simp add: qdict_find_def dict_map_def find_index_map)

lemma dict_get_map: "dict_get d k = (case dict_map d k of None \<Rightarrow> 0 | Some v \<Rightarrow> v)"
  by (cases "qdict_find d k (bucket_of k)") (auto simp: dict_get_def qdict_find_None [THEN iffD1] qdict_find_Some(4))

text \<open>Replacing a bucket of a dictionary.\<close>

definition put_bucket :: "QDict \<Rightarrow> nat \<Rightarrow> QDictEntry list \<Rightarrow> QDict" where
  "put_bucket d b es = d\<lparr>dtable := (dtable d)[b := es],
     dsize := dsize d - of_nat (length (dtable d ! b)) + of_nat (length es)\<rparr>"

lemma concat_upd_mset:
  "b < length xs \<Longrightarrow> mset (concat (xs[b := ys])) + mset (xs ! b) = mset (concat xs) + mset ys"
  by (subst (2) id_take_nth_drop [of b xs]) (simp_all add: upd_conv_take_nth_drop)

lemma concat_upd_length:
  "b < length xs \<Longrightarrow> length (concat (xs[b := ys])) + length (xs ! b) = length (concat xs) + length ys"
  using concat_upd_mset [of b xs ys] by (metis size_mset size_union)

lemma put_bucket_ok:
  assumes "dict_ok d" "b < QDICT_BUCKET_MAX" "distinct (map dkey es)" "\<forall>e\<in>set es. bucket_of (dkey e) = b"
  shows "dict_ok (put_bucket d b es)"
proof -
  have b: "b < length (dtable d)" using assms(1,2) by (simp add: dict_ok_def)
  have "of_nat (length (concat ((dtable d)[b := es]))) + of_nat (length (dtable d ! b))
      = (of_nat (length (concat (dtable d))) + of_nat (length es) :: u32)"
    unfolding of_nat_add [symmetric] concat_upd_length [OF b] ..
  then have "dsize (put_bucket d b es) = of_nat (length (concat ((dtable d)[b := es])))"
    using assms(1) by (simp add: put_bucket_def dict_ok_def algebra_simps)
  then show ?thesis using assms by (auto simp: dict_ok_def put_bucket_def nth_list_update)
qed

lemma put_bucket_children:
  assumes "b < length (dtable d)"
  shows "mset (dict_children (put_bucket d b es)) + mset (map dvalue (dtable d ! b))
    = mset (dict_children d) + mset (map dvalue es)"
  using arg_cong [OF concat_upd_mset [OF assms, of es], of "image_mset dvalue"] by (simp add: put_bucket_def)

lemma put_bucket_map:
  assumes "b < length (dtable d)"
  shows "dict_map (put_bucket d b es) k = (if bucket_of k = b
    then map_of (map (\<lambda>e. (dkey e, dvalue e)) es) k else dict_map d k)"
  using assms by (simp add: dict_map_def put_bucket_def)

lemma map_of_set:
  "distinct (map dkey es) \<Longrightarrow> j < length es \<Longrightarrow> map_of (map (\<lambda>e. (dkey e, dvalue e)) (es[j := (es ! j)\<lparr>dvalue := v\<rparr>]))
     = (map_of (map (\<lambda>e. (dkey e, dvalue e)) es))(dkey (es ! j) \<mapsto> v)"
proof (induction es arbitrary: j)
  case (Cons e es)
  show ?case
  proof (cases j)
    case (Suc i)
    then have "dkey (es ! i) \<in> dkey ` set es" using Cons.prems(2) by simp
    then have "dkey (es ! i) \<noteq> dkey e" using Cons.prems(1) by auto
    then show ?thesis using Cons Suc by (auto simp: fun_eq_iff)
  qed (simp add: fun_eq_iff)
qed simp

lemma map_of_remove:
  "distinct (map dkey es) \<Longrightarrow> j < length es \<Longrightarrow> map_of (map (\<lambda>e. (dkey e, dvalue e)) (take j es @ drop (Suc j) es))
     = (map_of (map (\<lambda>e. (dkey e, dvalue e)) es))(dkey (es ! j) := None)"
proof (induction es arbitrary: j)
  case (Cons e es)
  show ?case
  proof (cases j)
    case 0
    have "dkey e \<notin> dom (map_of (map (\<lambda>e. (dkey e, dvalue e)) es))"
      using Cons.prems(1) by (auto simp: dom_map_of_conv_image_fst image_iff)
    then have "map_of (map (\<lambda>e. (dkey e, dvalue e)) es) (dkey e) = None" by auto
    with 0 show ?thesis by (auto simp: fun_eq_iff)
  next
    case (Suc i)
    then have "dkey (es ! i) \<in> dkey ` set es" using Cons.prems(2) by simp
    then have "dkey (es ! i) \<noteq> dkey e" using Cons.prems(1) by auto
    then show ?thesis using Cons Suc by (auto simp: fun_eq_iff)
  qed
qed simp

lemma dict_bucket:
  assumes "dict_ok d" "b < QDICT_BUCKET_MAX"
  shows "distinct (map dkey (dtable d ! b))" "\<forall>e\<in>set (dtable d ! b). bucket_of (dkey e) = b" "b < length (dtable d)"
  using assms by (auto simp: dict_ok_def)

text \<open>The three updates of a dictionary, on the map, the references and the invariant.\<close>

lemma dict_map_other: "dict_ok d \<Longrightarrow> b < QDICT_BUCKET_MAX \<Longrightarrow> bucket_of k \<noteq> b \<Longrightarrow>
    map_of (map (\<lambda>e. (dkey e, dvalue e)) (dtable d ! b)) k = None"
  using dict_bucket(2) [of d b] by (auto simp: map_of_eq_None_iff)

lemma put_bucket_update:
  assumes "dict_ok d" "b = bucket_of k"
    and "map_of (map (\<lambda>e. (dkey e, dvalue e)) es) = (map_of (map (\<lambda>e. (dkey e, dvalue e)) (dtable d ! b)))(k := r)"
  shows "dict_map (put_bucket d b es) = (dict_map d)(k := r)"
proof
  fix k'
  have b: "b < length (dtable d)" using dict_bucket(3) [OF assms(1)] bucket_less assms(2) by simp
  show "dict_map (put_bucket d b es) k' = ((dict_map d)(k := r)) k'"
    unfolding put_bucket_map [OF b] using assms(2,3) by (auto simp: dict_map_def)
qed

lemma set_entry_ok:
  assumes "dict_ok d" "qdict_find d k (bucket_of k) = Some e"
  shows "dict_ok (set_entry d e v)" "dict_map (set_entry d e v) = (dict_map d)(k \<mapsto> v)"
    "add_mset (dvalue (entry_at d e)) (mset (dict_children (set_entry d e v))) = add_mset v (mset (dict_children d))"
proof -
  note f = qdict_find_Some [OF assms(2)]
  note b = dict_bucket [OF assms(1) bucket_less, of k]
  let ?b = "dtable d ! bucket_of k" and ?j = "snd e"
  let ?es = "?b[?j := (?b ! ?j)\<lparr>dvalue := v\<rparr>]"
  have s: "set_entry d e v = put_bucket d (bucket_of k) ?es"
    by (simp add: set_entry_def put_bucket_def f(1) entry_at_def)
  have k: "dkey (?b ! ?j) = k" "dvalue (?b ! ?j) = dvalue (entry_at d e)" using f(1,3) by (simp_all add: entry_at_def)
  have mk: "map dkey ?es = map dkey ?b" using f(2) list_update_id [of "map dkey ?b" ?j] by (simp add: map_update)
  have "set ?es \<subseteq> insert ((?b ! ?j)\<lparr>dvalue := v\<rparr>) (set ?b)" by (rule set_update_subset_insert)
  then have "\<forall>e\<in>set ?es. bucket_of (dkey e) = bucket_of k" using b(2) k(1) by auto
  then show "dict_ok (set_entry d e v)"
    unfolding s using b(1) mk by (intro put_bucket_ok assms(1) bucket_less) simp_all
  show "dict_map (set_entry d e v) = (dict_map d)(k \<mapsto> v)"
    unfolding s using map_of_set [OF b(1) f(2)] k(1) by (intro put_bucket_update assms(1)) simp_all
  have j: "add_mset (dvalue (?b ! ?j)) (mset (map dvalue ?es)) = add_mset v (mset (map dvalue ?b))"
    using f(2) by (simp add: map_update mset_update insert_DiffM)
  have "mset (dict_children (set_entry d e v)) + mset (map dvalue ?b) + {#dvalue (entry_at d e)#}
      = mset (dict_children d) + add_mset (dvalue (?b ! ?j)) (mset (map dvalue ?es))"
    using put_bucket_children [OF b(3), of ?es] by (simp only: s k(2)) simp
  also have "\<dots> = mset (dict_children d) + mset (map dvalue ?b) + {#v#}" unfolding j by simp
  finally show "add_mset (dvalue (entry_at d e)) (mset (dict_children (set_entry d e v))) = add_mset v (mset (dict_children d))"
    by simp
qed

lemma insert_entry_ok:
  assumes "dict_ok d" "qdict_find d k (bucket_of k) = None"
  shows "dict_ok (insert_entry d (bucket_of k) (alloc_entry k v))"
    "dict_map (insert_entry d (bucket_of k) (alloc_entry k v)) = (dict_map d)(k \<mapsto> v)"
    "mset (dict_children (insert_entry d (bucket_of k) (alloc_entry k v))) = add_mset v (mset (dict_children d))"
proof -
  note b = dict_bucket [OF assms(1) bucket_less, of k]
  let ?b = "dtable d ! bucket_of k" and ?e = "alloc_entry k v"
  have s: "insert_entry d (bucket_of k) ?e = put_bucket d (bucket_of k) (?e # ?b)"
    by (simp add: insert_entry_def put_bucket_def)
  have n: "k \<notin> dkey ` set ?b" using assms(2) by (simp add: qdict_find_def find_index_None)
  show "dict_ok (insert_entry d (bucket_of k) ?e)"
    unfolding s using b n by (intro put_bucket_ok assms(1) bucket_less) (simp_all add: alloc_entry_def)
  show "dict_map (insert_entry d (bucket_of k) ?e) = (dict_map d)(k \<mapsto> v)"
    unfolding s by (intro put_bucket_update assms(1)) (simp_all add: alloc_entry_def)
  show "mset (dict_children (insert_entry d (bucket_of k) ?e)) = add_mset v (mset (dict_children d))"
    unfolding s using put_bucket_children [OF b(3), of "?e # ?b"] by (simp add: alloc_entry_def)
qed

lemma remove_entry_ok:
  assumes "dict_ok d" "qdict_find d k (bucket_of k) = Some e"
    and "d' = (remove_entry d e)\<lparr>dsize := dsize d - 1\<rparr>"
  shows "dict_ok d'" "dict_map d' = (dict_map d)(k := None)"
    "mset (dict_children d) = add_mset (dvalue (entry_at d e)) (mset (dict_children d'))"
proof -
  note f = qdict_find_Some [OF assms(2)]
  note b = dict_bucket [OF assms(1) bucket_less, of k]
  let ?b = "dtable d ! bucket_of k" and ?j = "snd e"
  let ?es = "take ?j ?b @ drop (Suc ?j) ?b"
  have "length ?b = Suc (length ?es)" using f(2) by simp
  then have "(of_nat (length ?b) :: u32) = of_nat (length ?es) + 1" by (simp only: of_nat_Suc add.commute)
  then have s: "d' = put_bucket d (bucket_of k) ?es"
    by (simp add: assms(3) remove_entry_def put_bucket_def f(1) del: length_append length_take length_drop)
  have k: "dkey (?b ! ?j) = k" "?b ! ?j = entry_at d e" using f(1,3) by (simp_all add: entry_at_def)
  have sp: "?b = take ?j ?b @ ?b ! ?j # drop (Suc ?j) ?b" using f(2) by (rule id_take_nth_drop)
  have "map dkey ?b = map dkey (take ?j ?b) @ dkey (?b ! ?j) # map dkey (drop (Suc ?j) ?b)"
    by (subst sp) simp
  then have di: "distinct (map dkey ?es)" using b(1) by simp
  have "set ?es \<subseteq> set ?b" using set_take_subset [of ?j ?b] set_drop_subset [of "Suc ?j" ?b] by auto
  then have bu: "\<forall>e\<in>set ?es. bucket_of (dkey e) = bucket_of k" using b(2) by blast
  show "dict_ok d'" unfolding s using di bu by (intro put_bucket_ok assms(1) bucket_less)
  show "dict_map d' = (dict_map d)(k := None)"
    unfolding s using map_of_remove [OF b(1) f(2)] k(1) by (intro put_bucket_update assms(1)) simp_all
  have "mset (map dvalue ?b) = add_mset (dvalue (?b ! ?j)) (mset (map dvalue ?es))"
    by (subst sp) simp
  with put_bucket_children [OF b(3), of ?es]
  show "mset (dict_children d) = add_mset (dvalue (entry_at d e)) (mset (dict_children d'))"
    by (simp only: s k(2)) simp
qed

section \<open>Operations on the heap\<close>

lemma qinv_new:
  assumes "qinv Z R h" "h p = None" "p \<noteq> 0" "data_ok d" "children d = []"
  shows "qinv Z (add_mset p R) (QOBJECT_INIT p d h)"
proof -
  have "finite (dom h)" using assms(1) by (simp add: qinv_def)
  then have r: "refs (QOBJECT_INIT p d h) = refs h" using assms(2,5) by (simp add: QOBJECT_INIT_def refs_new)
  have n: "p \<notin># R + refs h" "p \<notin> Z" using assms(1,2) by (auto simp: qinv_def)
  then have "count (R + refs h) p = 0" by (simp add: count_eq_zero_iff)
  then show ?thesis
    unfolding qinv_def r using assms(1-4) n by (auto simp: qinv_def QOBJECT_INIT_def)
qed

lemma unat_inc: "unat x < 2 ^ 32 - 1 \<Longrightarrow> unat (x + 1) = unat x + 1 \<and> x + 1 \<noteq> 0" for x :: u32
proof -
  assume "unat x < 2 ^ 32 - 1"
  then have "unat (x + 1) = unat x + 1" by (subst unat_word_ariths(1)) simp
  then show ?thesis by auto
qed

lemma qobject_incref_ok:
  assumes "qinv Z R h" "h a = Some x" "a \<notin> Z" "count (R + refs h) a < 2 ^ 32 - 1"
  shows "\<exists>h'. qobject_incref h a = Inr h' \<and> qinv Z (add_mset a R) h' \<and> h' = h(a \<mapsto> x\<lparr>refcnt := refcnt x + 1\<rparr>)"
proof -
  let ?x = "x\<lparr>refcnt := refcnt x + 1\<rparr>"
  note q = qinv_obj [OF assms(1,2)]
  have r: "refs (h(a \<mapsto> ?x)) = refs h" by (rule refs_same [OF q(1) assms(2)]) simp
  have u: "unat (refcnt x + 1) = count (R + refs h) a + 1" "refcnt x + 1 \<noteq> 0"
    using unat_inc [of "refcnt x"] q(3) assms(4) by simp_all
  have "qinv Z (add_mset a R) (h(a \<mapsto> ?x))"
    unfolding qinv_def r using assms(1-3) u q(5) by (auto simp: qinv_def)
  then show ?thesis using q(2) assms(2) by (simp add: qobject_incref_def access_def)
qed

lemma decref_root:
  assumes "qinv {} (add_mset a R) h" "card (dom h) \<le> n"
  shows "\<exists>h'. qobject_decref n h a = Inr h' \<and> qinv {} R h' \<and> frame {} {} h h'"
  using qobject_decref_ok [of n] assms unfolding dec_ok_def by (metis Diff_empty)

lemma get_dict_eq: "get_dict h p = Inr d \<longleftrightarrow> (\<exists>x. h p = Some x \<and> qdat x = QDictD d)"
  by (auto simp: get_dict_def access_def ebind_def split: option.splits qdata.splits)

lemma get_list_eq: "get_list h p = Inr vs \<longleftrightarrow> (\<exists>x. h p = Some x \<and> qdat x = QListD vs)"
  by (auto simp: get_list_def access_def ebind_def split: option.splits qdata.splits)

lemma set_data_twice [simp]: "set_data p d (set_data p e h) = set_data p d h"
  by (auto simp: set_data_def split: option.splits)

lemma set_data_id: "h p = Some x \<Longrightarrow> qdat x = d \<Longrightarrow> set_data p d h = h"
  by (auto simp: set_data_def fun_eq_iff)

lemma set_data_at: "h p = Some x \<Longrightarrow> set_data p d h p = Some (x\<lparr>qdat := d\<rparr>)"
  by (simp add: set_data_def)

text \<open>
  Dropping a reference that a dictionary held: the dictionary is as it will be afterwards (\<open>e\<close>) in
  the invariant, and as the code has it (\<open>d\<close>) in memory.
\<close>

lemma decref_from_dict:
  assumes "qinv {} R h" "p \<in># R'" "h p = Some x" "card (dom h) \<le> n" "data_ok e"
    and "add_mset v R' + mset (children e) = R + mset (children (qdat x))"
  obtains h' y where "qobject_decref n (set_data p d h) v = Inr (set_data p d h')" "qinv {} R' h'"
    "h' p = Some y" "qdat y = e" "frame {p} {} h h'" "v \<noteq> 0"
proof -
  have q: "qinv {} (add_mset v R') (set_data p e h)" using assms(1,3,6,5) by (rule qinv_store)
  then obtain h' where h': "qobject_decref n (set_data p e h) v = Inr h'" "qinv {} R' h'" "frame {} {} (set_data p e h) h'"
    using decref_root [OF q, of n] assms(4) by auto
  obtain y where y: "h' p = Some y" using qinv_root [OF h'(2), of p] assms(2) by auto
  have "qobject_decref n (set_data p d (set_data p e h)) v = Inr (set_data p d h')"
    using y by (intro indep_destroy_frame h'(1)) auto
  moreover obtain z where "set_data p e h p = Some z" "qdat y = qdat z" using h'(3) y unfolding frame_def by blast
  then have "qdat y = e" using set_data_at [of h p x e] assms(3) by auto
  moreover have "frame {p} ({} - {p}) h (set_data p e h)" using assms(3) by (rule frame_set_data)
  then have "frame {p} {} h h'" using frame_mono [OF h'(3)] frame_trans by fastforce
  moreover have "v \<noteq> 0" using qinv_root [OF q, of v] by auto
  ultimately show thesis using that h'(2) y by simp
qed

lemma qdict_put_obj_ok:
  assumes "qinv {} (add_mset v R) h" "p \<in># R" "get_dict h p = Inr d" "card (dom h) \<le> n"
  shows "\<exists>h' d'. qdict_put_obj n h p k v = Inr h' \<and> qinv {} R h' \<and> frame {p} {} h h'
    \<and> get_dict h' p = Inr d' \<and> dict_map d' = (dict_map d)(k \<mapsto> v)"
proof -
  obtain x where x: "h p = Some x" "qdat x = QDictD d" using assms(3) by (auto simp: get_dict_eq)
  have ok: "dict_ok d" using qinv_obj(5) [OF assms(1) x(1)] x(2) by simp
  show ?thesis
  proof (cases "qdict_find d k (bucket_of k)")
    case None
    let ?d = "insert_entry d (bucket_of k) (alloc_entry k v)"
    note i = insert_entry_ok [OF ok None, of v]
    have "qinv {} R (set_data p (QDictD ?d) h)" using i x by (intro qinv_store [OF assms(1) x(1)]) simp_all
    moreover have "get_dict (set_data p (QDictD ?d) h) p = Inr ?d" using x by (simp add: get_dict_eq set_data_at)
    moreover have "frame {p} {} h (set_data p (QDictD ?d) h)" using frame_set_data [of h p x "{}"] x(1) by simp
    ultimately show ?thesis using assms(3) None i(2) by (simp add: qdict_put_obj_def)
  next
    case (Some e)
    let ?d = "set_entry d e v" and ?o = "dvalue (entry_at d e)"
    note i = set_entry_ok [OF ok Some, of v]
    have "data_ok (QDictD ?d)" "add_mset ?o R + mset (children (QDictD ?d)) = add_mset v R + mset (children (qdat x))"
      using i x(2) by (simp_all add: add.commute [of R])
    from decref_from_dict [OF assms(1,2) x(1) assms(4) this, of "QDictD d"] obtain h' y where
      h': "qobject_decref n h ?o = Inr (set_data p (QDictD d) h')" "qinv {} R h'" "h' p = Some y"
      "qdat y = QDictD ?d" "frame {p} {} h h'" by (metis set_data_id x)
    have "get_dict (set_data p (QDictD d) h') p = Inr d" "get_dict h' p = Inr ?d"
      using h'(3,4) by (simp_all add: get_dict_eq set_data_at)
    moreover have "set_data p (QDictD ?d) (set_data p (QDictD d) h') = h'" using h'(3,4) by (simp add: set_data_id)
    ultimately show ?thesis using h' assms(3) Some i(2) by (simp add: qdict_put_obj_def)
  qed
qed

lemma qdict_del_ok:
  assumes "qinv {} R h" "p \<in># R" "get_dict h p = Inr d" "card (dom h) \<le> n"
  shows "\<exists>h' d'. qdict_del n h p k = Inr h' \<and> qinv {} R h' \<and> frame {p} {} h h'
    \<and> get_dict h' p = Inr d' \<and> dict_map d' = (dict_map d)(k := None)"
proof -
  obtain x where x: "h p = Some x" "qdat x = QDictD d" using assms(3) by (auto simp: get_dict_eq)
  have ok: "dict_ok d" using qinv_obj(5) [OF assms(1) x(1)] x(2) by simp
  show ?thesis
  proof (cases "qdict_find d k (bucket_of k)")
    case None
    then have "dict_map d = (dict_map d)(k := None)" by (auto simp: qdict_find_None [THEN iffD1])
    then show ?thesis using assms None by (auto simp: qdict_del_def)
  next
    case (Some e)
    let ?r = "remove_entry d e" and ?o = "dvalue (entry_at d e)"
    let ?d = "?r\<lparr>dsize := dsize d - 1\<rparr>"
    note i = remove_entry_ok [OF ok Some refl]
    have "data_ok (QDictD ?d)" "add_mset ?o R + mset (children (QDictD ?d)) = R + mset (children (qdat x))"
      using i x(2) by simp_all
    from decref_from_dict [OF assms(1,2) x(1) assms(4) this, of "QDictD ?r"] obtain h' y where
      h': "qobject_decref n (set_data p (QDictD ?r) h) ?o = Inr (set_data p (QDictD ?r) h')" "qinv {} R h'"
      "h' p = Some y" "qdat y = QDictD ?d" "frame {p} {} h h'" "?o \<noteq> 0" by blast
    have "get_dict (set_data p (QDictD ?r) h') p = Inr ?r" "get_dict h' p = Inr ?d"
      using h'(3,4) by (simp_all add: get_dict_eq set_data_at)
    moreover have "dsize ?r = dsize d" by (simp add: remove_entry_def)
    moreover have "set_data p (QDictD ?d) (set_data p (QDictD ?r) h') = h'" using h'(3,4) by (simp add: set_data_id)
    ultimately show ?thesis using h' assms(3) Some i(2) by (simp add: qdict_del_def qentry_destroy_def)
  qed
qed

text \<open>The size of a dictionary is the number of its keys.\<close>

lemma entries_concat: "dict_ok d \<Longrightarrow> dict_entries d = concat (dtable d)"
proof -
  assume "dict_ok d"
  then have "length (dtable d) = QDICT_BUCKET_MAX" by (simp add: dict_ok_def)
  then show ?thesis unfolding dict_entries_def using map_nth [of "dtable d"] by simp
qed

lemma dict_map_dom:
  assumes "dict_ok d"
  shows "dom (dict_map d) = dkey ` set (concat (dtable d))"
proof -
  have "k \<in> dom (dict_map d) \<longleftrightarrow> k \<in> dkey ` set (dtable d ! bucket_of k)" for k
    by (simp add: dict_map_def domIff map_of_eq_None_iff image_image)
  moreover have "k \<in> dkey ` set (concat (dtable d)) \<longleftrightarrow> k \<in> dkey ` set (dtable d ! bucket_of k)" for k
  proof
    assume "k \<in> dkey ` set (concat (dtable d))"
    then obtain i e where i: "i < length (dtable d)" "e \<in> set (dtable d ! i)" "k = dkey e"
      by (auto simp: in_set_conv_nth) (metis nth_mem)
    then have "bucket_of k = i" using assms by (auto simp: dict_ok_def)
    then show "k \<in> dkey ` set (dtable d ! bucket_of k)" using i by auto
  next
    assume "k \<in> dkey ` set (dtable d ! bucket_of k)"
    moreover have "bucket_of k < length (dtable d)" using bucket_less assms by (simp add: dict_ok_def)
    ultimately show "k \<in> dkey ` set (concat (dtable d))" by (auto intro!: imageI nth_mem)
  qed
  ultimately show ?thesis by blast
qed

lemma distinct_buckets:
  assumes "\<And>i. i < length xs \<Longrightarrow> distinct (map f (xs ! i)) \<and> (\<forall>e\<in>set (xs ! i). g (f e) = b + i)"
  shows "distinct (map f (concat xs))"
  using assms
proof (induction xs arbitrary: b)
  case (Cons x xs)
  have t: "distinct (map f (xs ! i)) \<and> (\<forall>e\<in>set (xs ! i). g (f e) = Suc b + i)" if "i < length xs" for i
    using Cons.prems [of "Suc i"] that by simp
  have "distinct (map f x)" "\<And>e. e \<in> set x \<Longrightarrow> g (f e) = b" using Cons.prems [of 0] by auto
  moreover have "g (f e) \<noteq> b" if "e \<in> set (concat xs)" for e
  proof -
    obtain y where "y \<in> set xs" "e \<in> set y" using \<open>e \<in> set (concat xs)\<close> by auto
    then obtain i where "i < length xs" "e \<in> set (xs ! i)" by (auto simp: in_set_conv_nth [of y])
    then have "g (f e) = Suc b + i" using t by blast
    then show ?thesis by simp
  qed
  ultimately show ?case using Cons.IH [OF t] by (auto simp: image_iff) (metis imageI)
qed simp

lemma dict_size_card: "dict_ok d \<Longrightarrow> dsize d = of_nat (card (dom (dict_map d)))"
proof -
  assume ok: "dict_ok d"
  have "distinct (map dkey (concat (dtable d)))"
    using ok by (intro distinct_buckets [where g = bucket_of and b = 0]) (auto simp: dict_ok_def)
  then have "card (dkey ` set (concat (dtable d))) = length (concat (dtable d))"
    using distinct_card [of "map dkey (concat (dtable d))"] by simp
  then show ?thesis using ok by (simp add: dict_map_dom dict_ok_def)
qed

section \<open>Iteration\<close>

text \<open>The loop \<open>for (e = qdict_first(d); e; e = qdict_next(d, e))\<close>, cut after \<open>n\<close> rounds.\<close>

primrec dict_walk :: "nat \<Rightarrow> QDict \<Rightarrow> (nat \<times> nat) option \<Rightarrow> QDictEntry list \<times> bool" where
  "dict_walk 0 d e = ([], e = None)"
| "dict_walk (Suc n) d e =
     (case e of None \<Rightarrow> ([], True)
      | Some p \<Rightarrow> (case dict_walk n d (qdict_next d p) of (es, fin) \<Rightarrow> (entry_at d p # es, fin)))"

abbreviation rest_entries :: "QDict \<Rightarrow> nat \<Rightarrow> QDictEntry list" where
  "rest_entries d b \<equiv> concat (map (\<lambda>i. dtable d ! i) [b..<QDICT_BUCKET_MAX])"

lemma walk_bucket:
  assumes "\<And>n. length (rest_entries d (Suc b)) \<le> n \<Longrightarrow> dict_walk n d (qdict_next_entry d (Suc b)) = (rest_entries d (Suc b), True)"
    and "\<forall>e\<in>set (dtable d ! b). bucket_of (dkey e) = b" "j < length (dtable d ! b)"
    and "length (dtable d ! b) - j + length (rest_entries d (Suc b)) \<le> n"
  shows "dict_walk n d (Some (b, j)) = (drop j (dtable d ! b) @ rest_entries d (Suc b), True)"
  using assms(3,4)
proof (induction n arbitrary: j)
  case (Suc n)
  have s: "drop j (dtable d ! b) = entry_at d (b, j) # drop (Suc j) (dtable d ! b)"
    using Suc.prems(1) by (simp add: entry_at_def Cons_nth_drop_Suc)
  show ?case
  proof (cases "Suc j < length (dtable d ! b)")
    case True
    moreover have "length (dtable d ! b) - Suc j + length (rest_entries d (Suc b)) \<le> n" using Suc.prems by simp
    ultimately show ?thesis using Suc.IH [of "Suc j"] s by (simp add: qdict_next_def)
  next
    case False
    have "bucket_of (dkey (entry_at d (b, j))) = b" using assms(2) Suc.prems(1) by (simp add: entry_at_def)
    then have "qdict_next d (b, j) = qdict_next_entry d (Suc b)" using False by (simp add: qdict_next_def)
    moreover have "length (rest_entries d (Suc b)) \<le> n" using Suc.prems by simp
    ultimately show ?thesis using assms(1) s False by (simp)
  qed
qed simp

lemma walk_from:
  assumes "dict_ok d" "b \<le> QDICT_BUCKET_MAX" "length (rest_entries d b) \<le> n"
  shows "dict_walk n d (qdict_next_entry d b) = (rest_entries d b, True)"
  using assms(2,3)
proof (induction "QDICT_BUCKET_MAX - b" arbitrary: b n)
  case 0
  then have b: "b = QDICT_BUCKET_MAX" by simp
  then have "qdict_next_entry d b = None" by (subst qdict_next_entry.simps) simp
  then show ?case using b by (cases n) (simp_all)
next
  case (Suc x)
  then have b: "b < QDICT_BUCKET_MAX" by simp
  have IH: "length (rest_entries d (Suc b)) \<le> n \<Longrightarrow> dict_walk n d (qdict_next_entry d (Suc b)) = (rest_entries d (Suc b), True)" for n
    using Suc.hyps(1) [of "Suc b" n] Suc.hyps(2) b by simp
  have r: "rest_entries d b = dtable d ! b @ rest_entries d (Suc b)" using b by (simp add: upt_rec)
  show ?case
  proof (cases "dtable d ! b = []")
    case True
    then have "qdict_next_entry d b = qdict_next_entry d (Suc b)" using b by (subst qdict_next_entry.simps) simp
    then show ?thesis using IH Suc.prems(2) r True by (simp)
  next
    case False
    then have "qdict_next_entry d b = Some (b, 0)" using b by (subst qdict_next_entry.simps) simp
    moreover have "\<forall>e\<in>set (dtable d ! b). bucket_of (dkey e) = b" using dict_bucket(2) [OF assms(1) b] .
    ultimately show ?thesis
      using walk_bucket [of d b 0 n, OF IH] False Suc.prems(2) r by (simp)
  qed
qed

section \<open>Lists and strings\<close>

lemma qlist_append_obj_ok:
  assumes "qinv {} (add_mset v R) h" "get_list h p = Inr vs"
  shows "\<exists>h'. qlist_append_obj h p v = Inr h' \<and> qinv {} R h' \<and> frame {p} {} h h' \<and> get_list h' p = Inr (vs @ [v])"
proof -
  obtain x where x: "h p = Some x" "qdat x = QListD vs" using assms(2) by (auto simp: get_list_eq)
  have "qinv {} R (set_data p (QListD (vs @ [v])) h)"
    using x(2) by (intro qinv_store [OF assms(1) x(1)]) simp_all
  moreover have "frame {p} {} h (set_data p (QListD (vs @ [v])) h)" using frame_set_data [of h p x "{}"] x(1) by simp
  moreover have "get_list (set_data p (QListD (vs @ [v])) h) p = Inr (vs @ [v])" using x(1) by (simp add: get_list_eq set_data_at)
  ultimately show ?thesis using assms(2) by (simp add: qlist_append_obj_def)
qed

lemma qlist_pop_ok:
  assumes "qinv {} R h" "get_list h p = Inr (v # vs)"
  shows "\<exists>h'. qlist_pop h p = Inr (v, h') \<and> qlist_peek h p = Inr v \<and> qinv {} (add_mset v R) h'
    \<and> frame {p} {} h h' \<and> get_list h' p = Inr vs \<and> v \<noteq> 0"
proof -
  obtain x where x: "h p = Some x" "qdat x = QListD (v # vs)" using assms(2) by (auto simp: get_list_eq)
  have q: "qinv {} (add_mset v R) (set_data p (QListD vs) h)"
    using x(2) by (intro qinv_store [OF assms(1) x(1)]) simp_all
  moreover have "frame {p} {} h (set_data p (QListD vs) h)" using frame_set_data [of h p x "{}"] x(1) by simp
  moreover have "p \<noteq> 0" "v \<noteq> 0" using qinv_obj(2) [OF assms(1) x(1)] qinv_root [OF q, of v] by auto
  moreover have "get_list (set_data p (QListD vs) h) p = Inr vs" using x(1) by (simp add: get_list_eq set_data_at)
  ultimately show ?thesis using assms(2) by (simp add: qlist_pop_def qlist_peek_def)
qed

fun qlist_append_all :: "'d qheap \<Rightarrow> ptr \<Rightarrow> ptr list \<Rightarrow> qerr + 'd qheap" where
  "qlist_append_all h p [] = Inr h"
| "qlist_append_all h p (v # vs) = ebind (qlist_append_obj h p v) (\<lambda>h. qlist_append_all h p vs)"

fun qlist_drain :: "nat \<Rightarrow> 'd qheap \<Rightarrow> ptr \<Rightarrow> qerr + (ptr list \<times> 'd qheap)" where
  "qlist_drain 0 h p = Inr ([], h)"
| "qlist_drain (Suc n) h p =
     ebind (qlist_pop h p) (\<lambda>(v, h). ebind (qlist_drain n h p) (\<lambda>(vs, h). Inr (v # vs, h)))"

lemma qlist_append_all_ok:
  "qinv {} (mset vs + R) h \<Longrightarrow> get_list h p = Inr ws \<Longrightarrow>
   \<exists>h'. qlist_append_all h p vs = Inr h' \<and> qinv {} R h' \<and> get_list h' p = Inr (ws @ vs)"
proof (induction vs arbitrary: h ws)
  case (Cons v vs)
  have "qinv {} (add_mset v (mset vs + R)) h" using Cons.prems(1) by simp
  from qlist_append_obj_ok [OF this Cons.prems(2)] obtain h' where
    "qlist_append_obj h p v = Inr h'" "qinv {} (mset vs + R) h'" "get_list h' p = Inr (ws @ [v])" by blast
  with Cons.IH [of h' "ws @ [v]"] show ?case by simp
qed simp

lemma qlist_drain_ok:
  "qinv {} R h \<Longrightarrow> get_list h p = Inr vs \<Longrightarrow>
   \<exists>h'. qlist_drain (length vs) h p = Inr (vs, h') \<and> qinv {} (mset vs + R) h' \<and> get_list h' p = Inr []"
proof (induction vs arbitrary: h R)
  case (Cons v vs)
  from qlist_pop_ok [OF Cons.prems] obtain h' where
    h': "qlist_pop h p = Inr (v, h')" "qinv {} (add_mset v R) h'" "get_list h' p = Inr vs" by blast
  with Cons.IH [OF h'(2,3)] show ?case by auto
qed simp

definition qs_ok :: "QString \<Rightarrow> bool" where
  "qs_ok qs \<longleftrightarrow> length (qs_string qs) = qs_capacity qs + 1 \<and> qs_length qs \<le> qs_capacity qs
     \<and> qs_string qs ! qs_length qs = 0"

definition qs_contents :: "QString \<Rightarrow> cstr" where
  "qs_contents qs = take (qs_length qs) (qs_string qs)"

lemma capacity_increase_ok:
  assumes "qs_ok qs" "qs' = capacity_increase junk qs len"
  shows "length (qs_string qs') = qs_capacity qs' + 1" "qs_length qs' = qs_length qs"
    "qs_length qs + len \<le> qs_capacity qs'" "take (qs_length qs) (qs_string qs') = qs_contents qs"
  using assms by (auto simp: capacity_increase_def Let_def qs_ok_def qs_contents_def min_def)

lemma write_bytes_Some: "off + length bs \<le> length buf \<Longrightarrow> write_bytes buf off bs = Some (take off buf @ bs @ drop (off + length bs) buf)"
  by (simp add: write_bytes_def)

lemma qstring_append_ok:
  assumes "qs_ok qs"
  shows "\<exists>qs'. qstring_append junk qs str = Some qs' \<and> qs_ok qs' \<and> qs_contents qs' = qs_contents qs @ str"
proof -
  define q where "q = capacity_increase junk qs (length str)"
  note c = capacity_increase_ok [OF assms q_def]
  let ?n = "qs_length q + length str"
  let ?b = "take (qs_length q) (qs_string q) @ str @ drop ?n (qs_string q)"
  have w1: "write_bytes (qs_string q) (qs_length q) str = Some ?b" using c by (intro write_bytes_Some) simp
  have lc: "length (qs_contents qs) = qs_length qs" using c(4) [symmetric] c(1,3) by (simp add: min_def)
  have lb: "length ?b = length (qs_string q)" using c lc by simp
  then have w2: "write_bytes ?b ?n [0] = Some (take ?n ?b @ [0] @ drop (?n + 1) ?b)"
    using c write_bytes_Some [of ?n "[0]" ?b] by simp
  have t: "take ?n ?b = qs_contents qs @ str" using c lc by simp
  let ?q = "q\<lparr>qs_length := ?n, qs_string := take ?n ?b @ [0] @ drop (?n + 1) ?b\<rparr>"
  have "qstring_append junk qs str = Some ?q"
    unfolding qstring_append_def q_def [symmetric] Let_def w1 option.simps w2 by simp
  moreover have len: "length (take ?n ?b) = ?n" unfolding t using c lc by simp
  have "qs_ok ?q" unfolding qs_ok_def using c lb len by (simp add: nth_append del: take_append)
  moreover have "qs_contents ?q = qs_contents qs @ str"
    unfolding t using c lc by (simp add: qs_contents_def [of "q\<lparr>qs_length := _, qs_string := _\<rparr>"])
  ultimately show ?thesis by blast
qed

lemma qstring_append_chr_eq: "qstring_append_chr junk qs c = qstring_append junk qs [c]"
proof -
  have "length [c] = 1" by simp
  then show ?thesis unfolding qstring_append_chr_def qstring_append_def by (simp only:)
qed

lemma qstring_from_str_ok: "\<exists>qs. qstring_from_str str = Some qs \<and> qs_ok qs \<and> qs_contents qs = str"
  by (simp add: qstring_from_str_def qstring_from_substr_def qs_ok_def qs_contents_def nth_append)

section \<open>Properties\<close>

lemma qinv_empty: "qinv {} {#} Map.empty"
  by (simp add: qinv_def refs_def)

lemma qdict_new_ok: "dict_ok \<lparr>dsize = 0, dtable = replicate QDICT_BUCKET_MAX []\<rparr>"
  by (simp add: dict_ok_def)

text \<open>
  C12: dropping a reference is safe. In a heap whose counts are the numbers of references, dropping
  one that the program holds never fails and never touches a freed object, with recursion no deeper
  than the number of objects; afterwards the counts are again exact for the remaining references
  and positive for every object left, so that nothing is freed early and nothing that lost its last
  reference is left behind, and the objects left have their contents.
\<close>

theorem qobject_decref_safe:
  assumes "qinv {} (add_mset a R) h" "card (dom h) \<le> n"
  shows "\<exists>h'. qobject_decref n h a = Inr h' \<and> qinv {} R h' \<and> dom h' \<subseteq> dom h
    \<and> (\<forall>q y. h' q = Some y \<longrightarrow> (\<exists>x. h q = Some x \<and> qdat y = qdat x))"
proof -
  from decref_root [OF assms] obtain h' where "qobject_decref n h a = Inr h'" "qinv {} R h'" "frame {} {} h h'" by blast
  then show ?thesis unfolding frame_def by simp
qed

text \<open>
  C7: a dictionary is a finite map. Storing under a key, with the reference to the new object handed
  over and the one to an old object dropped, and deleting a key, are the update and the deletion of
  the map that look-ups see, for every key and whatever the hash collisions; membership and size
  agree with the map, and the heap invariant is kept.
\<close>

theorem qdict_refines_map:
  assumes "qinv {} (add_mset v R) h" "p \<in># R" "get_dict h p = Inr d" "card (dom h) \<le> n"
  shows "\<exists>h1 d1 h2 d2. qdict_put_obj n h p k v = Inr h1 \<and> qinv {} R h1 \<and> get_dict h1 p = Inr d1
      \<and> dict_map d1 = (dict_map d)(k \<mapsto> v) \<and> qdict_del n h1 p k' = Inr h2 \<and> qinv {} R h2
      \<and> get_dict h2 p = Inr d2 \<and> dict_map d2 = (dict_map d1)(k' := None)
      \<and> qdict_get h2 p k'' = Inr (case dict_map d2 k'' of None \<Rightarrow> 0 | Some o' \<Rightarrow> o')
      \<and> qdict_haskey h2 p k'' = Inr (if dict_map d2 k'' = None then 0 else 1)
      \<and> qdict_size h2 p = Inr (of_nat (card (dom (dict_map d2))))"
proof -
  from qdict_put_obj_ok [OF assms, of k] obtain h1 d1 where
    h1: "qdict_put_obj n h p k v = Inr h1" "qinv {} R h1" "frame {p} {} h h1" "get_dict h1 p = Inr d1"
      "dict_map d1 = (dict_map d)(k \<mapsto> v)" by blast
  have "finite (dom h)" using assms(1) by (simp add: qinv_def)
  then have "card (dom h1) \<le> n" using frame_card [OF h1(3), of "{}"] assms(4) by simp
  from qdict_del_ok [OF h1(2) assms(2) h1(4) this, of k'] obtain h2 d2 where
    h2: "qdict_del n h1 p k' = Inr h2" "qinv {} R h2" "get_dict h2 p = Inr d2" "dict_map d2 = (dict_map d1)(k' := None)"
    by blast
  obtain x where "h2 p = Some x" "qdat x = QDictD d2" using h2(3) by (auto simp: get_dict_eq)
  then have "dict_ok d2" using qinv_obj(5) [OF h2(2)] by fastforce
  then have "qdict_size h2 p = Inr (of_nat (card (dom (dict_map d2))))"
    using h2(3) by (simp add: qdict_size_def dict_size_card)
  moreover have "qdict_get h2 p k'' = Inr (case dict_map d2 k'' of None \<Rightarrow> 0 | Some o' \<Rightarrow> o')"
    using h2(3) by (simp add: qdict_get_def dict_get_map)
  moreover have "qdict_haskey h2 p k'' = Inr (if dict_map d2 k'' = None then 0 else 1)"
    using h2(3) qdict_find_None [of d2 k''] by (simp add: qdict_haskey_def)
  ultimately show ?thesis using h1 h2 by blast
qed

text \<open>
  C36: iterating over a dictionary ends and is complete. The loop over \<open>qdict_first\<close> and \<open>qdict_next\<close>
  reaches the null pointer after as many rounds as there are entries, having visited every bucket's
  entries in the order \<open>qdict_iter\<close> does, each key of the map exactly once.
\<close>

theorem qdict_iteration:
  assumes "dict_ok d" "length (dict_entries d) \<le> n"
  shows "dict_walk n d (qdict_first d) = (dict_entries d, True) \<and> distinct (map dkey (dict_entries d))
    \<and> dom (dict_map d) = dkey ` set (dict_entries d)"
proof -
  have "distinct (map dkey (dict_entries d))" unfolding entries_concat [OF assms(1)]
    using assms(1) by (intro distinct_buckets [where g = bucket_of and b = 0]) (auto simp: dict_ok_def)
  moreover have "dict_walk n d (qdict_next_entry d 0) = (rest_entries d 0, True)"
    using assms by (intro walk_from) (simp_all add: dict_entries_def)
  ultimately show ?thesis
    unfolding dict_map_dom [OF assms(1)] entries_concat [OF assms(1), symmetric]
    by (simp add: qdict_first_def dict_entries_def)
qed

text \<open>
  Lists hand references over in order. Appending objects the program owns to a list gives their
  references to the list, behind those it has; popping as many times as the list is long returns
  them all, first in first out, and gives the references back to the program. No call fails and the
  counts are exact throughout.
\<close>

theorem qlist_fifo:
  assumes "qinv {} (mset vs + R) h" "get_list h p = Inr ws"
  shows "\<exists>h1 h2. qlist_append_all h p vs = Inr h1 \<and> qinv {} R h1 \<and> get_list h1 p = Inr (ws @ vs)
    \<and> qlist_drain (length (ws @ vs)) h1 p = Inr (ws @ vs, h2) \<and> qinv {} (mset (ws @ vs) + R) h2
    \<and> qlist_empty h2 p = Inr True"
proof -
  from qlist_append_all_ok [OF assms] obtain h1 where
    h1: "qlist_append_all h p vs = Inr h1" "qinv {} R h1" "get_list h1 p = Inr (ws @ vs)" by blast
  from qlist_drain_ok [OF h1(2,3)] obtain h2 where
    "qlist_drain (length (ws @ vs)) h1 p = Inr (ws @ vs, h2)" "qinv {} (mset (ws @ vs) + R) h2" "get_list h2 p = Inr []" by blast
  moreover from this(3) have "qlist_empty h2 p = Inr True" by (simp add: qlist_empty_def)
  ultimately show ?thesis using h1 by blast
qed

text \<open>
  The string builder never writes outside its buffer. A string made from a C string holds it;
  appending any bytes to a well-formed string, whatever the reallocation leaves in the new part of
  the buffer, stays inside the buffer, appends exactly these bytes, and keeps the terminator.
\<close>

theorem qstring_builder:
  "\<exists>q0 q1 q2. qstring_from_str s0 = Some q0 \<and> qstring_append junk q0 s1 = Some q1
     \<and> qstring_append_chr junk q1 c = Some q2 \<and> qs_contents q2 = s0 @ s1 @ [c]
     \<and> length (qs_string q2) = qs_capacity q2 + 1 \<and> qs_length q2 \<le> qs_capacity q2
     \<and> qs_string q2 ! qs_length q2 = 0"
proof -
  obtain q0 where q0: "qstring_from_str s0 = Some q0" "qs_ok q0" "qs_contents q0 = s0"
    using qstring_from_str_ok by blast
  obtain q1 where q1: "qstring_append junk q0 s1 = Some q1" "qs_ok q1" "qs_contents q1 = s0 @ s1"
    using qstring_append_ok [OF q0(2), of junk s1] q0(3) by auto
  obtain q2 where "qstring_append_chr junk q1 c = Some q2" "qs_ok q2" "qs_contents q2 = s0 @ s1 @ [c]"
    using qstring_append_ok [OF q1(2), of junk "[c]"] q1(3) by (auto simp: qstring_append_chr_eq)
  with q0(1) q1(1) show ?thesis by (auto simp: qs_ok_def)
qed

section \<open>Witnesses\<close>

text \<open>A dictionary at 1 that the program holds, and an integer at 2 and one at 3.\<close>

definition wit_heap :: "unit qheap" where
  "wit_heap = qint_from_int 3 8 (qint_from_int 2 7 (qdict_new 1 Map.empty))"

lemma wit_heap_inv: "qinv {} {#3, 2, 1#} wit_heap"
proof -
  have "qinv {} {#1#} (qdict_new 1 Map.empty :: unit qheap)"
    unfolding qdict_new_def using qdict_new_ok by (intro qinv_new qinv_empty) simp_all
  then have "qinv {} {#2, 1#} (qint_from_int 2 7 (qdict_new 1 Map.empty) :: unit qheap)"
    unfolding qint_from_int_def by (intro qinv_new) (simp_all add: qdict_new_def QOBJECT_INIT_def)
  then show ?thesis
    unfolding wit_heap_def qint_from_int_def
    by (rule qinv_new) (simp_all add: qdict_new_def QOBJECT_INIT_def)
qed

lemma wit_heap_dom: "card (dom wit_heap) \<le> 3"
proof -
  have "dom wit_heap \<subseteq> {1, 2, 3}"
    by (auto simp: wit_heap_def qint_from_int_def qdict_new_def QOBJECT_INIT_def split: if_splits)
  then have "card (dom wit_heap) \<le> card {1, 2, 3 :: nat}" by (intro card_mono) simp_all
  then show ?thesis by simp
qed

lemma wit_heap_dict: "get_dict wit_heap 1 = Inr \<lparr>dsize = 0, dtable = replicate QDICT_BUCKET_MAX []\<rparr>"
  by (simp add: get_dict_eq wit_heap_def qint_from_int_def qdict_new_def QOBJECT_INIT_def)

theorem qobject_decref_safe_witness:
  "qinv {} {#3, 2, 1#} wit_heap \<and> (\<exists>h'. qobject_decref 3 wit_heap 3 = Inr h' \<and> qinv {} {#2, 1#} h')"
  using qobject_decref_safe [OF wit_heap_inv wit_heap_dom] wit_heap_inv by blast

theorem qdict_refines_map_witness:
  "\<exists>h1 d1. qdict_put_obj 3 wit_heap 1 [120] 3 = Inr h1 \<and> get_dict h1 1 = Inr d1 \<and> dict_map d1 [120] = Some 3"
proof -
  have "(1 :: nat) \<in># {#2, 1#}" by simp
  from qdict_refines_map [OF wit_heap_inv this wit_heap_dict wit_heap_dom, of "[120]" "[121]" "[120]"]
  obtain h1 d1 where "qdict_put_obj 3 wit_heap 1 [120] 3 = Inr h1" "get_dict h1 1 = Inr d1"
    "dict_map d1 = (dict_map \<lparr>dsize = 0, dtable = replicate QDICT_BUCKET_MAX []\<rparr>)([120] \<mapsto> 3)" by blast
  then show ?thesis by simp
qed

definition wit_dict :: QDict where
  "wit_dict = insert_entry \<lparr>dsize = 0, dtable = replicate QDICT_BUCKET_MAX []\<rparr> (bucket_of [120]) (alloc_entry [120] 3)"

lemma wit_dict_ok: "dict_ok wit_dict"
  unfolding wit_dict_def
  by (rule insert_entry_ok(1) [OF qdict_new_ok]) (simp add: qdict_find_def bucket_less)

theorem qdict_iteration_witness:
  "dict_ok wit_dict \<and> dict_walk (length (dict_entries wit_dict)) wit_dict (qdict_first wit_dict) = (dict_entries wit_dict, True)
   \<and> [120] \<in> dkey ` set (dict_entries wit_dict)"
proof -
  have "dict_map wit_dict [120] = Some 3"
    unfolding wit_dict_def
    by (subst insert_entry_ok(2) [OF qdict_new_ok]) (simp_all add: qdict_find_def bucket_less)
  with qdict_iteration [OF wit_dict_ok le_refl] wit_dict_ok show ?thesis by blast
qed

definition wit_list :: "unit qheap" where
  "wit_list = qint_from_int 3 8 (qint_from_int 2 7 (qlist_new 1 Map.empty))"

lemma wit_list_inv: "qinv {} (mset [3, 2] + {#1#}) wit_list"
proof -
  have "qinv {} {#1#} (qlist_new 1 Map.empty :: unit qheap)"
    unfolding qlist_new_def by (intro qinv_new qinv_empty) simp_all
  then have "qinv {} {#2, 1#} (qint_from_int 2 7 (qlist_new 1 Map.empty) :: unit qheap)"
    unfolding qint_from_int_def by (intro qinv_new) (simp_all add: qlist_new_def QOBJECT_INIT_def)
  then have "qinv {} {#3, 2, 1#} wit_list"
    unfolding wit_list_def qint_from_int_def
    by (rule qinv_new) (simp_all add: qlist_new_def QOBJECT_INIT_def)
  then show ?thesis by (simp add: add_mset_commute)
qed

theorem qlist_fifo_witness:
  "\<exists>h1 h2. qlist_append_all wit_list 1 [3, 2] = Inr h1 \<and> get_list h1 1 = Inr [3, 2]
    \<and> qlist_drain 2 h1 1 = Inr ([3, 2], h2) \<and> qinv {} {#3, 2, 1#} h2 \<and> qlist_empty h2 1 = Inr True"
proof -
  have l: "get_list wit_list 1 = Inr []"
    by (simp add: get_list_eq wit_list_def qint_from_int_def qlist_new_def QOBJECT_INIT_def)
  have "length ([] @ [3, 2 :: nat]) = 2" "mset ([] @ [3, 2 :: nat]) + {#1#} = {#3, 2, 1#}" by simp_all
  then show ?thesis using qlist_fifo [OF wit_list_inv l] by (simp only: append_Nil) blast
qed

end
