(* ===== verification/Ioport.thy ===== *)
theory Ioport
  imports Prelude
begin

text \<open>
  The I/O port bus, \<open>ioport.c\<close>, \<open>ioport.h\<close> and \<open>iorange.h\<close>: the tables of handlers by access width and
  port, registration, and the accesses of the CPU. A handler is a function on the state \<open>'m\<close> of the
  devices, which may abort; the identity of the \<open>opaque\<close> pointer given with it is a value of type
  \<open>'o\<close> (\<open>None\<close> is the null pointer). A table slot holds the null pointer, the file's own default
  function of that width, or a handler. An index outside the tables is an error.
\<close>

datatype io_err = InvalidSize | InvalidOpaque nat | OutOfRange | DeviceError

type_synonym ('o, 'm) read_func = "'o option \<Rightarrow> u32 \<Rightarrow> 'm \<Rightarrow> io_err + (u32 \<times> 'm)"
type_synonym ('o, 'm) write_func = "'o option \<Rightarrow> u32 \<Rightarrow> u32 \<Rightarrow> 'm \<Rightarrow> io_err + 'm"

datatype 'f slot = Null | Default | Func 'f

record ('o, 'm) ioports =
  ioport_opaque :: "nat \<Rightarrow> 'o option"
  ioport_read_table :: "nat \<Rightarrow> nat \<Rightarrow> ('o, 'm) read_func slot"
  ioport_write_table :: "nat \<Rightarrow> nat \<Rightarrow> ('o, 'm) write_func slot"

definition MAX_IOPORTS :: nat where "MAX_IOPORTS = 64 * 1024"
definition IOPORTS_MASK :: u32 where "IOPORTS_MASK = 0xffff"

definition no_ports :: "('o, 'm) ioports" where
  "no_ports = \<lparr>ioport_opaque = (\<lambda>_. None), ioport_read_table = (\<lambda>_ _. Null), ioport_write_table = (\<lambda>_ _. Null)\<rparr>"

section \<open>Accesses\<close>

definition default_ioport_readb :: "u32 \<Rightarrow> 'm \<Rightarrow> io_err + (u32 \<times> 'm)" where
  "default_ioport_readb address m = Inr (0xff, m)"

definition default_ioport_writeb :: "u32 \<Rightarrow> u32 \<Rightarrow> 'm \<Rightarrow> io_err + 'm" where
  "default_ioport_writeb address data m = Inr m"

definition default_ioport_readl :: "u32 \<Rightarrow> 'm \<Rightarrow> io_err + (u32 \<times> 'm)" where
  "default_ioport_readl address m = Inr (0xffffffff, m)"

definition default_ioport_writel :: "u32 \<Rightarrow> u32 \<Rightarrow> 'm \<Rightarrow> io_err + 'm" where
  "default_ioport_writel address data m = Inr m"

text \<open>The default word access makes two byte accesses: \<open>byte\<close> is the access with index 0.\<close>

definition default_ioport_readw ::
  "(u32 \<Rightarrow> 'm \<Rightarrow> io_err + (u32 \<times> 'm)) \<Rightarrow> u32 \<Rightarrow> 'm \<Rightarrow> io_err + (u32 \<times> 'm)" where
  "default_ioport_readw byte address m =
     ebind (byte address m) (\<lambda>(data, m).
       let address = (address + 1) AND IOPORTS_MASK
       in ebind (byte address m) (\<lambda>(d, m). Inr (data OR push_bit 8 d, m)))"

definition default_ioport_writew ::
  "(u32 \<Rightarrow> u32 \<Rightarrow> 'm \<Rightarrow> io_err + 'm) \<Rightarrow> u32 \<Rightarrow> u32 \<Rightarrow> 'm \<Rightarrow> io_err + 'm" where
  "default_ioport_writew byte address data m =
     ebind (byte address (data AND 0xff) m) (\<lambda>m.
       let address = (address + 1) AND IOPORTS_MASK
       in byte address (drop_bit 8 data AND 0xff) m)"

function ioport_read :: "('o, 'm) ioports \<Rightarrow> nat \<Rightarrow> u32 \<Rightarrow> 'm \<Rightarrow> io_err + (u32 \<times> 'm)" where
  "ioport_read t index address m =
     (if \<not> unat address < MAX_IOPORTS then Inl OutOfRange
      else case ioport_read_table t index (unat address) of
        Func f \<Rightarrow> f (ioport_opaque t (unat address)) address m
      | _ \<Rightarrow>
          if index = 0 then default_ioport_readb address m
          else if index = 1 then default_ioport_readw (ioport_read t 0) address m
          else default_ioport_readl address m)"
  by pat_completeness auto
termination by (relation "measure (\<lambda>(t, i, a, m). i)") auto

function ioport_write :: "('o, 'm) ioports \<Rightarrow> nat \<Rightarrow> u32 \<Rightarrow> u32 \<Rightarrow> 'm \<Rightarrow> io_err + 'm" where
  "ioport_write t index address data m =
     (if \<not> unat address < MAX_IOPORTS then Inl OutOfRange
      else case ioport_write_table t index (unat address) of
        Func f \<Rightarrow> f (ioport_opaque t (unat address)) address data m
      | _ \<Rightarrow>
          if index = 0 then default_ioport_writeb address data m
          else if index = 1 then default_ioport_writew (ioport_write t 0) address data m
          else default_ioport_writel address data m)"
  by pat_completeness auto
termination by (relation "measure (\<lambda>(t, i, a, d, m). i)") auto

declare ioport_read.simps [simp del] ioport_write.simps [simp del]

definition cpu_outb :: "('o, 'm) ioports \<Rightarrow> u32 \<Rightarrow> u8 \<Rightarrow> 'm \<Rightarrow> io_err + 'm" where
  "cpu_outb t addr val m = ioport_write t 0 addr (ucast val) m"

definition cpu_outw :: "('o, 'm) ioports \<Rightarrow> u32 \<Rightarrow> u16 \<Rightarrow> 'm \<Rightarrow> io_err + 'm" where
  "cpu_outw t addr val m = ioport_write t 1 addr (ucast val) m"

definition cpu_outl :: "('o, 'm) ioports \<Rightarrow> u32 \<Rightarrow> u32 \<Rightarrow> 'm \<Rightarrow> io_err + 'm" where
  "cpu_outl t addr val m = ioport_write t 2 addr val m"

definition cpu_inb :: "('o, 'm) ioports \<Rightarrow> u32 \<Rightarrow> 'm \<Rightarrow> io_err + (u8 \<times> 'm)" where
  "cpu_inb t addr m = ebind (ioport_read t 0 addr m) (\<lambda>(v, m). Inr (ucast v, m))"

definition cpu_inw :: "('o, 'm) ioports \<Rightarrow> u32 \<Rightarrow> 'm \<Rightarrow> io_err + (u16 \<times> 'm)" where
  "cpu_inw t addr m = ebind (ioport_read t 1 addr m) (\<lambda>(v, m). Inr (ucast v, m))"

definition cpu_inl :: "('o, 'm) ioports \<Rightarrow> u32 \<Rightarrow> 'm \<Rightarrow> io_err + (u32 \<times> 'm)" where
  "cpu_inl t addr m = ioport_read t 2 addr m"

section \<open>Registration\<close>

definition ioport_bsize :: "nat \<Rightarrow> nat option" where
  "ioport_bsize sz = (if sz = 1 then Some 0 else if sz = 2 then Some 1 else if sz = 4 then Some 2 else None)"

text \<open>The ports \<open>start\<close>, \<open>start + size\<close>, and so on, below \<open>start + length\<close>.\<close>

definition port_range :: "nat \<Rightarrow> nat \<Rightarrow> nat \<Rightarrow> nat list" where
  "port_range start len sz = map (\<lambda>k. start + k * sz) [0..<(len + sz - 1) div sz]"

definition register_read_at :: "nat \<Rightarrow> ('o, 'm) read_func \<Rightarrow> 'o option \<Rightarrow> ('o, 'm) ioports \<Rightarrow> nat \<Rightarrow> io_err + ('o, 'm) ioports" where
  "register_read_at bsize func opaque t i =
     (if \<not> i < MAX_IOPORTS then Inl OutOfRange
      else
        let t = t\<lparr>ioport_read_table := (ioport_read_table t)(bsize := (ioport_read_table t bsize)(i := Func func))\<rparr>
        in if ioport_opaque t i \<noteq> None \<and> ioport_opaque t i \<noteq> opaque then Inl (InvalidOpaque i)
           else Inr (t\<lparr>ioport_opaque := (ioport_opaque t)(i := opaque)\<rparr>))"

definition register_ioport_read ::
  "nat \<Rightarrow> nat \<Rightarrow> nat \<Rightarrow> ('o, 'm) read_func \<Rightarrow> 'o option \<Rightarrow> ('o, 'm) ioports \<Rightarrow> io_err + ('o, 'm) ioports" where
  "register_ioport_read start len sz func opaque t =
     (case ioport_bsize sz of
        None \<Rightarrow> Inl InvalidSize
      | Some bsize \<Rightarrow> run_err (register_read_at bsize func opaque) t (port_range start len sz))"

definition register_write_at :: "nat \<Rightarrow> ('o, 'm) write_func \<Rightarrow> 'o option \<Rightarrow> ('o, 'm) ioports \<Rightarrow> nat \<Rightarrow> io_err + ('o, 'm) ioports" where
  "register_write_at bsize func opaque t i =
     (if \<not> i < MAX_IOPORTS then Inl OutOfRange
      else
        let t = t\<lparr>ioport_write_table := (ioport_write_table t)(bsize := (ioport_write_table t bsize)(i := Func func))\<rparr>
        in if ioport_opaque t i \<noteq> None \<and> ioport_opaque t i \<noteq> opaque then Inl (InvalidOpaque i)
           else Inr (t\<lparr>ioport_opaque := (ioport_opaque t)(i := opaque)\<rparr>))"

definition register_ioport_write ::
  "nat \<Rightarrow> nat \<Rightarrow> nat \<Rightarrow> ('o, 'm) write_func \<Rightarrow> 'o option \<Rightarrow> ('o, 'm) ioports \<Rightarrow> io_err + ('o, 'm) ioports" where
  "register_ioport_write start len sz func opaque t =
     (case ioport_bsize sz of
        None \<Rightarrow> Inl InvalidSize
      | Some bsize \<Rightarrow> run_err (register_write_at bsize func opaque) t (port_range start len sz))"

definition unassign_at :: "('o, 'm) ioports \<Rightarrow> nat \<Rightarrow> io_err + ('o, 'm) ioports" where
  "unassign_at t i =
     (if \<not> i < MAX_IOPORTS then Inl OutOfRange
      else Inr (t\<lparr>ioport_read_table := (\<lambda>b. if b < 3 then (ioport_read_table t b)(i := Default) else ioport_read_table t b),
                 ioport_write_table := (\<lambda>b. if b < 3 then (ioport_write_table t b)(i := Default) else ioport_write_table t b),
                 ioport_opaque := (ioport_opaque t)(i := None)\<rparr>))"

definition isa_unassign_ioport :: "nat \<Rightarrow> nat \<Rightarrow> ('o, 'm) ioports \<Rightarrow> io_err + ('o, 'm) ioports" where
  "isa_unassign_ioport start len t = run_err unassign_at t [start..<start + len]"

section \<open>Ranges\<close>

text \<open>An \<open>IORange\<close>, with its operations; the thunks find it through their \<open>opaque\<close> argument.\<close>

record 'm IORange =
  ops_read :: "u64 \<Rightarrow> nat \<Rightarrow> 'm \<Rightarrow> io_err + (u64 \<times> 'm)"
  ops_write :: "u64 \<Rightarrow> nat \<Rightarrow> u64 \<Rightarrow> 'm \<Rightarrow> io_err + 'm"
  base :: u64
  len :: u64

definition iorange_init ::
  "(u64 \<Rightarrow> nat \<Rightarrow> 'm \<Rightarrow> io_err + (u64 \<times> 'm)) \<Rightarrow> (u64 \<Rightarrow> nat \<Rightarrow> u64 \<Rightarrow> 'm \<Rightarrow> io_err + 'm) \<Rightarrow> u64 \<Rightarrow> u64 \<Rightarrow> 'm IORange" where
  "iorange_init rd wr b l = \<lparr>ops_read = rd, ops_write = wr, base = b, len = l\<rparr>"

definition ioport_readb_thunk :: "'m IORange \<Rightarrow> ('o, 'm) read_func" where
  "ioport_readb_thunk r opaque addr m = ebind (ops_read r (ucast addr - base r) 1 m) (\<lambda>(d, m). Inr (ucast d, m))"
definition ioport_readw_thunk :: "'m IORange \<Rightarrow> ('o, 'm) read_func" where
  "ioport_readw_thunk r opaque addr m = ebind (ops_read r (ucast addr - base r) 2 m) (\<lambda>(d, m). Inr (ucast d, m))"
definition ioport_readl_thunk :: "'m IORange \<Rightarrow> ('o, 'm) read_func" where
  "ioport_readl_thunk r opaque addr m = ebind (ops_read r (ucast addr - base r) 4 m) (\<lambda>(d, m). Inr (ucast d, m))"
definition ioport_writeb_thunk :: "'m IORange \<Rightarrow> ('o, 'm) write_func" where
  "ioport_writeb_thunk r opaque addr data m = ops_write r (ucast addr - base r) 1 (ucast data) m"
definition ioport_writew_thunk :: "'m IORange \<Rightarrow> ('o, 'm) write_func" where
  "ioport_writew_thunk r opaque addr data m = ops_write r (ucast addr - base r) 2 (ucast data) m"
definition ioport_writel_thunk :: "'m IORange \<Rightarrow> ('o, 'm) write_func" where
  "ioport_writel_thunk r opaque addr data m = ops_write r (ucast addr - base r) 4 (ucast data) m"

definition ioport_register :: "'o \<Rightarrow> 'm IORange \<Rightarrow> ('o, 'm) ioports \<Rightarrow> io_err + ('o, 'm) ioports" where
  "ioport_register self r t =
     (let b = unat (ucast (base r) :: u32); l = nat (sint (ucast (len r) :: u32)); op = Some self in
      ebind (register_ioport_read b l 1 (ioport_readb_thunk r) op t) (\<lambda>t.
      ebind (register_ioport_read b l 2 (ioport_readw_thunk r) op t) (\<lambda>t.
      ebind (register_ioport_read b l 4 (ioport_readl_thunk r) op t) (\<lambda>t.
      ebind (register_ioport_write b l 1 (ioport_writeb_thunk r) op t) (\<lambda>t.
      ebind (register_ioport_write b l 2 (ioport_writew_thunk r) op t) (\<lambda>t.
      register_ioport_write b l 4 (ioport_writel_thunk r) op t))))))"

section \<open>What registration does\<close>

lemma register_read_run:
  "\<forall>i\<in>set is. i < MAX_IOPORTS \<and> (ioport_opaque t i = None \<or> ioport_opaque t i = op) \<Longrightarrow>
   run_err (register_read_at b f op) t is = Inr (t\<lparr>
     ioport_read_table := (ioport_read_table t)(b := \<lambda>i. if i \<in> set is then Func f else ioport_read_table t b i),
     ioport_opaque := \<lambda>i. if i \<in> set is then op else ioport_opaque t i\<rparr>)"
proof (induction "is" arbitrary: t)
  case (Cons i "is")
  let ?t = "t\<lparr>ioport_read_table := (ioport_read_table t)(b := (ioport_read_table t b)(i := Func f)),
      ioport_opaque := (ioport_opaque t)(i := op)\<rparr>"
  have "register_read_at b f op t i = Inr ?t" using Cons.prems by (auto simp: register_read_at_def)
  moreover have "\<forall>j\<in>set is. j < MAX_IOPORTS \<and> (ioport_opaque ?t j = None \<or> ioport_opaque ?t j = op)"
    using Cons.prems by auto
  ultimately show ?case using Cons.IH [of ?t] by (simp add: fun_upd_def fun_eq_iff cong: if_cong)
qed (simp add: fun_upd_idem)

lemma register_write_run:
  "\<forall>i\<in>set is. i < MAX_IOPORTS \<and> (ioport_opaque t i = None \<or> ioport_opaque t i = op) \<Longrightarrow>
   run_err (register_write_at b f op) t is = Inr (t\<lparr>
     ioport_write_table := (ioport_write_table t)(b := \<lambda>i. if i \<in> set is then Func f else ioport_write_table t b i),
     ioport_opaque := \<lambda>i. if i \<in> set is then op else ioport_opaque t i\<rparr>)"
proof (induction "is" arbitrary: t)
  case (Cons i "is")
  let ?t = "t\<lparr>ioport_write_table := (ioport_write_table t)(b := (ioport_write_table t b)(i := Func f)),
      ioport_opaque := (ioport_opaque t)(i := op)\<rparr>"
  have "register_write_at b f op t i = Inr ?t" using Cons.prems by (auto simp: register_write_at_def)
  moreover have "\<forall>j\<in>set is. j < MAX_IOPORTS \<and> (ioport_opaque ?t j = None \<or> ioport_opaque ?t j = op)"
    using Cons.prems by auto
  ultimately show ?case using Cons.IH [of ?t] by (simp add: fun_upd_def fun_eq_iff cong: if_cong)
qed (simp add: fun_upd_idem)

lemma port_range_mem: "0 < sz \<Longrightarrow> i \<in> set (port_range start n sz) \<longleftrightarrow> start \<le> i \<and> i < start + n \<and> sz dvd (i - start)"
proof
  assume s: "0 < sz" and "i \<in> set (port_range start n sz)"
  then obtain k where k: "i = start + k * sz" "k < (n + sz - 1) div sz" by (auto simp: port_range_def)
  from k(2) have "Suc k * sz \<le> n + sz - 1" using s by (simp add: less_eq_div_iff_mult_less_eq Suc_le_eq [symmetric])
  then have "k * sz < n" using s by simp
  then show "start \<le> i \<and> i < start + n \<and> sz dvd (i - start)" by (simp add: k(1))
next
  assume s: "0 < sz" and i: "start \<le> i \<and> i < start + n \<and> sz dvd (i - start)"
  then obtain k where k: "i - start = sz * k" by (auto simp: dvd_def)
  then have "k * sz < n" using i mult.commute [of sz k] by linarith
  then have "Suc k * sz \<le> n + sz - 1" using s by simp
  then have "k < (n + sz - 1) div sz" using s by (simp add: less_eq_div_iff_mult_less_eq Suc_le_eq [symmetric])
  moreover have "i = start + k * sz" using k i mult.commute [of sz k] by linarith
  ultimately show "i \<in> set (port_range start n sz)" by (auto simp: port_range_def)
qed

text \<open>The state after a device has registered its byte handlers for a range.\<close>

definition with_ports :: "nat set \<Rightarrow> ('o, 'm) read_func \<Rightarrow> ('o, 'm) write_func \<Rightarrow> 'o option \<Rightarrow> ('o, 'm) ioports \<Rightarrow> ('o, 'm) ioports" where
  "with_ports A rd wr op t = t\<lparr>
     ioport_read_table := (ioport_read_table t)(0 := \<lambda>i. if i \<in> A then Func rd else ioport_read_table t 0 i),
     ioport_write_table := (ioport_write_table t)(0 := \<lambda>i. if i \<in> A then Func wr else ioport_write_table t 0 i),
     ioport_opaque := \<lambda>i. if i \<in> A then op else ioport_opaque t i\<rparr>"

lemma port_range_bytes: "set (port_range start n 1) = {start..<start + n}"
proof (rule set_eqI)
  show "i \<in> set (port_range start n 1) \<longleftrightarrow> i \<in> {start..<start + n}" for i
    unfolding port_range_mem [OF zero_less_one] by simp
qed

lemma register_bytes:
  assumes "start + n \<le> MAX_IOPORTS" "\<And>i. i \<in> {start..<start + n} \<Longrightarrow> ioport_opaque t i = None \<or> ioport_opaque t i = op"
  shows "ebind (register_ioport_read start n 1 rd op t) (register_ioport_write start n 1 wr op)
    = Inr (with_ports {start..<start + n} rd wr op t)"
proof -
  let ?A = "{start..<start + n}"
  let ?t = "t\<lparr>ioport_read_table := (ioport_read_table t)(0 := \<lambda>i. if i \<in> ?A then Func rd else ioport_read_table t 0 i),
      ioport_opaque := \<lambda>i. if i \<in> ?A then op else ioport_opaque t i\<rparr>"
  have "register_ioport_read start n 1 rd op t = Inr ?t"
    unfolding register_ioport_read_def ioport_bsize_def
    using register_read_run [of "port_range start n 1" t op 0 rd] assms by (simp add: port_range_bytes del: One_nat_def)
  moreover have "register_ioport_write start n 1 wr op ?t = Inr (with_ports ?A rd wr op t)"
    unfolding register_ioport_write_def ioport_bsize_def
    using register_write_run [of "port_range start n 1" ?t op 0 wr] assms
    by (simp add: port_range_bytes with_ports_def del: One_nat_def) (auto simp: fun_eq_iff)
  ultimately show ?thesis by simp
qed

lemma with_ports_access:
  assumes "unat a < MAX_IOPORTS"
  shows "unat a \<in> A \<Longrightarrow> ioport_read (with_ports A rd wr op t) 0 a m = rd op a m"
    "unat a \<in> A \<Longrightarrow> ioport_write (with_ports A rd wr op t) 0 a d m = wr op a d m"
    "unat a \<notin> A \<Longrightarrow> ioport_read (with_ports A rd wr op t) 0 a m = ioport_read t 0 a m"
    "unat a \<notin> A \<Longrightarrow> ioport_write (with_ports A rd wr op t) 0 a d m = ioport_write t 0 a d m"
  using assms by (simp_all add: ioport_read.simps ioport_write.simps with_ports_def split: slot.split)

text \<open>
  C17: registering a device puts it on the bus. When a device registers byte handlers for a range of
  free ports, both registrations succeed; from then on an access of the CPU to a port of the range
  calls the device's handler with its own \<open>opaque\<close> and the full address, and an access outside the
  range does what it did before.
\<close>

theorem ioport_dispatch:
  assumes "start + n \<le> MAX_IOPORTS"
    and "\<And>i. i \<in> {start..<start + n} \<Longrightarrow> ioport_opaque t i = None \<or> ioport_opaque t i = op"
    and "unat a < MAX_IOPORTS"
  shows "\<exists>t'. ebind (register_ioport_read start n 1 rd op t) (register_ioport_write start n 1 wr op) = Inr t'
    \<and> cpu_inb t' a m = (if unat a \<in> {start..<start + n} then ebind (rd op a m) (\<lambda>(v, m). Inr (ucast v, m)) else cpu_inb t a m)
    \<and> cpu_outb t' a v m = (if unat a \<in> {start..<start + n} then wr op a (ucast v) m else cpu_outb t a v m)"
proof (intro exI conjI)
  show "ebind (register_ioport_read start n 1 rd op t) (register_ioport_write start n 1 wr op)
      = Inr (with_ports {start..<start + n} rd wr op t)"
    using assms(1,2) by (rule register_bytes)
qed (cases "unat a \<in> {start..<start + n}"; simp only: cpu_inb_def cpu_outb_def with_ports_access [OF assms(3)] if_True if_False)+

text \<open>
  Ports are never taken over silently. If some port of a range already belongs to another
  \<open>opaque\<close>, registering handlers for the range aborts.
\<close>

theorem ioport_conflict:
  assumes "ioport_bsize sz = Some b" "start + n \<le> MAX_IOPORTS"
    and "i \<in> set (port_range start n sz)" "ioport_opaque t i = Some x" "Some x \<noteq> op"
  shows "\<exists>j. register_ioport_read start n sz rd op t = Inl (InvalidOpaque j)
    \<and> register_ioport_write start n sz wr op t = Inl (InvalidOpaque j)"
proof -
  have s: "0 < sz" using assms(1) by (auto simp: ioport_bsize_def split: if_splits)
  have less: "\<forall>j\<in>set (port_range start n sz). j < MAX_IOPORTS" using port_range_mem [OF s] assms(2) by fastforce
  have "\<exists>j. run_err (register_read_at b rd op) t' is = Inl (InvalidOpaque j)
      \<and> run_err (register_write_at b wr op) t'' is = Inl (InvalidOpaque j)"
    if "i \<in> set is" "\<forall>j\<in>set is. j < MAX_IOPORTS" "ioport_opaque t' i = Some x" "ioport_opaque t'' = ioport_opaque t'"
    for "is" t' t''
    using that
  proof (induction "is" arbitrary: t' t'')
    case (Cons k ks)
    show ?case
    proof (cases "ioport_opaque t' k \<noteq> None \<and> ioport_opaque t' k \<noteq> op")
      case True
      then show ?thesis using Cons.prems by (simp add: register_read_at_def register_write_at_def)
    next
      case False
      then have "k \<noteq> i" using Cons.prems(3) assms(5) by auto
      let ?t1 = "t'\<lparr>ioport_read_table := (ioport_read_table t')(b := (ioport_read_table t' b)(k := Func rd)),
          ioport_opaque := (ioport_opaque t')(k := op)\<rparr>"
      let ?t2 = "t''\<lparr>ioport_write_table := (ioport_write_table t'')(b := (ioport_write_table t'' b)(k := Func wr)),
          ioport_opaque := (ioport_opaque t'')(k := op)\<rparr>"
      have "register_read_at b rd op t' k = Inr ?t1" "register_write_at b wr op t'' k = Inr ?t2"
        using False Cons.prems(2,4) by (auto simp: register_read_at_def register_write_at_def)
      moreover have "\<exists>j. run_err (register_read_at b rd op) ?t1 ks = Inl (InvalidOpaque j)
          \<and> run_err (register_write_at b wr op) ?t2 ks = Inl (InvalidOpaque j)"
        using Cons.prems \<open>k \<noteq> i\<close> by (intro Cons.IH) simp_all
      ultimately show ?thesis by simp
    qed
  qed simp
  from this [OF assms(3) less assms(4) refl] show ?thesis
    by (simp add: register_ioport_read_def register_ioport_write_def assms(1))
qed

section \<open>Word accesses\<close>

definition no_func :: "'f slot \<Rightarrow> bool" where
  "no_func s = (case s of Func _ \<Rightarrow> False | _ \<Rightarrow> True)"

lemma read_default_w:
  "unat a < MAX_IOPORTS \<Longrightarrow> no_func (ioport_read_table t 1 (unat a)) \<Longrightarrow>
   ioport_read t 1 a m = default_ioport_readw (ioport_read t 0) a m"
  by (subst ioport_read.simps) (simp add: no_func_def split: slot.splits)

lemma write_default_w:
  "unat a < MAX_IOPORTS \<Longrightarrow> no_func (ioport_write_table t 1 (unat a)) \<Longrightarrow>
   ioport_write t 1 a d m = default_ioport_writew (ioport_write t 0) a d m"
  by (subst ioport_write.simps) (simp add: no_func_def split: slot.splits)

lemma word_of_bytes: "(ucast (data OR push_bit 8 d) :: u16) = ucast (ucast data :: u8) OR push_bit 8 (ucast (ucast d :: u8))"
  if "unat data < 256" for data d :: u32
proof (rule bit_word_eqI)
  fix n assume n: "n < LENGTH(16)"
  have hi: "\<not> bit data k" if "8 \<le> k" for k
  proof -
    have "(2 :: nat) ^ 8 \<le> 2 ^ k" using \<open>8 \<le> k\<close> by (intro power_increasing) simp_all
    then have "unat data < 2 ^ k" using \<open>unat data < 256\<close> by simp
    then have "\<not> bit (unat data) k" by (simp add: bit_iff_odd)
    then show ?thesis by (simp add: bit_unsigned_iff)
  qed
  show "bit (ucast (data OR push_bit 8 d) :: u16) n = bit (ucast (ucast data :: u8) OR push_bit 8 (ucast (ucast d :: u8)) :: u16) n"
    using n hi [of n] by (auto simp: bit_simps)
qed

lemma lo_byte: "data AND 0xff = ucast (ucast data :: u8)" for data :: u32
  by (rule ucast_ucast8 [symmetric])

text \<open>
  C32: a word access to ports without a word handler is two byte accesses, low byte first, the
  second one wrapping at the end of the port space: the word written is taken apart, and the word
  read put together, little-endian, with the state passed from the first access to the second. The
  handler of the low byte answers with a byte, as it must: the default word handler does not cut it.
\<close>

theorem ioport_word_access:
  assumes "unat a < MAX_IOPORTS" "a' = (a + 1) AND IOPORTS_MASK"
    and "no_func (ioport_read_table t 1 (unat a))" "no_func (ioport_write_table t 1 (unat a))"
    and "ioport_read t 0 a m = Inr (lo, m1)" "unat lo < 256" "ioport_read t 0 a' m1 = Inr (hi, m2)"
  shows "cpu_inb t a m = Inr (ucast lo, m1) \<and> cpu_inb t a' m1 = Inr (ucast hi, m2)
    \<and> cpu_inw t a m = Inr (ucast (ucast lo :: u8) OR push_bit 8 (ucast (ucast hi :: u8)), m2)
    \<and> cpu_outw t a v m = ebind (cpu_outb t a (ucast v) m) (cpu_outb t a' (ucast (drop_bit 8 v)))"
proof -
  have "cpu_inw t a m = Inr (ucast (lo OR push_bit 8 hi), m2)"
    unfolding cpu_inw_def read_default_w [OF assms(1,3)] default_ioport_readw_def
    using assms(5,7) by (simp add: assms(2) [symmetric])
  moreover have e: "ucast v AND 0xff = (ucast (ucast v :: u8) :: u32)" for v :: u16
    by (simp add: lo_byte) (rule bit_word_eqI, auto simp: bit_simps)
  have "drop_bit 8 (ucast v :: u32) = ucast (drop_bit 8 v)" by (rule bit_word_eqI) (auto simp: bit_simps dest: bit_imp_le_length)
  then have "drop_bit 8 (ucast v :: u32) AND 0xff = ucast (ucast (drop_bit 8 v) :: u8)" by (simp only: e)
  then have "cpu_outw t a v m = ebind (cpu_outb t a (ucast v) m) (cpu_outb t a' (ucast (drop_bit 8 v)))"
    unfolding cpu_outw_def write_default_w [OF assms(1,4)] default_ioport_writew_def cpu_outb_def e
    by (simp only: assms(2) [symmetric] Let_def)
  ultimately show ?thesis
    using assms(5,7) word_of_bytes [OF assms(6)] by (simp add: cpu_inb_def)
qed

section \<open>Unassigning, and ranges\<close>

lemma unassign_run:
  "\<forall>i\<in>set is. i < MAX_IOPORTS \<Longrightarrow> run_err unassign_at t is = Inr (t\<lparr>
     ioport_read_table := \<lambda>b i. if b < 3 \<and> i \<in> set is then Default else ioport_read_table t b i,
     ioport_write_table := \<lambda>b i. if b < 3 \<and> i \<in> set is then Default else ioport_write_table t b i,
     ioport_opaque := \<lambda>i. if i \<in> set is then None else ioport_opaque t i\<rparr>)"
proof (induction "is" arbitrary: t)
  case (Cons i "is")
  then show ?case by (simp add: unassign_at_def) (auto simp: fun_eq_iff)
qed simp

lemma ones: "(0xff :: u32) OR push_bit 8 0xff = 0xffff"
  by code_simp

text \<open>
  Unassigned ports are free again. After \<open>isa_unassign_ioport\<close> on a range, reads of its ports
  give all ones in every width and writes change nothing, whatever was registered there, and any
  device can register the range.
\<close>

theorem isa_unassign_frees:
  assumes "start + n \<le> MAX_IOPORTS" "start \<le> unat a" "unat a < start + n" "unat ((a + 1) AND IOPORTS_MASK) < start + n"
    and "start \<le> unat ((a + 1) AND IOPORTS_MASK)"
  shows "\<exists>t'. isa_unassign_ioport start n t = Inr t' \<and> cpu_inb t' a m = Inr (0xff, m) \<and> cpu_inw t' a m = Inr (0xffff, m)
    \<and> cpu_inl t' a m = Inr (0xffffffff, m) \<and> cpu_outb t' a vb m = Inr m \<and> cpu_outw t' a vw m = Inr m \<and> cpu_outl t' a vl m = Inr m
    \<and> ebind (register_ioport_read start n 1 rd op t') (register_ioport_write start n 1 wr op)
        = Inr (with_ports {start..<start + n} rd wr op t')"
proof -
  let ?t = "t\<lparr>ioport_read_table := \<lambda>b i. if b < 3 \<and> i \<in> {start..<start + n} then Default else ioport_read_table t b i,
     ioport_write_table := \<lambda>b i. if b < 3 \<and> i \<in> {start..<start + n} then Default else ioport_write_table t b i,
     ioport_opaque := \<lambda>i. if i \<in> {start..<start + n} then None else ioport_opaque t i\<rparr>"
  have u: "isa_unassign_ioport start n t = Inr ?t"
    unfolding isa_unassign_ioport_def using assms(1) by (subst unassign_run) simp_all
  have r: "ioport_read_table ?t b (unat x) = Default" "ioport_write_table ?t b (unat x) = Default"
    if "b < 3" "start \<le> unat x" "unat x < start + n" for b x using that by simp_all
  have lt: "unat a < MAX_IOPORTS" "unat ((a + 1) AND IOPORTS_MASK) < MAX_IOPORTS" using assms by linarith+
  have b: "ioport_read ?t 0 x m = Inr (0xff, m)" "ioport_write ?t 0 x d m = Inr m"
    if "start \<le> unat x" "unat x < start + n" "unat x < MAX_IOPORTS" for x d
    using r [of 0 x] that by (simp_all add: ioport_read.simps ioport_write.simps default_ioport_readb_def default_ioport_writeb_def)
  have nf: "no_func (ioport_read_table ?t 1 (unat a))" "no_func (ioport_write_table ?t 1 (unat a))"
    using r [of 1 a] assms(2,3) by (simp_all add: no_func_def)
  have w: "ioport_read ?t 1 a m = Inr (0xffff, m)" "ioport_write ?t 1 a d m = Inr m" for d
    unfolding read_default_w [OF lt(1) nf(1)] write_default_w [OF lt(1) nf(2)] default_ioport_readw_def default_ioport_writew_def
    by (simp_all only: b [OF assms(2,3) lt(1)] b [OF assms(5,4) lt(2)] Let_def ebind_Inr prod.case ones)
  have l: "ioport_read ?t 2 a m = Inr (0xffffffff, m)" "ioport_write ?t 2 a d m = Inr m" for d
    using r [of 2 a] assms(2,3) lt(1)
    by (simp_all add: ioport_read.simps ioport_write.simps default_ioport_readl_def default_ioport_writel_def)
  have g: "ebind (register_ioport_read start n 1 rd op ?t) (register_ioport_write start n 1 wr op)
      = Inr (with_ports {start..<start + n} rd wr op ?t)"
    using assms(1) by (intro register_bytes) simp_all
  show ?thesis
    by (rule exI [of _ ?t])
      (simp only: u g cpu_inb_def cpu_inw_def cpu_inl_def cpu_outb_def cpu_outw_def cpu_outl_def
        b [OF assms(2,3) lt(1)] w l ebind_Inr prod.case, simp)
qed

section \<open>The contract of the bus\<close>

text \<open>
  The port instructions of the CPU, whose port numbers have 16 bits. When every registered handler
  keeps an invariant of the devices and aborts only on writes known as fatal, every sequence of
  instructions keeps the invariant and aborts only at an instruction that makes a fatal write.
\<close>

datatype cpu_access = InB u16 | InW u16 | InL u16 | OutB u16 u8 | OutW u16 u16 | OutL u16 u32

fun cpu_step :: "('o, 'm) ioports \<Rightarrow> 'm \<Rightarrow> cpu_access \<Rightarrow> io_err + 'm" where
  "cpu_step t m (InB p) = ebind (cpu_inb t (ucast p) m) (Inr \<circ> snd)"
| "cpu_step t m (InW p) = ebind (cpu_inw t (ucast p) m) (Inr \<circ> snd)"
| "cpu_step t m (InL p) = ebind (cpu_inl t (ucast p) m) (Inr \<circ> snd)"
| "cpu_step t m (OutB p v) = cpu_outb t (ucast p) v m"
| "cpu_step t m (OutW p v) = cpu_outw t (ucast p) v m"
| "cpu_step t m (OutL p v) = cpu_outl t (ucast p) v m"

text \<open>The writes an instruction may make: as wide as the instruction, and the two bytes of a word.\<close>

definition fatal_access :: "(nat \<Rightarrow> nat \<Rightarrow> u32 \<Rightarrow> bool) \<Rightarrow> cpu_access \<Rightarrow> bool" where
  "fatal_access fatal x =
     (case x of
        OutB p v \<Rightarrow> fatal 0 (unat p) (ucast v)
      | OutW p v \<Rightarrow> fatal 1 (unat p) (ucast v) \<or> fatal 0 (unat p) (ucast v AND 0xff) \<or>
          fatal 0 (unat ((ucast p + 1) AND IOPORTS_MASK)) (drop_bit 8 (ucast v) AND 0xff)
      | OutL p v \<Rightarrow> fatal 2 (unat p) v
      | _ \<Rightarrow> False)"

lemma port16: "unat (ucast p :: u32) < MAX_IOPORTS" for p :: u16
proof -
  have "unat p < 2 ^ LENGTH(16)" by (rule unsigned_less)
  then have "unat p < 2 ^ 32" "unat p < MAX_IOPORTS" by (simp_all add: MAX_IOPORTS_def)
  then show ?thesis by (simp add: unsigned_ucast_eq take_bit_nat_eq_self)
qed

lemma port_mask: "unat (a AND IOPORTS_MASK) < MAX_IOPORTS"
proof -
  have "a AND 0xffff \<le> 0xffff" by (rule word_and_le1)
  then have "unat (a AND 0xffff) \<le> unat (0xffff :: u32)" by (rule word_le_nat_alt [THEN iffD1])
  also have "\<dots> < MAX_IOPORTS" by (simp add: MAX_IOPORTS_def)
  finally show ?thesis by (simp add: IOPORTS_MASK_def)
qed

lemma and_ff_less: "unat (d AND 0xff) < 256" for d :: u32
proof -
  have "unat (d AND 0xff) = take_bit 8 (unat d)" unfolding word_and_255 by (simp add: unsigned_take_bit_eq)
  also have "\<dots> < 2 ^ 8" by (rule take_bit_nat_less_exp)
  finally show ?thesis by simp
qed

locale port_bus =
  fixes ports :: "('o, 'm) ioports" and inv :: "'m \<Rightarrow> bool" and fatal :: "nat \<Rightarrow> nat \<Rightarrow> u32 \<Rightarrow> bool"
  assumes handler_read: "ioport_read_table ports b i = Func f \<Longrightarrow> i < MAX_IOPORTS \<Longrightarrow> inv m \<Longrightarrow>
      \<exists>v m'. f (ioport_opaque ports i) (of_nat i) m = Inr (v, m') \<and> inv m'"
    and handler_write: "ioport_write_table ports b i = Func g \<Longrightarrow> i < MAX_IOPORTS \<Longrightarrow> inv m \<Longrightarrow> (b = 0 \<Longrightarrow> unat d < 256) \<Longrightarrow>
      (\<exists>m'. g (ioport_opaque ports i) (of_nat i) d m = Inr m' \<and> inv m') \<or>
      g (ioport_opaque ports i) (of_nat i) d m = Inl DeviceError \<and> fatal b i d"
begin

lemma read0:
  assumes "unat a < MAX_IOPORTS" "inv m"
  shows "\<exists>v m'. ioport_read ports 0 a m = Inr (v, m') \<and> inv m'"
  using handler_read [of 0 "unat a" _ m] assms
  by (cases "ioport_read_table ports 0 (unat a)") (simp_all add: ioport_read.simps default_ioport_readb_def)

lemma read_ok:
  assumes "unat a < MAX_IOPORTS" "inv m"
  shows "\<exists>v m'. ioport_read ports b a m = Inr (v, m') \<and> inv m'"
proof -
  have w: "\<exists>v m'. default_ioport_readw (ioport_read ports 0) a m = Inr (v, m') \<and> inv m'"
  proof -
    obtain v m' where v: "ioport_read ports 0 a m = Inr (v, m')" "inv m'" using read0 [OF assms] by blast
    obtain v' m'' where "ioport_read ports 0 ((a + 1) AND IOPORTS_MASK) m' = Inr (v', m'')" "inv m''"
      using read0 [OF port_mask v(2)] by blast
    with v(1) show ?thesis by (simp add: default_ioport_readw_def)
  qed
  have h: "\<exists>v m'. f (ioport_opaque ports (unat a)) a m = Inr (v, m') \<and> inv m'"
    if "ioport_read_table ports b (unat a) = Func f" for f
    using handler_read [OF that assms] by simp
  show ?thesis
    unfolding ioport_read.simps [of ports b] using w h assms
    by (auto simp: default_ioport_readb_def default_ioport_readl_def split: slot.split)
qed

lemma write0:
  assumes "unat a < MAX_IOPORTS" "inv m" "unat d < 256"
  shows "(\<exists>m'. ioport_write ports 0 a d m = Inr m' \<and> inv m') \<or> ioport_write ports 0 a d m = Inl DeviceError \<and> fatal 0 (unat a) d"
  using handler_write [of 0 "unat a" _ m d] assms
  by (cases "ioport_write_table ports 0 (unat a)") (simp_all add: ioport_write.simps default_ioport_writeb_def)

lemma write_word:
  assumes "unat a < MAX_IOPORTS" "inv m"
  shows "(\<exists>m'. default_ioport_writew (ioport_write ports 0) a d m = Inr m' \<and> inv m') \<or>
    default_ioport_writew (ioport_write ports 0) a d m = Inl DeviceError \<and>
    (fatal 0 (unat a) (d AND 0xff) \<or> fatal 0 (unat ((a + 1) AND IOPORTS_MASK)) (drop_bit 8 d AND 0xff))"
  using write0 [OF assms(1,2) and_ff_less, of d]
proof
  assume "\<exists>m'. ioport_write ports 0 a (d AND 0xff) m = Inr m' \<and> inv m'"
  then obtain m' where "ioport_write ports 0 a (d AND 0xff) m = Inr m'" "inv m'" by blast
  with write0 [OF port_mask this(2) and_ff_less, of "a + 1" "drop_bit 8 d"] show ?thesis
    by (auto simp: default_ioport_writew_def)
qed (simp add: default_ioport_writew_def ebind_def)

lemma write_ok:
  assumes "unat a < MAX_IOPORTS" "inv m" "b = 0 \<Longrightarrow> unat d < 256"
  shows "(\<exists>m'. ioport_write ports b a d m = Inr m' \<and> inv m') \<or>
    ioport_write ports b a d m = Inl DeviceError \<and> (fatal b (unat a) d \<or> b = 1 \<and>
      (fatal 0 (unat a) (d AND 0xff) \<or> fatal 0 (unat ((a + 1) AND IOPORTS_MASK)) (drop_bit 8 d AND 0xff)))"
proof -
  have h: "(\<exists>m'. g (ioport_opaque ports (unat a)) a d m = Inr m' \<and> inv m') \<or>
      g (ioport_opaque ports (unat a)) a d m = Inl DeviceError \<and> fatal b (unat a) d"
    if "ioport_write_table ports b (unat a) = Func g" for g
    using handler_write [OF that assms] by simp
  show ?thesis
    unfolding ioport_write.simps [of ports b] using write_word [OF assms(1,2), of d] h assms
    by (auto simp: default_ioport_writeb_def default_ioport_writel_def split: slot.split)
qed

lemma access_ok:
  assumes "inv m"
  shows "(\<exists>m'. cpu_step ports m x = Inr m' \<and> inv m') \<or> cpu_step ports m x = Inl DeviceError \<and> fatal_access fatal x"
proof -
  have r: "\<exists>v m'. ioport_read ports b (ucast p) m = Inr (v, m') \<and> inv m'" for b and p :: u16
    using port16 assms by (rule read_ok)
  have u: "unat (ucast p :: u32) = unat p" for p :: u16
    by (simp add: unsigned_ucast_eq take_bit_nat_eq_self less_trans [OF unsigned_less])
  note w = write_ok [OF port16 assms, unfolded u]
  show ?thesis
  proof (cases x)
    case (InB p)
    then show ?thesis using r [of 0 p] by (auto simp: cpu_inb_def)
  next
    case (InW p)
    then show ?thesis using r [of 1 p] by (auto simp: cpu_inw_def)
  next
    case (InL p)
    then show ?thesis using r [of 2 p] by (auto simp: cpu_inl_def)
  next
    case (OutB p v)
    then show ?thesis using w [of 0 "ucast v" p] unat_byte [of v]
      by (auto simp: cpu_outb_def fatal_access_def unat_ucast_byte)
  next
    case (OutW p v)
    then show ?thesis using w [of 1 "ucast v" p] by (auto simp: cpu_outw_def fatal_access_def)
  next
    case (OutL p v)
    then show ?thesis using w [of 2 v p] by (auto simp: cpu_outl_def fatal_access_def)
  qed
qed

lemma harmless_run:
  "inv m \<Longrightarrow> list_all (\<lambda>x. \<not> fatal_access fatal x) xs \<Longrightarrow> \<exists>m'. run_err (cpu_step ports) m xs = Inr m' \<and> inv m'"
proof (induction xs arbitrary: m)
  case (Cons x xs)
  then obtain m' where "cpu_step ports m x = Inr m'" "inv m'" using access_ok [of m x] by auto
  with Cons show ?case by simp
qed simp

end

sublocale port_bus \<subseteq> err_system "cpu_step ports" inv
proof
  show "inv m \<Longrightarrow> cpu_step ports m x = Inr m' \<Longrightarrow> inv m'" for m x m' using access_ok [of m x] by auto
qed

section \<open>Witnesses\<close>

text \<open>A device with one register: its handlers answer the register and store into it.\<close>

definition wit_read :: "(unit, u8) read_func" where
  "wit_read op addr m = Inr (ucast m, m)"

definition wit_write :: "(unit, u8) write_func" where
  "wit_write op addr data m = Inr (ucast data)"

theorem ioport_dispatch_witness:
  "\<exists>t'. ebind (register_ioport_read 0x40 4 1 wit_read (Some ()) no_ports) (register_ioport_write 0x40 4 1 wit_write (Some ())) = Inr t'
    \<and> cpu_inb t' 0x42 (7 :: u8) = Inr (7, 7) \<and> cpu_outb t' 0x42 9 7 = Inr 9"
proof -
  have h: "0x40 + 4 \<le> MAX_IOPORTS" "unat (0x42 :: u32) < MAX_IOPORTS" "unat (0x42 :: u32) \<in> {0x40..<0x40 + 4}"
    "\<And>i. i \<in> {0x40..<0x40 + 4} \<Longrightarrow> ioport_opaque no_ports i = None \<or> ioport_opaque no_ports i = Some ()"
    by (simp_all add: MAX_IOPORTS_def no_ports_def)
  show ?thesis
    using ioport_dispatch [where t = no_ports and rd = wit_read and wr = wit_write and m = 7 and v = 9, OF h(1,4,2)] h(3)
    by (simp add: wit_read_def wit_write_def)
qed

theorem ioport_conflict_witness:
  "0x41 \<in> set (port_range 0x40 4 1) \<and> (\<exists>j. register_ioport_read 0x40 4 1 (\<lambda>_ _ m. Inr (0, m)) (Some 2) (no_ports\<lparr>ioport_opaque := \<lambda>_. Some (1 :: nat)\<rparr> :: (nat, unit) ioports)
    = Inl (InvalidOpaque j))"
proof -
  have "0x41 \<in> set (port_range 0x40 4 1)" by (simp add: port_range_def)
  then show ?thesis
    using ioport_conflict [where sz = 1 and b = 0 and start = "0x40" and n = 4 and i = "0x41" and op = "Some 2" and x = 1
        and t = "no_ports\<lparr>ioport_opaque := \<lambda>_. Some (1 :: nat)\<rparr> :: (nat, unit) ioports" and rd = "\<lambda>_ _ m. Inr (0, m)"]
    by (simp add: ioport_bsize_def MAX_IOPORTS_def del: One_nat_def) blast
qed

theorem ioport_word_access_witness:
  "cpu_inw (no_ports :: (unit, u8) ioports) 0xffff 3 = Inr (0xffff, 3)
   \<and> cpu_outw (no_ports :: (unit, u8) ioports) 0xffff 0x1234 3
     = ebind (cpu_outb (no_ports :: (unit, u8) ioports) 0xffff 0x34 3) (cpu_outb (no_ports :: (unit, u8) ioports) 0 0x12)"
proof -
  let ?t = "no_ports :: (unit, u8) ioports"
  have r: "ioport_read ?t 0 0xffff 3 = Inr (0xff, 3)" "ioport_read ?t 0 0 3 = Inr (0xff, 3)"
    by (simp_all add: ioport_read.simps no_ports_def MAX_IOPORTS_def default_ioport_readb_def)
  have a: "unat (0xffff :: u32) < MAX_IOPORTS" "0 = (0xffff + 1 :: u32) AND IOPORTS_MASK" "unat (0xff :: u32) < 256"
    "no_func (ioport_read_table ?t 1 (unat (0xffff :: u32)))" "no_func (ioport_write_table ?t 1 (unat (0xffff :: u32)))"
    by (simp_all add: MAX_IOPORTS_def IOPORTS_MASK_def no_func_def no_ports_def)
  have "ucast (ucast (0xff :: u32) :: u8) OR push_bit 8 (ucast (ucast (0xff :: u32) :: u8)) = (0xffff :: u16)"
    "(ucast (0x1234 :: u16) :: u8) = 0x34" "(ucast (drop_bit 8 (0x1234 :: u16)) :: u8) = 0x12"
    by code_simp+
  with ioport_word_access [OF a(1,2,4,5) r(1) a(3) r(2), where v = "0x1234"] show ?thesis by (simp only: simp_thms)
qed

theorem isa_unassign_frees_witness:
  "\<exists>t'. isa_unassign_ioport 0x40 4 (with_ports {0x40..<0x44} wit_read wit_write (Some ()) no_ports) = Inr t'
    \<and> cpu_inb t' 0x42 7 = Inr (0xff, 7) \<and> cpu_inw t' 0x42 7 = Inr (0xffff, 7)"
proof -
  have "unat ((0x42 + 1) AND IOPORTS_MASK) = 0x43" by (simp add: IOPORTS_MASK_def)
  then show ?thesis
    using isa_unassign_frees [where start = "0x40" and n = 4 and a = "0x42" and m = 7
        and t = "with_ports {0x40..<0x44} wit_read wit_write (Some ()) no_ports" and rd = wit_read and wr = wit_write
        and op = "Some ()" and vb = 0 and vw = 0 and vl = 0]
    by (auto simp: MAX_IOPORTS_def)
qed

end
