(* ===== verification/Dma.thy ===== *)
theory Dma
  imports Irq "HOL-Library.Sublist"
begin

text \<open>
  The two 8237 DMA controllers, \<open>hw/dma.c\<close>. The static array \<open>dma_controllers\<close> is part of a world
  that also holds the idle bottom half's scheduled flag and the environment \<open>'e\<close> (memory and the
  devices). A channel's \<open>transfer_handler\<close> is the null pointer, the file's own phony handler, or a
  device's function pointer \<open>'h\<close>, which the parameter \<open>call\<close> runs: it may change anything, the
  controllers included. Guest physical memory is reached through two parameters. Calling a null
  handler is \<open>None\<close>.
\<close>

datatype 'h handler = NoHandler | Phony | Handler 'h

record 'h dma_regs =
  dnow :: "int list"
  dbase :: "u16 list"
  dmode :: u8
  dpage :: u8
  dpageh :: u8
  dack :: u8
  eop :: u8
  transfer_handler :: "'h handler"

record 'h dma_cont =
  dstatus :: u8
  dcommand :: u8
  dmask :: u8
  flip_flop :: u8
  dshift :: nat
  dregs :: "'h dma_regs list"
  cpu_request_exit :: irq_line

record ('h, 'e) dma_world =
  dma_controllers :: "'h dma_cont list"
  dma_bh :: bool
  dma_env :: 'e

type_synonym ('h, 'e) call = "'h \<Rightarrow> nat \<Rightarrow> int \<Rightarrow> int \<Rightarrow> ('h, 'e) dma_world \<Rightarrow> int \<times> ('h, 'e) dma_world"

definition ADDR :: nat where "ADDR = 0"
definition COUNT :: nat where "COUNT = 1"

definition CMD_NOT_SUPPORTED :: u32 where
  "CMD_NOT_SUPPORTED = 0x01 OR 0x02 OR 0x08 OR 0x10 OR 0x20 OR 0x40 OR 0x80"

section \<open>Pages\<close>

definition page_channels :: "int list" where
  "page_channels = [-1, 2, 3, 1, -1, -1, -1, 0]"

definition upd_reg :: "'h dma_cont \<Rightarrow> nat \<Rightarrow> ('h dma_regs \<Rightarrow> 'h dma_regs) \<Rightarrow> 'h dma_cont" where
  "upd_reg d i f = d\<lparr>dregs := (dregs d)[i := f (dregs d ! i)]\<rparr>"

definition write_page :: "'h dma_cont \<Rightarrow> u32 \<Rightarrow> u32 \<Rightarrow> 'h dma_cont" where
  "write_page d nport data =
     (let ichan = page_channels ! unat (nport AND 7)
      in if ichan = -1 then d else upd_reg d (nat ichan) (\<lambda>r. r\<lparr>dpage := ucast data\<rparr>))"

definition write_pageh :: "'h dma_cont \<Rightarrow> u32 \<Rightarrow> u32 \<Rightarrow> 'h dma_cont" where
  "write_pageh d nport data =
     (let ichan = page_channels ! unat (nport AND 7)
      in if ichan = -1 then d else upd_reg d (nat ichan) (\<lambda>r. r\<lparr>dpageh := ucast data\<rparr>))"

definition read_page :: "'h dma_cont \<Rightarrow> u32 \<Rightarrow> u32" where
  "read_page d nport =
     (let ichan = page_channels ! unat (nport AND 7)
      in if ichan = -1 then 0 else ucast (dpage (dregs d ! nat ichan)))"

definition read_pageh :: "'h dma_cont \<Rightarrow> u32 \<Rightarrow> u32" where
  "read_pageh d nport =
     (let ichan = page_channels ! unat (nport AND 7)
      in if ichan = -1 then 0 else ucast (dpageh (dregs d ! nat ichan)))"

section \<open>Channel registers\<close>

definition init_chan :: "'h dma_cont \<Rightarrow> nat \<Rightarrow> 'h dma_cont" where
  "init_chan d ichan = upd_reg d ichan (\<lambda>r.
     r\<lparr>dnow := (dnow r)[ADDR := push_bit (dshift d) (uint (dbase r ! ADDR)), COUNT := 0]\<rparr>)"

definition getff :: "'h dma_cont \<Rightarrow> nat \<times> 'h dma_cont" where
  "getff d = (let ff = unat (flip_flop d) in (ff, d\<lparr>flip_flop := (if ff = 0 then 1 else 0)\<rparr>))"

definition iport :: "'h dma_cont \<Rightarrow> u32 \<Rightarrow> u32" where
  "iport d nport = drop_bit (dshift d) nport AND 0x0f"

definition read_chan :: "'h dma_cont \<Rightarrow> u32 \<Rightarrow> u32 \<times> 'h dma_cont" where
  "read_chan d nport =
     (let ip = iport d nport;
          ichan = unat (drop_bit 1 ip);
          nreg = unat (ip AND 1);
          r = dregs d ! ichan;
          dir = (if drop_bit 5 (dmode r) AND 1 \<noteq> 0 then -1 else 1);
          (ff, d) = getff d;
          val = (if nreg \<noteq> 0 then push_bit (dshift d) (uint (dbase r ! COUNT)) - dnow r ! COUNT
                 else dnow r ! ADDR + dnow r ! COUNT * dir)
      in (word_of_int (drop_bit (dshift d + ff * 8) val AND 0xff), d))"

definition write_chan :: "'h dma_cont \<Rightarrow> u32 \<Rightarrow> u32 \<Rightarrow> 'h dma_cont" where
  "write_chan d nport data =
     (let ip = iport d nport;
          ichan = unat (drop_bit 1 ip);
          nreg = unat (ip AND 1);
          (ff, d) = getff d
      in if ff \<noteq> 0 then
           init_chan (upd_reg d ichan (\<lambda>r. r\<lparr>dbase :=
             (dbase r)[nreg := (dbase r ! nreg AND 0xff) OR ucast (push_bit 8 data AND 0xff00)]\<rparr>)) ichan
         else upd_reg d ichan (\<lambda>r. r\<lparr>dbase := (dbase r)[nreg := (dbase r ! nreg AND 0xff00) OR ucast (data AND 0xff)]\<rparr>))"

section \<open>Running the channels\<close>

definition upd_cont :: "nat \<Rightarrow> ('h dma_cont \<Rightarrow> 'h dma_cont) \<Rightarrow> ('h, 'e) dma_world \<Rightarrow> ('h, 'e) dma_world" where
  "upd_cont k f w = w\<lparr>dma_controllers := (dma_controllers w)[k := f (dma_controllers w ! k)]\<rparr>"

definition dma_phony_handler :: "nat \<Rightarrow> int \<Rightarrow> int \<Rightarrow> int" where
  "dma_phony_handler nchan dma_pos dma_len = dma_pos"

definition run_handler :: "('h, 'e) call \<Rightarrow> 'h handler \<Rightarrow> nat \<Rightarrow> int \<Rightarrow> int \<Rightarrow> ('h, 'e) dma_world \<Rightarrow> (int \<times> ('h, 'e) dma_world) option" where
  "run_handler call hn nchan pos len w =
     (case hn of NoHandler \<Rightarrow> None | Phony \<Rightarrow> Some (dma_phony_handler nchan pos len, w) | Handler h \<Rightarrow> Some (call h nchan pos len w))"

definition channel_run :: "('h, 'e) call \<Rightarrow> nat \<Rightarrow> nat \<Rightarrow> ('h, 'e) dma_world \<Rightarrow> ('h, 'e) dma_world option" where
  "channel_run call ncont ichan w =
     (let r = dregs (dma_controllers w ! ncont) ! ichan
      in map_option (\<lambda>(n, w). upd_cont ncont (\<lambda>d. upd_reg d ichan (\<lambda>r. r\<lparr>dnow := (dnow r)[COUNT := n]\<rparr>)) w)
           (run_handler call (transfer_handler r) (ichan + push_bit 2 ncont) (dnow r ! COUNT)
              (push_bit ncont (uint (dbase r ! COUNT) + 1)) w))"

definition dma_requested :: "'h dma_cont \<Rightarrow> nat \<Rightarrow> bool" where
  "dma_requested d ichan \<longleftrightarrow> 0 = dmask d AND shl1 ichan \<and> 0 \<noteq> dstatus d AND push_bit 4 (shl1 ichan)"

definition dma_visit :: "('h, 'e) call \<Rightarrow> (('h, 'e) dma_world \<times> bool) option \<Rightarrow> nat \<times> nat \<Rightarrow> (('h, 'e) dma_world \<times> bool) option" where
  "dma_visit call s ci =
     (case s of None \<Rightarrow> None
      | Some (w, rearm) \<Rightarrow>
          if dma_requested (dma_controllers w ! fst ci) (snd ci)
          then map_option (\<lambda>w. (w, True)) (channel_run call (fst ci) (snd ci) w) else Some (w, rearm))"

definition dma_channels :: "(nat \<times> nat) list" where
  "dma_channels = [(c, i). c \<leftarrow> [0, 1], i \<leftarrow> [0, 1, 2, 3]]"

definition DMA_run :: "('h, 'e) call \<Rightarrow> ('h, 'e) dma_world \<Rightarrow> ('h, 'e) dma_world option" where
  "DMA_run call w =
     map_option (\<lambda>(w, rearm). if rearm then w\<lparr>dma_bh := True\<rparr> else w)
       (foldl (dma_visit call) (Some (w, False)) dma_channels)"

text \<open>The bottom half runs when the main loop finds it scheduled, and clears the flag first.\<close>

definition DMA_run_bh :: "('h, 'e) call \<Rightarrow> ('h, 'e) dma_world \<Rightarrow> ('h, 'e) dma_world option" where
  "DMA_run_bh call w = DMA_run call (w\<lparr>dma_bh := False\<rparr>)"

section \<open>Control registers\<close>

definition dma_set :: "nat \<Rightarrow> u8 \<Rightarrow> u8" where "dma_set n b = b OR shl1 n"
definition dma_clear :: "nat \<Rightarrow> u8 \<Rightarrow> u8" where "dma_clear n b = b AND NOT (shl1 n)"

definition write_cont :: "('h, 'e) call \<Rightarrow> nat \<Rightarrow> u32 \<Rightarrow> u32 \<Rightarrow> ('h, 'e) dma_world \<Rightarrow> ('h, 'e) dma_world option" where
  "write_cont call k nport data w =
     (let d = dma_controllers w ! k; ip = iport d nport; ichan = unat (data AND 3) in
      if ip = 0x08 then
        Some (if data \<noteq> 0 \<and> data AND CMD_NOT_SUPPORTED \<noteq> 0 then w
              else upd_cont k (\<lambda>d. d\<lparr>dcommand := ucast data\<rparr>) w)
      else if ip = 0x09 then
        DMA_run call (upd_cont k (\<lambda>d. d\<lparr>dstatus := dma_clear ichan
          (if data AND 4 \<noteq> 0 then dma_set (ichan + 4) (dstatus d) else dma_clear (ichan + 4) (dstatus d))\<rparr>) w)
      else if ip = 0x0a then
        DMA_run call (upd_cont k (\<lambda>d. d\<lparr>dmask :=
          (if data AND 4 \<noteq> 0 then dma_set ichan (dmask d) else dma_clear ichan (dmask d))\<rparr>) w)
      else if ip = 0x0b then
        (if ichan < length (dregs d) then Some (upd_cont k (\<lambda>d. upd_reg d ichan (\<lambda>r. r\<lparr>dmode := ucast data\<rparr>)) w) else None)
      else if ip = 0x0c then Some (upd_cont k (\<lambda>d. d\<lparr>flip_flop := 0\<rparr>) w)
      else if ip = 0x0d then
        Some (upd_cont k (\<lambda>d. d\<lparr>flip_flop := 0, dmask := NOT 0, dstatus := 0, dcommand := 0\<rparr>) w)
      else if ip = 0x0e then DMA_run call (upd_cont k (\<lambda>d. d\<lparr>dmask := 0\<rparr>) w)
      else if ip = 0x0f then DMA_run call (upd_cont k (\<lambda>d. d\<lparr>dmask := ucast data\<rparr>) w)
      else Some w)"

definition read_cont :: "'h dma_cont \<Rightarrow> u32 \<Rightarrow> u32 \<times> 'h dma_cont" where
  "read_cont d nport =
     (let ip = iport d nport in
      if ip = 0x08 then (ucast (dstatus d), d\<lparr>dstatus := dstatus d AND 0xf0\<rparr>)
      else if ip = 0x0f then (ucast (dmask d), d)
      else (0, d))"

section \<open>The interface of the devices\<close>

definition ncont_of :: "nat \<Rightarrow> nat" where "ncont_of nchan = (if nchan > 3 then 1 else 0)"

definition dma_chan :: "('h, 'e) dma_world \<Rightarrow> nat \<Rightarrow> 'h dma_regs" where
  "dma_chan w nchan = dregs (dma_controllers w ! ncont_of nchan) ! (nchan mod 4)"

definition DMA_get_channel_mode :: "('h, 'e) dma_world \<Rightarrow> nat \<Rightarrow> int" where
  "DMA_get_channel_mode w nchan = uint (dmode (dma_chan w nchan))"

definition DMA_hold_DREQ :: "('h, 'e) call \<Rightarrow> nat \<Rightarrow> ('h, 'e) dma_world \<Rightarrow> ('h, 'e) dma_world option" where
  "DMA_hold_DREQ call nchan w =
     DMA_run call (upd_cont (ncont_of nchan) (\<lambda>d. d\<lparr>dstatus := dma_set (nchan mod 4 + 4) (dstatus d)\<rparr>) w)"

definition DMA_release_DREQ :: "('h, 'e) call \<Rightarrow> nat \<Rightarrow> ('h, 'e) dma_world \<Rightarrow> ('h, 'e) dma_world option" where
  "DMA_release_DREQ call nchan w =
     DMA_run call (upd_cont (ncont_of nchan) (\<lambda>d. d\<lparr>dstatus := dma_clear (nchan mod 4 + 4) (dstatus d)\<rparr>) w)"

definition DMA_register_channel :: "nat \<Rightarrow> 'h \<Rightarrow> ('h, 'e) dma_world \<Rightarrow> ('h, 'e) dma_world" where
  "DMA_register_channel nchan h w =
     upd_cont (ncont_of nchan) (\<lambda>d. upd_reg d (nchan mod 4) (\<lambda>r. r\<lparr>transfer_handler := Handler h\<rparr>)) w"

definition dma_addr :: "'h dma_regs \<Rightarrow> u64" where
  "dma_addr r = word_of_int (push_bit 24 (uint (dpageh r AND 0x7f)) OR push_bit 16 (uint (dpage r)) OR dnow r ! ADDR)"

text \<open>The loops that are to reverse a buffer, in place.\<close>

definition reverse_step :: "nat \<Rightarrow> u8 list \<Rightarrow> nat \<Rightarrow> u8 list" where
  "reverse_step len p i = p[i := p ! (len - i - 1)]"

definition DMA_read_memory :: "(u64 \<Rightarrow> nat \<Rightarrow> 'e \<Rightarrow> u8 list) \<Rightarrow> ('h, 'e) dma_world \<Rightarrow> nat \<Rightarrow> int \<Rightarrow> nat \<Rightarrow> u8 list" where
  "DMA_read_memory phys_read w nchan pos len =
     (let r = dma_chan w nchan; addr = dma_addr r in
      if dmode r AND 0x20 \<noteq> 0
      then foldl (reverse_step len) (phys_read (addr - word_of_int pos - of_nat len) len (dma_env w)) [0..<len div 2]
      else phys_read (addr + word_of_int pos) len (dma_env w))"

text \<open>The buffer after the call, and the world.\<close>

definition DMA_write_memory ::
  "(u64 \<Rightarrow> u8 list \<Rightarrow> 'e \<Rightarrow> 'e) \<Rightarrow> ('h, 'e) dma_world \<Rightarrow> nat \<Rightarrow> u8 list \<Rightarrow> int \<Rightarrow> u8 list \<times> ('h, 'e) dma_world" where
  "DMA_write_memory phys_write w nchan buf pos =
     (let r = dma_chan w nchan; addr = dma_addr r; len = length buf in
      if dmode r AND 0x20 \<noteq> 0
      then (let w = w\<lparr>dma_env := phys_write (addr - word_of_int pos - of_nat len) buf (dma_env w)\<rparr>
            in (foldl (reverse_step len) buf [0..<len], w))
      else (buf, w\<lparr>dma_env := phys_write (addr + word_of_int pos) buf (dma_env w)\<rparr>))"

definition DMA_schedule :: "nat \<Rightarrow> ('h, 'e) dma_world \<Rightarrow> ('h, 'e) dma_world" where
  "DMA_schedule nchan w =
     upd_cont (ncont_of nchan) (\<lambda>d. d\<lparr>cpu_request_exit := lower_line (raise_line (cpu_request_exit d))\<rparr>) w"

definition dma_reset :: "('h, 'e) call \<Rightarrow> nat \<Rightarrow> ('h, 'e) dma_world \<Rightarrow> ('h, 'e) dma_world option" where
  "dma_reset call k w = write_cont call k (push_bit (dshift (dma_controllers w ! k)) 0x0d) 0 w"

section \<open>Initialisation\<close>

datatype dma_port = Chan | Page | PageH | Cont

text \<open>The ports \<open>dma_init2\<close> registers, in its order (each for writing and for reading).\<close>

definition dma_ports :: "nat \<Rightarrow> nat \<Rightarrow> nat \<Rightarrow> nat option \<Rightarrow> (nat \<times> dma_port) list" where
  "dma_ports base shift page_base pageh_base =
     map (\<lambda>i. (base + push_bit shift i, Chan)) [0..<8] @
     concat (map (\<lambda>p. (page_base + p, Page) # (case pageh_base of None \<Rightarrow> [] | Some b \<Rightarrow> [(b + p, PageH)])) [1, 2, 3, 7]) @
     map (\<lambda>i. (base + push_bit shift (i + 8), Cont)) [0..<8]"

definition dma_init2 :: "('h, 'e) call \<Rightarrow> nat \<Rightarrow> nat \<Rightarrow> ('h, 'e) dma_world \<Rightarrow> ('h, 'e) dma_world option" where
  "dma_init2 call k shift w =
     map_option (upd_cont k (\<lambda>d. d\<lparr>dregs := map (\<lambda>r. r\<lparr>transfer_handler := Phony\<rparr>) (dregs d)\<rparr>))
       (dma_reset call k (upd_cont k (\<lambda>d. d\<lparr>dshift := shift\<rparr>) w))"

definition dma_regs_zero :: "'h dma_regs" where
  "dma_regs_zero = \<lparr>dnow = [0, 0], dbase = [0, 0], dmode = 0, dpage = 0, dpageh = 0, dack = 0, eop = 0,
     transfer_handler = NoHandler\<rparr>"

definition dma_world_zero :: "'e \<Rightarrow> ('h, 'e) dma_world" where
  "dma_world_zero e = \<lparr>dma_controllers = replicate 2 \<lparr>dstatus = 0, dcommand = 0, dmask = 0, flip_flop = 0, dshift = 0,
     dregs = replicate 4 dma_regs_zero, cpu_request_exit = []\<rparr>, dma_bh = False, dma_env = e\<rparr>"

definition DMA_init :: "('h, 'e) call \<Rightarrow> 'e \<Rightarrow> ('h, 'e) dma_world option" where
  "DMA_init call e =
     (case dma_init2 call 0 0 (dma_world_zero e) of None \<Rightarrow> None | Some w \<Rightarrow> dma_init2 call 1 1 w)"

definition dma_post_load :: "('h, 'e) call \<Rightarrow> ('h, 'e) dma_world \<Rightarrow> ('h, 'e) dma_world option" where
  "dma_post_load call w = DMA_run call w"

section \<open>The ports of both controllers\<close>

definition dma_ports_of :: "bool \<Rightarrow> nat \<Rightarrow> (nat \<times> dma_port) list" where
  "dma_ports_of high_page_enable k =
     (if k = 0 then dma_ports 0 0 0x80 (if high_page_enable then Some 0x480 else None)
      else dma_ports 0xc0 1 0x88 (if high_page_enable then Some 0x488 else None))"

text \<open>
  What can happen to the controllers: an access of the guest to a registered port, a device that
  holds or releases its request line or registers its channel, the bottom half, the reset. A port
  access whose register index would leave the arrays of the structure is an error, as is a call
  through a handler that is not set.
\<close>

datatype 'h dma_ev =
  DmaRead nat nat | DmaWrite nat nat u32 | Hold nat | Release nat | Register nat 'h | Schedule nat | Bh | Reset bool

definition dma_in_bounds :: "'h dma_cont \<Rightarrow> dma_port \<Rightarrow> u32 \<Rightarrow> bool" where
  "dma_in_bounds d kind p =
     (case kind of
        Chan \<Rightarrow> unat (drop_bit 1 (iport d p)) < length (dregs d) \<and>
                unat (iport d p AND 1) < length (dbase (dregs d ! unat (drop_bit 1 (iport d p))))
      | Cont \<Rightarrow> True
      | _ \<Rightarrow> page_channels ! unat (p AND 7) \<in> int ` {0..<length (dregs d)})"

definition dma_port_write :: "('h, 'e) call \<Rightarrow> nat \<Rightarrow> dma_port \<Rightarrow> u32 \<Rightarrow> u32 \<Rightarrow> ('h, 'e) dma_world \<Rightarrow> ('h, 'e) dma_world option" where
  "dma_port_write call k kind p v w =
     (if \<not> dma_in_bounds (dma_controllers w ! k) kind p then None
      else case kind of
        Chan \<Rightarrow> Some (upd_cont k (\<lambda>d. write_chan d p v) w)
      | Page \<Rightarrow> Some (upd_cont k (\<lambda>d. write_page d p v) w)
      | PageH \<Rightarrow> Some (upd_cont k (\<lambda>d. write_pageh d p v) w)
      | Cont \<Rightarrow> write_cont call k p v w)"

definition dma_port_read :: "nat \<Rightarrow> dma_port \<Rightarrow> u32 \<Rightarrow> ('h, 'e) dma_world \<Rightarrow> (u32 \<times> ('h, 'e) dma_world) option" where
  "dma_port_read k kind p w =
     (let d = dma_controllers w ! k in
      if \<not> dma_in_bounds d kind p then None
      else Some (case kind of
        Chan \<Rightarrow> (case read_chan d p of (v, d) \<Rightarrow> (v, upd_cont k (\<lambda>_. d) w))
      | Page \<Rightarrow> (read_page d p, w)
      | PageH \<Rightarrow> (read_pageh d p, w)
      | Cont \<Rightarrow> (case read_cont d p of (v, d) \<Rightarrow> (v, upd_cont k (\<lambda>_. d) w))))"

fun dma_event :: "('h, 'e) call \<Rightarrow> bool \<Rightarrow> ('h, 'e) dma_world \<Rightarrow> 'h dma_ev \<Rightarrow> ('h, 'e) dma_world option" where
  "dma_event call hpe w (DmaRead k p) =
     (case map_of (dma_ports_of hpe (k mod 2)) p of None \<Rightarrow> Some w
      | Some kind \<Rightarrow> map_option snd (dma_port_read (k mod 2) kind (of_nat p) w))"
| "dma_event call hpe w (DmaWrite k p v) =
     (case map_of (dma_ports_of hpe (k mod 2)) p of None \<Rightarrow> Some w
      | Some kind \<Rightarrow> dma_port_write call (k mod 2) kind (of_nat p) v w)"
| "dma_event call hpe w (Hold n) = DMA_hold_DREQ call n w"
| "dma_event call hpe w (Release n) = DMA_release_DREQ call n w"
| "dma_event call hpe w (Register n h) = Some (DMA_register_channel n h w)"
| "dma_event call hpe w (Schedule n) = Some (DMA_schedule n w)"
| "dma_event call hpe w Bh = DMA_run_bh call w"
| "dma_event call hpe w (Reset k) = dma_reset call (if k then 1 else 0) w"

definition dma_step :: "('h, 'e) call \<Rightarrow> bool \<Rightarrow> ('h, 'e) dma_world \<Rightarrow> 'h dma_ev \<Rightarrow> unit + ('h, 'e) dma_world" where
  "dma_step call hpe w e = (case dma_event call hpe w e of None \<Rightarrow> Inl () | Some w \<Rightarrow> Inr w)"

section \<open>Well-formed controllers\<close>

definition reg_ok :: "'h dma_regs \<Rightarrow> bool" where
  "reg_ok r \<longleftrightarrow> length (dnow r) = 2 \<and> length (dbase r) = 2 \<and> transfer_handler r \<noteq> NoHandler"

definition cont_ok :: "nat \<Rightarrow> 'h dma_cont \<Rightarrow> bool" where
  "cont_ok k d \<longleftrightarrow> dshift d = k \<and> flip_flop d \<le> 1 \<and> length (dregs d) = 4 \<and> (\<forall>i<4. reg_ok (dregs d ! i))"

definition dma_ok :: "('h, 'e) dma_world \<Rightarrow> bool" where
  "dma_ok w \<longleftrightarrow> length (dma_controllers w) = 2 \<and> (\<forall>k<2. cont_ok k (dma_controllers w ! k))"

lemma cont_ok_upd_reg:
  "cont_ok k d \<Longrightarrow> (\<And>r. reg_ok r \<Longrightarrow> reg_ok (f r)) \<Longrightarrow> cont_ok k (upd_reg d i f)"
  by (cases "i < 4") (auto simp: cont_ok_def upd_reg_def nth_list_update)

lemma dma_ok_upd_cont: "dma_ok w \<Longrightarrow> (\<And>k d. cont_ok k d \<Longrightarrow> cont_ok k (f d)) \<Longrightarrow> dma_ok (upd_cont k f w)"
  by (cases "k < 2") (auto simp: dma_ok_def upd_cont_def nth_list_update)

lemma dma_ok_bh [simp]: "dma_ok (w\<lparr>dma_bh := b\<rparr>) = dma_ok w"
  by (simp add: dma_ok_def)

lemma dma_okD: "dma_ok w \<Longrightarrow> k < 2 \<Longrightarrow> i < 4 \<Longrightarrow> reg_ok (dregs (dma_controllers w ! k) ! i)"
  by (simp add: dma_ok_def cont_ok_def)

lemma channel_run_ok:
  assumes "\<And>h n p l w. dma_ok w \<Longrightarrow> dma_ok (snd (call h n p l w))" "dma_ok w" "k < 2" "i < 4"
  shows "\<exists>w'. channel_run call k i w = Some w' \<and> dma_ok w'"
proof -
  have r: "reg_ok (dregs (dma_controllers w ! k) ! i)" using assms(2-4) by (rule dma_okD)
  have u: "dma_ok w \<Longrightarrow> dma_ok (upd_cont k (\<lambda>d. upd_reg d i (\<lambda>r. r\<lparr>dnow := (dnow r)[COUNT := n]\<rparr>)) w)" for n and w :: "('a, 'b) dma_world"
    by (intro dma_ok_upd_cont cont_ok_upd_reg) (simp_all add: reg_ok_def)
  have h: "\<exists>n w'. run_handler call hn c p l w = Some (n, w') \<and> dma_ok w'" if "hn \<noteq> NoHandler" for hn c p l
  proof (cases hn)
    case (Handler h)
    then show ?thesis using assms(1) [OF assms(2), of h c p l] by (cases "call h c p l w") (simp add: run_handler_def)
  qed (use that assms(2) in \<open>simp_all add: run_handler_def\<close>)
  let ?r = "dregs (dma_controllers w ! k) ! i"
  have "transfer_handler ?r \<noteq> NoHandler" using r by (simp add: reg_ok_def)
  from h [OF this] obtain n w' where "run_handler call (transfer_handler ?r) (i + push_bit 2 k) (dnow ?r ! COUNT)
      (push_bit k (uint (dbase ?r ! COUNT) + 1)) w = Some (n, w')" "dma_ok w'" by blast
  then show ?thesis unfolding channel_run_def Let_def using u by simp
qed

lemma dma_visit_ok:
  assumes "\<And>h n p l w. dma_ok w \<Longrightarrow> dma_ok (snd (call h n p l w))" "\<And>k i. (k, i) \<in> set cs \<Longrightarrow> k < 2 \<and> i < 4" "dma_ok w"
  shows "\<exists>w' b'. foldl (dma_visit call) (Some (w, b)) cs = Some (w', b') \<and> dma_ok w'"
  using assms(2,3)
proof (induction cs arbitrary: w b)
  case (Cons ki cs)
  obtain k i where ki: "ki = (k, i)" "k < 2" "i < 4" using Cons.prems(1) by (cases ki) auto
  show ?case
  proof (cases "dma_requested (dma_controllers w ! k) i")
    case True
    from channel_run_ok [where call = call, OF assms(1) Cons.prems(2) ki(2,3)] obtain w1 where
      "channel_run call k i w = Some w1" "dma_ok w1" by auto
    moreover from this have "dma_visit call (Some (w, b)) ki = Some (w1, True)" using True ki(1) by (simp add: dma_visit_def)
    moreover have "\<exists>w' b'. foldl (dma_visit call) (Some (w1, True)) cs = Some (w', b') \<and> dma_ok w'"
      using Cons.prems(1) \<open>dma_ok w1\<close> by (intro Cons.IH) auto
    ultimately show ?thesis by simp
  next
    case False
    then have "dma_visit call (Some (w, b)) ki = Some (w, b)" using ki(1) by (simp add: dma_visit_def)
    moreover have "\<exists>w' b'. foldl (dma_visit call) (Some (w, b)) cs = Some (w', b') \<and> dma_ok w'"
      using Cons.prems by (intro Cons.IH) auto
    ultimately show ?thesis by simp
  qed
qed simp

lemma DMA_run_ok:
  assumes "\<And>h n p l w. dma_ok w \<Longrightarrow> dma_ok (snd (call h n p l w))" "dma_ok w"
  shows "\<exists>w'. DMA_run call w = Some w' \<and> dma_ok w'"
proof -
  have "\<And>k i. (k, i) \<in> set dma_channels \<Longrightarrow> k < 2 \<and> i < 4" by (auto simp: dma_channels_def)
  then obtain w' b' where "foldl (dma_visit call) (Some (w, False)) dma_channels = Some (w', b')" "dma_ok w'"
    using dma_visit_ok [where call = call, OF assms(1) _ assms(2)] by blast
  then show ?thesis unfolding DMA_run_def by simp
qed

section \<open>Programming a channel\<close>

lemma dshift_upd [simp]: "dshift (upd_reg d i f) = dshift d" "dshift (init_chan d i) = dshift d" "dshift (snd (getff d)) = dshift d"
  by (simp_all add: upd_reg_def init_chan_def getff_def Let_def)

lemma iport_cong: "dshift d = dshift d' \<Longrightarrow> iport d p = iport d' p"
  by (simp add: iport_def)

lemma base_lo: "(b AND 0xff00) OR ucast (ucast lo AND 0xff :: u32) = (b AND 0xff00) OR (ucast lo :: u16)" for lo :: u8 and b :: u16
proof -
  have "ucast (ucast lo AND 0xff :: u32) = (ucast lo :: u16)"
    unfolding word_and_255 by (rule bit_word_eqI) (auto simp: bit_simps dest: bit_imp_le_length)
  then show ?thesis by simp
qed

lemma base_bytes:
  "(((b AND 0xff00) OR ucast lo) AND 0xff) OR ucast (push_bit 8 (ucast hi) AND 0xff00 :: u32) = (ucast lo OR push_bit 8 (ucast hi) :: u16)"
  for lo hi :: u8 and b :: u16
proof -
  have m: "(0xff00 :: 'a::len word) = push_bit 8 (mask 8)" by (simp add: mask_eq_exp_minus_1)
  have l: "(0xff :: u16) = mask 8" by (simp add: mask_eq_exp_minus_1)
  show ?thesis unfolding m l by (rule bit_word_eqI) (auto simp: bit_simps dest: bit_imp_le_length)
qed

lemma unat_u16_bytes: "unat (ucast lo OR push_bit 8 (ucast hi) :: u16) = unat lo + 256 * unat hi" for lo hi :: u8
proof -
  have "unat (ucast lo OR push_bit 8 (ucast hi) :: u32) = unat lo + 256 * unat hi" by (rule unat_bytes)
  moreover have "(ucast lo OR push_bit 8 (ucast hi) :: u16) = ucast (ucast lo OR push_bit 8 (ucast hi) :: u32)"
    by (rule bit_word_eqI) (auto simp: bit_simps dest: bit_imp_le_length)
  moreover have "unat lo + 256 * unat hi < 2 ^ 16" using unat_byte [of lo] unat_byte [of hi] by simp
  ultimately show ?thesis by (simp add: unsigned_ucast_eq take_bit_nat_eq_self)
qed

lemma bytes_div_mod: "l < 256 \<Longrightarrow> int (l + 256 * h) div 256 = int h \<and> int (l + 256 * h) mod 256 = int l"
  by simp

lemma read_bytes:
  fixes lo hi :: u8
  shows "drop_bit s (push_bit s (int (unat lo + 256 * unat hi))) AND 0xff = uint lo"
    "drop_bit (s + 8) (push_bit s (int (unat lo + 256 * unat hi))) AND 0xff = uint hi"
proof -
  have b: "unat lo < 256" "unat hi < 256" using unat_byte [of lo] unat_byte [of hi] by simp_all
  have m: "x AND 0xff = x mod 256" for x :: int
    using take_bit_eq_mask [of 8 x] by (simp add: mask_eq_exp_minus_1 take_bit_eq_mod)
  have d: "drop_bit s (push_bit s x) = x" for x :: int by (simp add: drop_bit_eq_div push_bit_eq_mult)
  have "drop_bit (s + 8) (push_bit s x) = x div 256" for x :: int
  proof -
    have "drop_bit (s + 8) (push_bit s x) = drop_bit 8 (drop_bit s (push_bit s x))"
      by (simp only: drop_bit_drop_bit add.commute [of 8 s])
    then have "drop_bit (s + 8) (push_bit s x) = drop_bit 8 x" unfolding d .
    then show ?thesis by (simp add: drop_bit_eq_div [of 8])
  qed
  moreover have "int (unat lo + 256 * unat hi) div 256 = int (unat hi)" "int (unat lo + 256 * unat hi) mod 256 = int (unat lo)"
    using bytes_div_mod [OF b(1)] by blast+
  moreover have "int (unat hi) mod 256 = int (unat hi)" using b(2) by (intro mod_pos_pos_trivial) linarith+
  ultimately show "drop_bit s (push_bit s (int (unat lo + 256 * unat hi))) AND 0xff = uint lo"
    "drop_bit (s + 8) (push_bit s (int (unat lo + 256 * unat hi))) AND 0xff = uint hi"
    unfolding m d uint_nat by simp_all
qed

lemma cont_regs: "cont_ok k d \<Longrightarrow> i < 4 \<Longrightarrow> length (dregs d) = 4 \<and> length (dbase (dregs d ! i)) = 2 \<and> length (dnow (dregs d ! i)) = 2"
  by (simp add: cont_ok_def reg_ok_def)

text \<open>Two writes with the flip-flop clear load the base register and restart the channel.\<close>

lemma write_chan_twice:
  fixes lo hi :: u8
  assumes "cont_ok k d" "flip_flop d = 0" "i < 4" "n < 2"
    and "unat (drop_bit 1 (iport d p)) = i" "unat (iport d p AND 1) = n"
    and "b = (dbase (dregs d ! i))[n := ucast lo OR push_bit 8 (ucast hi)]"
  shows "write_chan (write_chan d p (ucast lo)) p (ucast hi) = upd_reg d i (\<lambda>r.
    r\<lparr>dbase := b, dnow := (dnow r)[ADDR := push_bit k (uint (b ! ADDR)), COUNT := 0]\<rparr>)"
proof -
  let ?r = "dregs d ! i"
  let ?lo = "(dbase ?r ! n AND 0xff00) OR (ucast lo :: u16)"
  let ?d1 = "upd_reg (d\<lparr>flip_flop := 1\<rparr>) i (\<lambda>r. r\<lparr>dbase := (dbase r)[n := ?lo]\<rparr>)"
  note l = cont_regs [OF assms(1,3)]
  have k: "dshift d = k" using assms(1) by (simp add: cont_ok_def)
  have w1: "write_chan d p (ucast lo) = ?d1"
    unfolding write_chan_def Let_def assms(5,6) getff_def by (simp add: assms(2) base_lo upd_reg_def)
  have ip: "iport ?d1 p = iport d p" by (rule iport_cong) (simp add: upd_reg_def)
  have "write_chan ?d1 p (ucast hi) = upd_reg d i (\<lambda>r.
      r\<lparr>dbase := b, dnow := (dnow r)[ADDR := push_bit k (uint (b ! ADDR)), COUNT := 0]\<rparr>)"
    unfolding write_chan_def Let_def ip assms(5,6) getff_def
    using l assms(2-4) k by (simp add: upd_reg_def init_chan_def assms(7) base_bytes)
  then show ?thesis by (simp only: w1)
qed

text \<open>
  C38: a programmed channel register reads back. With the flip-flop clear, writing the low and then
  the high byte of the address or the count of any channel, of the 8-bit or of the 16-bit
  controller, and reading the same port twice returns the two bytes in order, and leaves the
  flip-flop clear.
\<close>

theorem dma_program_roundtrip:
  fixes lo hi :: u8
  assumes "cont_ok k d" "flip_flop d = 0" "i < 4" "n < 2"
    and "unat (drop_bit 1 (iport d p)) = i" "unat (iport d p AND 1) = n"
    and "d1 = write_chan (write_chan d p (ucast lo)) p (ucast hi)"
  shows "\<exists>d2. read_chan d1 p = (ucast lo, d2) \<and> read_chan d2 p = (ucast hi, d1) \<and> flip_flop d1 = 0"
proof -
  define b where "b = (dbase (dregs d ! i))[n := ucast lo OR push_bit 8 (ucast hi)]"
  have d1: "d1 = upd_reg d i (\<lambda>r. r\<lparr>dbase := b, dnow := (dnow r)[ADDR := push_bit k (uint (b ! ADDR)), COUNT := 0]\<rparr>)"
    unfolding assms(7) using assms(1-6) b_def by (rule write_chan_twice)
  note l = cont_regs [OF assms(1,3)]
  have k: "dshift d = k" using assms(1) by (simp add: cont_ok_def)
  have n: "n = 0 \<or> n = 1" using assms(4) by linarith
  define r where "r = dregs d1 ! i"
  have r: "dbase r = b" "dnow r ! ADDR = push_bit k (uint (b ! ADDR))" "dnow r ! COUNT = 0"
    using l assms(3) by (simp_all add: r_def d1 upd_reg_def ADDR_def COUNT_def)
  define X where "X = int (unat lo + 256 * unat hi)"
  have bn: "uint (b ! n) = X"
    using l assms(4) by (simp add: b_def X_def uint_nat unat_u16_bytes del: int_eq_iff of_nat_add)
  have v: "n \<noteq> 0 \<Longrightarrow> uint (b ! COUNT) = X" "n = 0 \<Longrightarrow> uint (b ! ADDR) = X"
    using n bn by (auto simp: ADDR_def COUNT_def)
  note x = read_bytes [of k lo hi, folded X_def]
  have c: "dshift d1 = k" "iport d1 p = iport d p" "flip_flop d1 = 0"
    using k assms(2) by (simp_all add: d1 upd_reg_def iport_def)
  let ?d2 = "d1\<lparr>flip_flop := 1\<rparr>"
  have r1: "read_chan d1 p = (word_of_int (uint lo), ?d2)"
    unfolding read_chan_def Let_def c(2) assms(5,6) r_def [symmetric] getff_def r
    by (cases "n = 0") (simp_all add: c v x)
  have c2: "dshift ?d2 = k" "iport ?d2 p = iport d p" "dregs ?d2 = dregs d1" "?d2\<lparr>flip_flop := 0\<rparr> = d1"
    using c by (simp_all add: iport_def)
  have r2: "read_chan ?d2 p = (word_of_int (uint hi), d1)"
    unfolding read_chan_def Let_def c2(2,3) assms(5,6) r_def [symmetric] getff_def r
    using c2(1,4) by (cases "n = 0") (simp_all add: v x)
  show ?thesis using r1 r2 c(3) by (simp add: word_of_int_uint)
qed


section \<open>Reversed transfers\<close>

lemma reverse_steps:
  "length p = len \<Longrightarrow> j \<le> len div 2 \<Longrightarrow>
   foldl (reverse_step len) p [0..<j] = map (\<lambda>i. if i < j then p ! (len - i - 1) else p ! i) [0..<len]"
proof (induction j)
  case 0
  then show ?case by (auto simp: map_nth)
next
  case (Suc j)
  let ?q = "map (\<lambda>i. if i < j then p ! (len - i - 1) else p ! i) [0..<len]"
  have "foldl (reverse_step len) p [0..<Suc j] = reverse_step len ?q j" using Suc by simp
  also have "\<dots> = map (\<lambda>i. if i < Suc j then p ! (len - i - 1) else p ! i) [0..<len]"
    using Suc.prems by (intro nth_equalityI) (auto simp: reverse_step_def nth_list_update less_Suc_eq)
  finally show ?case .
qed

section \<open>Every event is safe\<close>

text \<open>The registers a port selects, computed from the number of the port.\<close>

definition port_selects :: "nat \<Rightarrow> nat \<times> dma_port \<Rightarrow> bool" where
  "port_selects k q =
     (case q of (p, kind) \<Rightarrow> (case kind of
        Chan \<Rightarrow> unat (drop_bit 1 (drop_bit k (of_nat p :: u32) AND 0x0f)) < 4
      | Cont \<Rightarrow> True
      | _ \<Rightarrow> 0 \<le> page_channels ! unat (of_nat p AND 7 :: u32) \<and> page_channels ! unat (of_nat p AND 7 :: u32) < 4))"

lemma ports_select: "list_all (port_selects k) (dma_ports_of hpe k)" if "k < 2"
proof -
  have "list_all (port_selects 0) (dma_ports_of True 0)" "list_all (port_selects 1) (dma_ports_of True 1)"
    "list_all (port_selects 0) (dma_ports_of False 0)" "list_all (port_selects 1) (dma_ports_of False 1)"
    by code_simp+
  moreover have "k = 0 \<or> k = 1" using that by linarith
  ultimately show ?thesis by (cases hpe) auto
qed

lemma port_in_bounds:
  assumes "map_of (dma_ports_of hpe k) p = Some kind" "k < 2" "cont_ok k d"
  shows "dma_in_bounds d kind (of_nat p)"
proof -
  have "port_selects k (p, kind)"
    using ports_select [OF assms(2)] map_of_SomeD [OF assms(1)] by (auto simp: list_all_iff)
  moreover have "unat (x AND 1 :: u32) < 2" for x :: u32
    by (cases "even x") (simp_all add: and_one_eq odd_iff_mod_2_eq_one even_iff_mod_2_eq_zero)
  ultimately show ?thesis using assms(3)
    by (cases kind) (auto simp: dma_in_bounds_def port_selects_def cont_ok_def iport_def reg_ok_def image_iff
        intro!: bexI [of _ "nat (page_channels ! unat (of_nat p AND 7 :: u32))"])
qed

lemma cont_ok_ff: "cont_ok k d \<Longrightarrow> cont_ok k (snd (getff d))"
  by (simp add: cont_ok_def getff_def Let_def)

lemma cont_ok_init_chan: "cont_ok k d \<Longrightarrow> cont_ok k (init_chan d i)"
  unfolding init_chan_def by (rule cont_ok_upd_reg) (simp_all add: reg_ok_def)

lemma cont_ok_ports:
  assumes "cont_ok k d"
  shows "cont_ok k (write_page d p v)" "cont_ok k (write_pageh d p v)" "cont_ok k (write_chan d p v)"
    "cont_ok k (snd (read_chan d p))" "cont_ok k (snd (read_cont d p))"
proof -
  have u: "cont_ok k d \<Longrightarrow> cont_ok k (upd_reg d i (\<lambda>r. r\<lparr>dbase := (dbase r)[n := f r]\<rparr>))" for d :: "'a dma_cont" and i n f
    by (rule cont_ok_upd_reg) (simp_all add: reg_ok_def)
  show "cont_ok k (write_page d p v)" "cont_ok k (write_pageh d p v)"
    using assms by (auto simp: write_page_def write_pageh_def Let_def reg_ok_def intro!: cont_ok_upd_reg)
  show "cont_ok k (write_chan d p v)"
    using cont_ok_ff [OF assms] by (auto simp: write_chan_def Let_def split_beta intro!: u cont_ok_init_chan)
  show "cont_ok k (snd (read_chan d p))"
    using cont_ok_ff [OF assms] by (simp add: read_chan_def Let_def split_beta)
  show "cont_ok k (snd (read_cont d p))"
    using assms by (simp add: read_cont_def Let_def cont_ok_def)
qed


lemma write_cont_ok:
  assumes "\<And>h n p l w. dma_ok w \<Longrightarrow> dma_ok (snd (call h n p l w))" "dma_ok w" "k < 2"
  shows "\<exists>w'. write_cont call k p v w = Some w' \<and> dma_ok w'"
proof -
  have r: "dma_ok w' \<Longrightarrow> \<exists>w''. DMA_run call w' = Some w'' \<and> dma_ok w''" for w'
    using DMA_run_ok [where call = call and w = w'] assms(1) by blast
  have u: "dma_ok (upd_cont k f w)" if "\<And>k d. cont_ok k d \<Longrightarrow> cont_ok k (f d)" for f
    using dma_ok_upd_cont [OF assms(2)] that by blast
  have m: "cont_ok k' d \<Longrightarrow> cont_ok k' (upd_reg d i (\<lambda>r. r\<lparr>dmode := m\<rparr>))" for k' i m and d :: "'a dma_cont"
    by (rule cont_ok_upd_reg) (simp_all add: reg_ok_def)
  have l4: "length (dregs (dma_controllers w ! k)) = 4" using assms(2,3) by (simp add: dma_ok_def cont_ok_def)
  then have ne: "dregs (dma_controllers w ! k) \<noteq> []" by auto
  have "unat (v AND 3) < 4" using and_mask_less' [of 2 v] by (simp add: mask_numeral word_less_nat_alt)
  with l4 have l: "unat (v AND 3) < length (dregs (dma_controllers w ! k))" by simp
  note s = r [OF u] u
  show ?thesis
    unfolding write_cont_def Let_def
    by (auto simp: assms(2) l ne intro!: s m) (simp_all add: cont_ok_def)
qed

lemma dma_event_ok:
  assumes "\<And>h n p l w. dma_ok w \<Longrightarrow> dma_ok (snd (call h n p l w))" "dma_ok w"
  shows "\<exists>w'. dma_event call hpe w e = Some w' \<and> dma_ok w'"
proof -
  have r: "dma_ok w' \<Longrightarrow> \<exists>w''. DMA_run call w' = Some w'' \<and> dma_ok w''" for w'
    using DMA_run_ok [where call = call and w = w'] assms(1) by blast
  have u: "dma_ok (upd_cont k f w)" if "\<And>k d. cont_ok k d \<Longrightarrow> cont_ok k (f d)" for k f
    using dma_ok_upd_cont [OF assms(2)] that by blast
  have c: "cont_ok (k mod 2) (dma_controllers w ! (k mod 2))" for k :: nat
    using assms(2) by (simp add: dma_ok_def)
  have v: "dma_ok (upd_cont k (\<lambda>_. d) w)" if "cont_ok k d" for k d
    using assms(2) that by (cases "k < 2") (auto simp: dma_ok_def upd_cont_def nth_list_update)
  have wc: "k < 2 \<Longrightarrow> \<exists>w'. write_cont call k p x w = Some w' \<and> dma_ok w'" for k p x
    using write_cont_ok [where call = call, OF assms(1) assms(2)] by blast
  show ?thesis
  proof (cases e)
    case (DmaRead k p)
    show ?thesis
    proof (cases "map_of (dma_ports_of hpe (k mod 2)) p")
      case (Some kind)
      then have "dma_in_bounds (dma_controllers w ! (k mod 2)) kind (of_nat p)" using port_in_bounds [OF Some _ c] by simp
      then show ?thesis using Some DmaRead assms(2) v cont_ok_ports(4,5) [OF c]
        by (cases kind) (simp_all add: dma_port_read_def Let_def split_beta)
    qed (simp add: DmaRead assms(2))
  next
    case (DmaWrite k p x)
    show ?thesis
    proof (cases "map_of (dma_ports_of hpe (k mod 2)) p")
      case (Some kind)
      then have "dma_in_bounds (dma_controllers w ! (k mod 2)) kind (of_nat p)" using port_in_bounds [OF Some _ c] by simp
      then show ?thesis using Some DmaWrite wc
        by (cases kind) (simp_all add: dma_port_write_def u cont_ok_ports(1-3))
    qed (simp add: DmaWrite assms(2))
  next
    case (Register n h)
    have "cont_ok k d \<Longrightarrow> cont_ok k (upd_reg d i (\<lambda>r. r\<lparr>transfer_handler := Handler h\<rparr>))" for k i and d :: "'a dma_cont"
      by (rule cont_ok_upd_reg) (simp_all add: reg_ok_def)
    then show ?thesis using Register u by (simp add: DMA_register_channel_def)
  next
    case (Schedule n)
    then show ?thesis using u by (simp add: DMA_schedule_def cont_ok_def)
  qed (use r u assms(2) wc in \<open>auto simp: DMA_hold_DREQ_def DMA_release_DREQ_def DMA_run_bh_def dma_reset_def cont_ok_def\<close>)
qed


lemma dma_reset_eq:
  "dma_reset call k w = Some (upd_cont k (\<lambda>d. d\<lparr>flip_flop := 0, dmask := NOT 0, dstatus := 0, dcommand := 0\<rparr>) w)"
  if "dshift (dma_controllers w ! k) < 2"
proof -
  have "dshift (dma_controllers w ! k) = 0 \<or> dshift (dma_controllers w ! k) = 1" using that by linarith
  then have "iport (dma_controllers w ! k) (push_bit (dshift (dma_controllers w ! k)) 0x0d) = 0x0d"
    by (auto simp: iport_def)
  then show ?thesis by (simp add: dma_reset_def write_cont_def)
qed

definition cont_init :: "nat \<Rightarrow> 'h dma_cont" where
  "cont_init k = \<lparr>dstatus = 0, dcommand = 0, dmask = NOT 0, flip_flop = 0, dshift = k,
     dregs = replicate 4 (dma_regs_zero\<lparr>transfer_handler := Phony\<rparr>), cpu_request_exit = []\<rparr>"

lemma DMA_init_eq: "DMA_init call e = Some \<lparr>dma_controllers = [cont_init 0, cont_init 1], dma_bh = False, dma_env = e\<rparr>"
  by (simp add: DMA_init_def dma_init2_def dma_reset_eq dma_world_zero_def upd_cont_def cont_init_def numeral_2_eq_2)

lemma DMA_init_ok: "\<exists>w. DMA_init call e = Some w \<and> dma_ok w"
  unfolding DMA_init_eq by (auto simp: dma_ok_def cont_ok_def reg_ok_def cont_init_def dma_regs_zero_def less_2_cases_iff)


section \<open>Servicing the requests\<close>

definition dma_serve :: "('h, 'e) call \<Rightarrow> ('h, 'e) dma_world option \<Rightarrow> nat \<times> nat \<Rightarrow> ('h, 'e) dma_world option" where
  "dma_serve call s ki = (case s of None \<Rightarrow> None | Some w \<Rightarrow> channel_run call (fst ki) (snd ki) w)"

lemma serve_step [simp]: "dma_serve call (Some w) (k, i) = channel_run call k i w" "dma_serve call None ki = None"
  by (simp_all add: dma_serve_def)

lemma serve_None [simp]: "foldl (dma_serve call) None cs = None" "foldl (dma_visit call) None cs = None"
  by (induction cs) (simp_all add: dma_serve_def dma_visit_def)

text \<open>
  What a transfer handler may do to the controllers. Those of the floppy controller and the sound
  cards release request lines (\<open>DMA_release_DREQ\<close>, which runs the channels again, the handlers of the
  other devices included), and program nothing: requests only fall, the masks and commands stay, and
  all that moves are the counts of channels that were requested.
\<close>

definition reg_counted :: "'h dma_regs \<Rightarrow> 'h dma_regs \<Rightarrow> bool" where
  "reg_counted r r' \<longleftrightarrow> r' = r\<lparr>dnow := (dnow r)[COUNT := dnow r' ! COUNT]\<rparr>"

definition chan_guar :: "'h dma_cont \<Rightarrow> 'h dma_cont \<Rightarrow> nat \<Rightarrow> bool" where
  "chan_guar d d' i \<longleftrightarrow> (dma_requested d' i \<longrightarrow> dma_requested d i)
     \<and> (if dma_requested d i then reg_counted (dregs d ! i) (dregs d' ! i) else dregs d' ! i = dregs d ! i)"

definition cont_guar :: "'h dma_cont \<Rightarrow> 'h dma_cont \<Rightarrow> bool" where
  "cont_guar d d' \<longleftrightarrow> dmask d' = dmask d \<and> dcommand d' = dcommand d \<and> flip_flop d' = flip_flop d
     \<and> (\<forall>i<4. chan_guar d d' i)"

definition dma_guar :: "('h, 'e) dma_world \<Rightarrow> ('h, 'e) dma_world \<Rightarrow> bool" where
  "dma_guar w w' \<longleftrightarrow> dma_ok w' \<and> (\<forall>k<2. cont_guar (dma_controllers w ! k) (dma_controllers w' ! k))"

lemma reg_counted_refl: "reg_ok r \<Longrightarrow> reg_counted r r"
  by (simp add: reg_counted_def)

lemma reg_counted_trans: "reg_counted r r' \<Longrightarrow> reg_counted r' r'' \<Longrightarrow> reg_counted r r''"
proof -
  assume 1: "reg_counted r r'" and 2: "reg_counted r' r''"
  obtain c c' where "r' = r\<lparr>dnow := (dnow r)[COUNT := c]\<rparr>" "r'' = r'\<lparr>dnow := (dnow r')[COUNT := c']\<rparr>"
    "c' = dnow r'' ! COUNT" using 1 2 unfolding reg_counted_def by blast
  then show ?thesis unfolding reg_counted_def by simp
qed

lemma chan_guar_trans: "chan_guar d d' i \<Longrightarrow> chan_guar d' d'' i \<Longrightarrow> chan_guar d d'' i"
  using reg_counted_trans [of "dregs d ! i" "dregs d' ! i" "dregs d'' ! i"] by (auto simp: chan_guar_def split: if_splits)

lemma dma_guar_refl: "dma_ok w \<Longrightarrow> dma_guar w w"
  by (auto simp: dma_guar_def cont_guar_def chan_guar_def intro!: reg_counted_refl dma_okD)

lemma cont_guar_trans: "cont_guar d d' \<Longrightarrow> cont_guar d' d'' \<Longrightarrow> cont_guar d d''"
  using chan_guar_trans [of d d' _ d''] by (simp add: cont_guar_def)

lemma dma_guar_trans: "dma_guar w w' \<Longrightarrow> dma_guar w' w'' \<Longrightarrow> dma_guar w w''"
  unfolding dma_guar_def using cont_guar_trans by blast

lemma dma_guar_requested:
  "dma_guar w w' \<Longrightarrow> k < 2 \<Longrightarrow> i < 4 \<Longrightarrow> dma_requested (dma_controllers w' ! k) i \<Longrightarrow> dma_requested (dma_controllers w ! k) i"
  by (auto simp: dma_guar_def cont_guar_def chan_guar_def)

text \<open>Updating one controller.\<close>

lemma dma_guar_upd:
  assumes "dma_ok w" "dma_ok (upd_cont k f w)" "cont_guar (dma_controllers w ! k) (f (dma_controllers w ! k))"
  shows "dma_guar w (upd_cont k f w)"
proof -
  have "cont_guar (dma_controllers w ! j) (dma_controllers w ! j)" if "j < 2" for j
    using dma_guar_refl [OF assms(1)] that by (simp add: dma_guar_def)
  moreover have "dma_controllers (upd_cont k f w) ! j =
      (if j = k then f (dma_controllers w ! k) else dma_controllers w ! j)" if "j < 2" for j
    using assms(1) that by (auto simp: upd_cont_def dma_ok_def)
  ultimately show ?thesis using assms(2,3) by (simp add: dma_guar_def)
qed

lemma reg_counted_upd: "reg_counted r r' \<Longrightarrow> reg_ok r \<Longrightarrow> reg_counted r (r'\<lparr>dnow := (dnow r')[COUNT := n]\<rparr>)"
proof (rule reg_counted_trans)
  assume "reg_counted r r'" "reg_ok r"
  then obtain c where "r' = r\<lparr>dnow := (dnow r)[COUNT := c]\<rparr>" "length (dnow r) = 2"
    unfolding reg_counted_def reg_ok_def by blast
  then show "reg_counted r' (r'\<lparr>dnow := (dnow r')[COUNT := n]\<rparr>)" by (simp add: reg_counted_def COUNT_def)
qed

lemma counted_guar:
  assumes "dma_ok w" "dma_guar w w0" "k < 2" "i < 4" "dma_requested (dma_controllers w ! k) i"
  shows "dma_guar w (upd_cont k (\<lambda>d. upd_reg d i (\<lambda>r. r\<lparr>dnow := (dnow r)[COUNT := n]\<rparr>)) w0)" (is "dma_guar w (upd_cont k ?f w0)")
proof -
  have ok: "dma_ok w0" using assms(2) by (simp add: dma_guar_def)
  let ?d = "dma_controllers w ! k" and ?e = "dma_controllers w0 ! k"
  have g: "cont_guar ?d ?e" and l: "length (dregs ?e) = 4"
    using assms(2,3) ok by (simp_all add: dma_guar_def dma_ok_def cont_ok_def)
  have "chan_guar ?d (?f ?e) j" if "j < 4" for j
  proof (cases "j = i")
    case True
    then show ?thesis using g assms(4,5) l reg_counted_upd [OF _ dma_okD [OF assms(1,3,4)], of "dregs ?e ! i" n]
      by (auto simp: cont_guar_def chan_guar_def dma_requested_def upd_reg_def)
  next
    case False
    then show ?thesis using g that by (auto simp: cont_guar_def chan_guar_def dma_requested_def upd_reg_def)
  qed
  then have "cont_guar ?d (?f ?e)" using g by (simp add: cont_guar_def upd_reg_def)
  moreover have "dma_ok (upd_cont k ?f w0)"
    using ok by (intro dma_ok_upd_cont cont_ok_upd_reg) (simp_all add: reg_ok_def)
  moreover have "dma_controllers (upd_cont k ?f w0) ! j = (if j = k then ?f ?e else dma_controllers w0 ! j)" if "j < 2" for j
    using ok that by (auto simp: upd_cont_def dma_ok_def)
  ultimately show ?thesis using assms(2) by (simp add: dma_guar_def)
qed

lemma channel_run_guar:
  assumes call: "\<And>h n p l w. dma_ok w \<Longrightarrow> dma_guar w (snd (call h n p l w))" and w: "dma_ok w" "k < 2" "i < 4"
    and req: "dma_requested (dma_controllers w ! k) i"
  shows "\<exists>w'. channel_run call k i w = Some w' \<and> dma_guar w w'"
proof -
  let ?r = "dregs (dma_controllers w ! k) ! i"
  have "transfer_handler ?r \<noteq> NoHandler" using dma_okD [OF w] by (simp add: reg_ok_def)
  moreover have "\<exists>n w0. run_handler call hn c p l w = Some (n, w0) \<and> dma_guar w w0" if "hn \<noteq> NoHandler" for hn c p l
  proof (cases hn)
    case (Handler h)
    then show ?thesis using call [OF w(1), of h c p l] by (cases "call h c p l w") (simp add: run_handler_def)
  qed (use that dma_guar_refl [OF w(1)] in \<open>simp_all add: run_handler_def\<close>)
  ultimately obtain n w0 where h: "run_handler call (transfer_handler ?r) (i + push_bit 2 k) (dnow ?r ! COUNT)
      (push_bit k (uint (dbase ?r ! COUNT) + 1)) w = Some (n, w0)" "dma_guar w w0" by blast
  show ?thesis unfolding channel_run_def Let_def using h(1) counted_guar [OF w(1) h(2) w(2,3) req, of n] by simp
qed

abbreviation req :: "('h, 'e) dma_world \<Rightarrow> nat \<times> nat \<Rightarrow> bool" where
  "req w ki \<equiv> dma_requested (dma_controllers w ! fst ki) (snd ki)"

lemma subseq_set: "subseq xs ys \<Longrightarrow> set xs \<subseteq> set ys"
  by (auto elim: list_emb_set)

lemma visits_serve:
  assumes call: "\<And>h n p l w. dma_ok w \<Longrightarrow> dma_guar w (snd (call h n p l w))"
    and "\<forall>ki \<in> set cs. fst ki < 2 \<and> snd ki < 4" "dma_ok w"
  shows "\<exists>served w'. subseq served cs \<and> foldl (dma_serve call) (Some w) served = Some w'
    \<and> foldl (dma_visit call) (Some (w, b)) cs = Some (w', b \<or> served \<noteq> []) \<and> dma_guar w w'
    \<and> (\<forall>ki \<in> set served. req w ki) \<and> (\<forall>ki \<in> set cs. req w' ki \<longrightarrow> ki \<in> set served)
    \<and> (served = [] \<longrightarrow> (\<forall>ki \<in> set cs. \<not> req w ki))"
  using assms(2,3)
proof (induction cs arbitrary: w b)
  case Nil
  then show ?case using dma_guar_refl [OF Nil(2)] by (intro exI [of _ "[]"] exI [of _ w]) simp
next
  case (Cons ki cs)
  obtain k i where ki: "ki = (k, i)" "k < 2" "i < 4" using Cons.prems(1) by (cases ki) auto
  have cs: "\<forall>ki \<in> set cs. fst ki < 2 \<and> snd ki < 4" using Cons.prems(1) by simp
  show ?case
  proof (cases "dma_requested (dma_controllers w ! k) i")
    case True
    obtain w1 where w1: "channel_run call k i w = Some w1" "dma_guar w w1"
      using channel_run_guar [where call = call, OF call Cons.prems(2) ki(2,3) True] by blast
    have v: "dma_visit call (Some (w, b)) ki = Some (w1, True)" using True w1(1) by (simp add: ki dma_visit_def)
    have "dma_ok w1" using w1(2) by (simp add: dma_guar_def)
    from Cons.IH [OF cs this, of True] obtain served w' where s: "subseq served cs"
      "foldl (dma_serve call) (Some w1) served = Some w'" "foldl (dma_visit call) (Some (w1, True)) cs = Some (w', True)"
      "dma_guar w1 w'" "\<forall>ki \<in> set served. req w1 ki" "\<forall>ki \<in> set cs. req w' ki \<longrightarrow> ki \<in> set served" by auto
    have r: "\<forall>ki \<in> set served. req w ki"
      using s(5) cs dma_guar_requested [OF w1(2)] subseq_set [OF s(1)] by blast
    have "foldl (dma_serve call) (Some w) (ki # served) = Some w'" using w1(1) s(2) by (simp add: ki)
    moreover have "subseq (ki # served) (ki # cs)" using s(1) by simp
    moreover have "foldl (dma_visit call) (Some (w, b)) (ki # cs) = Some (w', b \<or> ki # served \<noteq> [])" using v s(3) by simp
    moreover have "dma_guar w w'" using w1(2) s(4) by (rule dma_guar_trans)
    moreover have "\<forall>ki \<in> set (ki # served). req w ki" using r True ki(1) by simp
    moreover have "\<forall>kj \<in> set (ki # cs). req w' kj \<longrightarrow> kj \<in> set (ki # served)" using s(6) by simp
    ultimately show ?thesis by blast
  next
    case False
    have v: "dma_visit call (Some (w, b)) ki = Some (w, b)" using False by (simp add: ki dma_visit_def)
    from Cons.IH [OF cs Cons.prems(2), of b] obtain served w' where s: "subseq served cs"
      "foldl (dma_serve call) (Some w) served = Some w'" "foldl (dma_visit call) (Some (w, b)) cs = Some (w', b \<or> served \<noteq> [])"
      "dma_guar w w'" "\<forall>ki \<in> set served. req w ki" "\<forall>ki \<in> set cs. req w' ki \<longrightarrow> ki \<in> set served"
      "served = [] \<longrightarrow> (\<forall>ki \<in> set cs. \<not> req w ki)" by blast
    have "\<not> req w' ki" using False dma_guar_requested [OF s(4) ki(2,3)] ki(1) by auto
    then have "\<forall>kj \<in> set (ki # cs). req w' kj \<longrightarrow> kj \<in> set served" using s(6) by simp
    moreover have "served = [] \<longrightarrow> (\<forall>kj \<in> set (ki # cs). \<not> req w kj)" using s(7) False ki(1) by simp
    moreover have "foldl (dma_visit call) (Some (w, b)) (ki # cs) = Some (w', b \<or> served \<noteq> [])" using v s(3) by simp
    moreover have "subseq served (ki # cs)" using s(1) by (rule list_emb_Cons)
    ultimately show ?thesis using s(2,4,5) by blast
  qed
qed

lemma channels_in_range: "\<forall>ki \<in> set dma_channels. fst ki < 2 \<and> snd ki < 4"
  by (simp add: dma_channels_def)

lemma dma_guar_bh: "dma_guar w w' \<Longrightarrow> dma_guar w (w'\<lparr>dma_bh := b\<rparr>)"
  by (simp add: dma_guar_def)

text \<open>
  A run, and hence a release, of which the handlers keep to the contract keeps to it itself: a
  handler that releases a line of its own does, whatever the re-entered run calls.
\<close>

lemma DMA_run_guar:
  assumes "\<And>h n p l w. dma_ok w \<Longrightarrow> dma_guar w (snd (call h n p l w))" "dma_ok w"
  shows "\<exists>w'. DMA_run call w = Some w' \<and> dma_guar w w'"
proof -
  obtain c w' where "foldl (dma_visit call) (Some (w, False)) dma_channels = Some (w', c)" "dma_guar w w'"
    using visits_serve [where call = call and b = False, OF assms(1) channels_in_range assms(2)] by blast
  then show ?thesis using dma_guar_bh by (cases c) (auto simp: DMA_run_def)
qed

lemma DMA_release_DREQ_guar:
  assumes "\<And>h n p l w. dma_ok w \<Longrightarrow> dma_guar w (snd (call h n p l w))" "dma_ok w"
  shows "\<exists>w'. DMA_release_DREQ call nchan w = Some w' \<and> dma_guar w w'"
proof -
  let ?f = "\<lambda>d. d\<lparr>dstatus := dma_clear (nchan mod 4 + 4) (dstatus d)\<rparr>"
  let ?w = "upd_cont (ncont_of nchan) ?f w"
  have le: "dma_requested d i" if "dma_requested (?f d) i" for d :: "'a dma_cont" and i
  proof -
    have "x AND m = 0 \<Longrightarrow> (x AND NOT c) AND m = 0" for x m c :: u8
      by (metis and.assoc and.commute bit.conj_zero_left)
    then show ?thesis using that by (auto simp: dma_requested_def dma_clear_def)
  qed
  have k: "ncont_of nchan < 2" by (simp add: ncont_of_def)
  have "dma_guar w ?w"
  proof (rule dma_guar_upd [OF assms(2)])
    show "dma_ok ?w" using assms(2) by (intro dma_ok_upd_cont) (auto simp: cont_ok_def)
    show "cont_guar (dma_controllers w ! ncont_of nchan) (?f (dma_controllers w ! ncont_of nchan))"
      using le dma_okD [OF assms(2) k] by (auto simp: cont_guar_def chan_guar_def intro: reg_counted_refl)
  qed
  moreover from this obtain w' where "DMA_run call ?w = Some w'" "dma_guar ?w w'"
    using DMA_run_guar [where call = call, OF assms(1), of ?w] by (auto simp: dma_guar_def)
  ultimately show ?thesis unfolding DMA_release_DREQ_def using dma_guar_trans by blast
qed

section \<open>Properties\<close>

text \<open>
  C10: the controllers stay well formed and never leave their arrays. From initialisation, whatever
  ports the guest reads and writes and with whatever values, whatever lines the devices hold and
  release, whatever handlers they register, and however bottom halves and resets interleave, every
  register access is in bounds, no call goes through a missing handler, and the two controllers
  keep their shape - provided the devices' transfer handlers keep it.
\<close>

theorem dma_type_safe:
  assumes "\<And>h n p l w. dma_ok w \<Longrightarrow> dma_ok (snd (call h n p l w))"
  shows "\<exists>w. DMA_init call e = Some w \<and>
    (\<forall>es. \<exists>w'. run_err (dma_step call hpe) w es = Inr w' \<and> dma_ok w')"
proof -
  have ok: "\<exists>w'. dma_step call hpe w ev = Inr w' \<and> dma_ok w'" if "dma_ok w" for w ev
    using dma_event_ok [where call = call and w = w and hpe = hpe and e = ev] assms that by (auto simp: dma_step_def)
  have "safe_system (dma_step call hpe) dma_ok"
  proof unfold_locales
    show "dma_ok w'" if "dma_ok w" "dma_step call hpe w ev = Inr w'" for w ev w'
      using ok [OF that(1), of ev] that(2) by auto
    show "\<exists>w'. dma_step call hpe w ev = Inr w'" if "dma_ok w" for w ev
      using ok [OF that] by blast
  qed
  from safe_system.safe_run [OF this] show ?thesis using DMA_init_ok [of call e] by blast
qed

text \<open>
  C24: one run of the controllers services the requests that are up, when the devices' handlers keep
  to what the emulator's do (\<open>dma_guar\<close>: they may release request lines and thereby re-enter the run,
  and reprogram nothing; \<open>DMA_release_DREQ_guar\<close>). The run completes, and calls the handlers of a
  subsequence of the channels, each once, channel 0 of the 8-bit controller first. Every channel
  called was requested and unmasked when the run began, and every one that is still requested when
  it ends was called: without releases, exactly the requested ones. Channels that were not
  requested keep all their registers, the others all but their counts, and the next run is
  scheduled whenever one was requested.
\<close>

theorem DMA_run_services:
  assumes "\<And>h n p l w. dma_ok w \<Longrightarrow> dma_guar w (snd (call h n p l w))" "dma_ok w"
  shows "\<exists>served w'. subseq served dma_channels \<and> foldl (dma_serve call) (Some w) served = Some w'
    \<and> DMA_run call w = Some (if served = [] then w' else w'\<lparr>dma_bh := True\<rparr>)
    \<and> (\<forall>(k, i) \<in> set served. dma_requested (dma_controllers w ! k) i)
    \<and> (\<forall>(k, i) \<in> set dma_channels. dma_requested (dma_controllers w' ! k) i \<longrightarrow> (k, i) \<in> set served)
    \<and> (served = [] \<longleftrightarrow> (\<forall>(k, i) \<in> set dma_channels. \<not> dma_requested (dma_controllers w ! k) i))
    \<and> dma_guar w w'"
proof -
  obtain served w' where s: "subseq served dma_channels" "foldl (dma_serve call) (Some w) served = Some w'"
    "foldl (dma_visit call) (Some (w, False)) dma_channels = Some (w', served \<noteq> [])" "dma_guar w w'"
    "\<forall>ki \<in> set served. req w ki" "\<forall>ki \<in> set dma_channels. req w' ki \<longrightarrow> ki \<in> set served"
    "served = [] \<longrightarrow> (\<forall>ki \<in> set dma_channels. \<not> req w ki)"
    using visits_serve [where call = call and b = False, OF assms(1) channels_in_range assms(2)] by auto
  have "served = [] \<longleftrightarrow> (\<forall>ki \<in> set dma_channels. \<not> req w ki)"
    using s(5,7) subseq_set [OF s(1)] by (cases served) auto
  moreover have "DMA_run call w = Some (if served = [] then w' else w'\<lparr>dma_bh := True\<rparr>)"
    using s(3) by (simp add: DMA_run_def)
  ultimately show ?thesis unfolding case_prod_beta prod.collapse using s(1,2,4-6) by blast
qed

text \<open>
  Transfers in the address-decrement mode are not reversed as the code means to. A read
  replaces the first half of the data by the reversed second half and leaves the second half as it
  was; a write stores the data in the order of the buffer, and reverses the buffer afterwards.
\<close>

theorem dma_decrement_defect:
  assumes "dmode (dma_chan w c) AND 0x20 \<noteq> 0"
    and "bs = phys_read (dma_addr (dma_chan w c) - word_of_int pos - of_nat len) len (dma_env w)" "length bs = len"
  shows "DMA_read_memory phys_read w c pos len = rev (drop (len - len div 2) bs) @ drop (len div 2) bs \<and>
    dma_env (snd (DMA_write_memory phys_write w c buf pos)) =
      phys_write (dma_addr (dma_chan w c) - word_of_int pos - of_nat (length buf)) buf (dma_env w)"
proof -
  have "DMA_read_memory phys_read w c pos len = foldl (reverse_step len) bs [0..<len div 2]"
    using assms(1,2) by (simp add: DMA_read_memory_def)
  also have "\<dots> = map (\<lambda>i. if i < len div 2 then bs ! (len - i - 1) else bs ! i) [0..<len]"
    using assms(3) by (intro reverse_steps) simp_all
  also have "\<dots> = rev (drop (len - len div 2) bs) @ drop (len div 2) bs"
    using assms(3) by (intro nth_equalityI) (auto simp: nth_append rev_nth)
  finally show ?thesis using assms(1) by (simp add: DMA_write_memory_def Let_def)
qed


section \<open>Witnesses\<close>

text \<open>A device that moves the whole block at once, and one controller with a held channel.\<close>

definition whole_block :: "(unit, unit) call" where
  "whole_block h n pos len w = (len, w)"

definition held :: "(unit, unit) dma_world" where
  "held = \<lparr>dma_controllers = [(cont_init 0)\<lparr>dmask := 0xfb, dstatus := 0x40,
       dregs := replicate 4 (dma_regs_zero\<lparr>transfer_handler := Handler (), dbase := [0, 511], dmode := 0x20\<rparr>)\<rparr>, cont_init 1],
     dma_bh = False, dma_env = ()\<rparr>"

lemma held_ok: "dma_ok held"
  by (auto simp: held_def dma_ok_def cont_ok_def reg_ok_def cont_init_def dma_regs_zero_def less_2_cases_iff)

theorem dma_program_roundtrip_witness:
  "cont_ok 1 (cont_init 1 :: unit dma_cont) \<and> (\<exists>d1 d2. d1 = write_chan (write_chan (cont_init 1 :: unit dma_cont) 0xc6 (ucast (0x34 :: u8))) 0xc6 (ucast (0x12 :: u8)) \<and>
     read_chan d1 0xc6 = (ucast (0x34 :: u8), d2) \<and> read_chan d2 0xc6 = (ucast (0x12 :: u8), d1) \<and> flip_flop d1 = 0)"
proof -
  have ok: "cont_ok 1 (cont_init 1 :: 'x dma_cont)" by (auto simp: cont_ok_def reg_ok_def cont_init_def dma_regs_zero_def)
  have h: "flip_flop (cont_init 1 :: unit dma_cont) = 0" "1 < (4 :: nat)" "1 < (2 :: nat)"
    "unat (drop_bit 1 (iport (cont_init 1 :: unit dma_cont) 0xc6)) = 1" "unat (iport (cont_init 1 :: unit dma_cont) 0xc6 AND 1) = 1"
    by (simp_all add: iport_def cont_init_def)
  show ?thesis
    using ok dma_program_roundtrip [of 1 "cont_init 1 :: unit dma_cont" 1 1 "0xc6" _ "0x34" "0x12", OF ok h refl] by blast
qed

theorem dma_type_safe_witness:
  "\<exists>w. DMA_init whole_block () = Some w \<and>
    (\<forall>es. \<exists>w'. run_err (dma_step whole_block True) w es = Inr w' \<and> dma_ok w')"
  by (rule dma_type_safe) (simp add: whole_block_def)

text \<open>A device that moves the block and releases its line, so that the run is entered again.\<close>

definition last_block :: "(unit, unit) call" where
  "last_block h n pos len w = (len, case DMA_release_DREQ whole_block n w of Some w' \<Rightarrow> w' | None \<Rightarrow> w)"

lemma last_block_guar: "dma_ok w \<Longrightarrow> dma_guar w (snd (last_block h n p l w))"
  using DMA_release_DREQ_guar [where call = whole_block and w = w and nchan = n]
  by (auto simp: last_block_def whole_block_def dma_guar_refl)

theorem DMA_run_services_witness:
  "dma_requested (dma_controllers held ! 0) 2 \<and>
   (\<exists>served w'. served \<noteq> [] \<and> foldl (dma_serve last_block) (Some held) served = Some w' \<and>
      DMA_run last_block held = Some (w'\<lparr>dma_bh := True\<rparr>) \<and> dma_guar held w')"
proof -
  have s: "dma_requested (dma_controllers held ! 0) 2" "(0, 2) \<in> set dma_channels"
    by (simp_all add: dma_channels_def held_def cont_init_def dma_requested_def shl1_def)
  show ?thesis
    using s DMA_run_services [where call = last_block, OF last_block_guar held_ok] by fastforce
qed

theorem dma_decrement_defect_witness:
  "DMA_read_memory (\<lambda>a n e. map of_nat [0..<n]) held 2 0 4 = [3, 2, 2, 3] \<and>
   snd (DMA_write_memory (\<lambda>a b e. e) held 2 [1, 2, 3] 0) = held"
  using dma_decrement_defect [where w = held and c = 2 and phys_read = "\<lambda>a n e. map of_nat [0..<n]" and len = 4 and pos = 0
      and phys_write = "\<lambda>a b e. e" and buf = "[1, 2, 3]" and bs = "map of_nat [0..<4]"]
  by (simp add: held_def dma_chan_def ncont_of_def cont_init_def upt_rec DMA_write_memory_def)

end
