(* ===== verification/Pcspk.thy ===== *)
theory Pcspk
  imports Pit
begin

text \<open>
  The PC speaker (\<open>hw/pcspk.c\<close>): the samples of one square wave, the callback of the audio
  subsystem that plays them, and port \<open>0x61\<close>, which combines the speaker with channel 2 of the
  interval timer. The audio subsystem is a parameter: \<open>AUD_write\<close> takes the bytes offered and tells
  how many it took.
\<close>

section \<open>State and samples\<close>

definition PCSPK_BUF_LEN :: nat where "PCSPK_BUF_LEN = 1792"
definition PCSPK_SAMPLE_RATE :: u32 where "PCSPK_SAMPLE_RATE = 32000"
definition PCSPK_MAX_FREQ :: u32 where "PCSPK_MAX_FREQ = drop_bit 1 PCSPK_SAMPLE_RATE"
definition PCSPK_MIN_COUNT :: u32 where "PCSPK_MIN_COUNT = (PIT_FREQ + PCSPK_MAX_FREQ - 1) div PCSPK_MAX_FREQ"

record PCSpkState =
  sample_buf :: "u8 list"
  voice :: bool
  pit_count :: u32
  samples :: u32
  play_pos :: u32
  data_on :: int
  dummy_refresh_clock :: int
  active_out :: "int list"

text \<open>A store outside \<open>sample_buf\<close> is None.\<close>

definition generate_samples :: "PCSpkState \<Rightarrow> PCSpkState option" where
  "generate_samples s =
     (if pit_count s \<noteq> 0 then
        (let m = PCSPK_SAMPLE_RATE * pit_count s;
             n = (ucast (push_bit 32 (ucast PIT_FREQ :: u64) div ucast m) :: u32);
             k = drop_bit 1 (of_nat PCSPK_BUF_LEN * PIT_FREQ div m * m div drop_bit 1 PIT_FREQ + 1)
         in if unat k \<le> length (sample_buf s)
            then Some (s\<lparr>samples := k,
              sample_buf := map (\<lambda>i. ucast ((64 AND drop_bit 25 (n * of_nat i)) - 32)) [0..<unat k] @ drop (unat k) (sample_buf s)\<rparr>)
            else None)
      else if PCSPK_BUF_LEN \<le> length (sample_buf s)
      then Some (s\<lparr>samples := of_nat PCSPK_BUF_LEN,
        sample_buf := replicate PCSPK_BUF_LEN 128 @ drop PCSPK_BUF_LEN (sample_buf s)\<rparr>)
      else None)"

section \<open>Playing\<close>

text \<open>
  The loop of the callback. A slice outside the buffer and a remainder by zero are None; the audio
  state \<open>'e\<close> collects what was taken.
\<close>

type_synonym 'e aud_write = "u8 list \<Rightarrow> 'e \<Rightarrow> nat \<times> 'e"

function pcspk_play :: "'e aud_write \<Rightarrow> int \<Rightarrow> PCSpkState \<Rightarrow> 'e \<Rightarrow> (PCSpkState \<times> 'e) option" where
  "pcspk_play AUD_write free s e =
     (if free \<le> 0 then Some (s, e)
      else
        let n = min (samples s - play_pos s) (word_of_int free) in
        if length (sample_buf s) < unat (play_pos s) + unat n then None
        else
          (case AUD_write (take (unat n) (drop (unat (play_pos s)) (sample_buf s))) e of
             (r, e) \<Rightarrow>
               if r = 0 then Some (s, e)
               else if samples s = 0 then None
               else pcspk_play AUD_write (free - int r) (s\<lparr>play_pos := (play_pos s + of_nat r) mod samples s\<rparr>) e))"
  by pat_completeness auto
termination
  by (relation "measure (\<lambda>(w, free, s, e). nat free)") auto

definition pcspk_callback :: "'e aud_write \<Rightarrow> PITState \<Rightarrow> int \<Rightarrow> PCSpkState \<Rightarrow> 'e \<Rightarrow> (PCSpkState \<times> 'e) option" where
  "pcspk_callback AUD_write pit free s e =
     (if pit_get_mode pit 2 \<noteq> 3 then Some (s, e)
      else
        let n = (word_of_int (pit_get_initial_count pit 2) :: u32);
            n = (if n < PCSPK_MIN_COUNT then 0 else n)
        in case (if pit_count s \<noteq> n then generate_samples (s\<lparr>pit_count := n, play_pos := 0\<rparr>) else Some s) of
             None \<Rightarrow> None
           | Some s \<Rightarrow> pcspk_play AUD_write free s e)"

text \<open>Opening the voice: \<open>AUD_open_out\<close> answers whether there is one.\<close>

definition pcspk_audio_init :: "bool \<Rightarrow> PCSpkState \<Rightarrow> int \<times> PCSpkState" where
  "pcspk_audio_init opened s = (let s = s\<lparr>voice := opened\<rparr> in (if \<not> voice s then -1 else 0, s))"

section \<open>Port 0x61\<close>

definition pcspk_ioport_read :: "u64 \<Rightarrow> PITState \<Rightarrow> PCSpkState \<Rightarrow> u32 \<times> PCSpkState" where
  "pcspk_ioport_read now pit s =
     (let s = s\<lparr>dummy_refresh_clock := dummy_refresh_clock s XOR push_bit 4 1\<rparr>;
          out = push_bit 5 (pit_get_out pit 2 now)
      in (word_of_int (pit_get_gate pit 2 OR push_bit 1 (data_on s) OR dummy_refresh_clock s OR out), s))"

definition pcspk_ioport_write :: "u64 \<Rightarrow> u32 \<Rightarrow> PITState \<Rightarrow> PCSpkState \<Rightarrow> PITState \<times> PCSpkState" where
  "pcspk_ioport_write now val pit s =
     (let gate = uint (val AND 1);
          s = s\<lparr>data_on := uint (drop_bit 1 val AND 1)\<rparr>;
          pit = pit_set_gate now pit 2 gate
      in (pit,
          if voice s then
            (let s = (if gate \<noteq> 0 then s\<lparr>play_pos := 0\<rparr> else s)
             in s\<lparr>active_out := active_out s @ [gate AND data_on s]\<rparr>)
          else s))"

definition pcspk_state :: PCSpkState where
  "pcspk_state = \<lparr>sample_buf = replicate PCSPK_BUF_LEN 0, voice = False, pit_count = 0, samples = 0, play_pos = 0,
     data_on = 0, dummy_refresh_clock = 0, active_out = []\<rparr>"

section \<open>The samples fit\<close>

lemma wave_bounds:
  fixes m :: nat
  assumes "0 < m" "m \<le> 2097152000"
  shows "0 < (2138182144 div m * m div 596591 + 1) div 2" "(2138182144 div m * m div 596591 + 1) div 2 \<le> 1792"
    "2138182144 div m * m \<le> 2138182144"
proof -
  let ?q = "2138182144 div m * m"
  have e: "2138182144 = ?q + 2138182144 mod m" by simp
  have "2138182144 mod m < m" using assms(1) by simp
  then have "596591 \<le> ?q" using e assms(2) by linarith
  then have "596591 div 596591 \<le> ?q div 596591" by (rule div_le_mono)
  then show "0 < (?q div 596591 + 1) div 2" by simp
  show "?q \<le> 2138182144" using e by linarith
  then have "?q div 596591 \<le> 2138182144 div 596591" by (rule div_le_mono)
  then have "?q div 596591 + 1 \<le> 3585" by simp
  then have "(?q div 596591 + 1) div 2 \<le> 3585 div 2" by (rule div_le_mono)
  then show "(?q div 596591 + 1) div 2 \<le> 1792" by simp
qed

lemma unat_mult32: "unat x * unat y < 2 ^ 32 \<Longrightarrow> unat (x * y) = unat x * unat y" for x y :: u32
  by (simp add: unat_word_ariths)

lemma unat_Suc32: "unat x < 2 ^ 32 - 1 \<Longrightarrow> unat (x + 1) = unat x + 1" for x :: u32
  by (simp add: unat_word_ariths)

lemma sample_count:
  assumes "0 < unat c" "unat c \<le> 65536" "m = PCSPK_SAMPLE_RATE * c"
    and "k = drop_bit 1 (of_nat PCSPK_BUF_LEN * PIT_FREQ div m * m div drop_bit 1 PIT_FREQ + 1)"
  shows "0 < unat k" "unat k \<le> 1792"
proof -
  have m: "unat m = 32000 * unat c"
    unfolding assms(3) PCSPK_SAMPLE_RATE_def using assms(2) by (subst unat_mult32) simp_all
  have b: "0 < unat m" "unat m \<le> 2097152000" using m assms(1,2) by linarith+
  note w = wave_bounds [OF b]
  have a: "of_nat PCSPK_BUF_LEN * PIT_FREQ = (2138182144 :: u32)" "drop_bit 1 PIT_FREQ = 596591"
    by (simp_all add: PCSPK_BUF_LEN_def PIT_FREQ_def)
  have "2138182144 div unat m * unat m < 2 ^ 32" using w(3) by (rule le_less_trans) simp
  then have q: "unat (2138182144 div m * m) = 2138182144 div unat m * unat m"
    using unat_mult32 [of "2138182144 div m" m] by (simp add: unat_div)
  have d: "unat (2138182144 div m * m div 596591) = 2138182144 div unat m * unat m div 596591"
    unfolding unat_div q by simp
  have "2138182144 div unat m * unat m div 596591 \<le> 2138182144" using w(3) div_le_dividend le_trans by blast
  then have "unat (2138182144 div m * m div 596591 + 1) = 2138182144 div unat m * unat m div 596591 + 1"
    using d by (subst unat_Suc32) simp_all
  then have "unat k = (2138182144 div unat m * unat m div 596591 + 1) div 2"
    unfolding assms(4) a unat_drop_bit_eq by (simp add: drop_bit_eq_div)
  then show "0 < unat k" "unat k \<le> 1792" using w(1,2) by simp_all
qed

definition spk_ok :: "PCSpkState \<Rightarrow> bool" where
  "spk_ok s \<longleftrightarrow> length (sample_buf s) = PCSPK_BUF_LEN \<and> unat (samples s) \<le> PCSPK_BUF_LEN \<and>
     (samples s = 0 \<and> play_pos s = 0 \<or> play_pos s < samples s)"

lemma generate_ok:
  assumes "length (sample_buf s) = PCSPK_BUF_LEN" "unat (pit_count s) \<le> 65536" "play_pos s = 0"
  shows "\<exists>t. generate_samples s = Some t \<and> spk_ok t \<and> 0 < unat (samples t)"
proof (cases "pit_count s = 0")
  case True
  then show ?thesis using assms by (auto simp: generate_samples_def spk_ok_def PCSPK_BUF_LEN_def)
next
  case False
  then have c: "0 < unat (pit_count s)" by (simp add: unat_gt_0)
  define m where "m = PCSPK_SAMPLE_RATE * pit_count s"
  define k where "k = drop_bit 1 (of_nat PCSPK_BUF_LEN * PIT_FREQ div m * m div drop_bit 1 PIT_FREQ + 1)"
  have k: "0 < unat k" "unat k \<le> 1792" using sample_count [OF c assms(2) m_def k_def] by blast+
  have "0 < k" using k(1) by (simp add: word_less_nat_alt)
  then show ?thesis
    using False k assms unfolding generate_samples_def Let_def m_def [symmetric] k_def [symmetric]
    by (simp add: spk_ok_def PCSPK_BUF_LEN_def)
qed


section \<open>Playing is safe and gapless\<close>

declare pcspk_play.simps [simp del]

lemma play_slice:
  assumes "spk_ok s" "0 < free"
  shows "unat (play_pos s) + unat (min (samples s - play_pos s) (word_of_int free)) \<le> unat (samples s)"
proof -
  have le: "play_pos s \<le> samples s" using assms(1) by (auto simp: spk_ok_def)
  have "min (samples s - play_pos s) (word_of_int free) \<le> samples s - play_pos s" by simp
  then have "unat (min (samples s - play_pos s) (word_of_int free)) \<le> unat (samples s) - unat (play_pos s)"
    unfolding word_le_nat_alt unat_sub [OF le] .
  then show ?thesis using le by (simp add: word_le_nat_alt)
qed

lemma advance:
  assumes "spk_ok s" "0 < samples s" "unat (play_pos s) + r \<le> unat (samples s)"
  shows "unat ((play_pos s + of_nat r) mod samples s) = (unat (play_pos s) + r) mod unat (samples s)"
proof -
  have "unat (samples s) \<le> 1792" using assms(1) by (simp add: spk_ok_def PCSPK_BUF_LEN_def)
  then have "unat (play_pos s) + r < 2 ^ 32" using assms(3) by simp
  moreover from this have "unat (of_nat r :: u32) = r" by (simp add: unat_of_nat take_bit_nat_eq_self)
  ultimately have "unat (play_pos s + of_nat r) = unat (play_pos s) + r" by (simp add: unat_word_ariths)
  then show ?thesis by (simp add: unat_mod)
qed

text \<open>The bytes from a position on, looping over the wave.\<close>

definition looped :: "PCSpkState \<Rightarrow> nat \<Rightarrow> u8 list" where
  "looped s n = map (\<lambda>i. sample_buf s ! ((unat (play_pos s) + i) mod unat (samples s))) [0..<n]"

lemma looped_slice:
  assumes "unat (play_pos s) + n \<le> unat (samples s)" "unat (samples s) \<le> length (sample_buf s)" "r \<le> n"
  shows "take r (take n (drop (unat (play_pos s)) (sample_buf s))) = looped s r"
proof (rule nth_equalityI)
  show "length (take r (take n (drop (unat (play_pos s)) (sample_buf s)))) = length (looped s r)"
    using assms by (simp add: looped_def)
  fix i
  assume "i < length (take r (take n (drop (unat (play_pos s)) (sample_buf s))))"
  then have "i < r" by simp
  then show "take r (take n (drop (unat (play_pos s)) (sample_buf s))) ! i = looped s r ! i"
    using assms by (simp add: looped_def)
qed

lemma looped_append:
  assumes "unat (play_pos t) = (unat (play_pos s) + r) mod unat (samples s)" "sample_buf t = sample_buf s" "samples t = samples s"
  shows "looped s r @ looped t n = looped s (r + n)"
  using assms by (intro nth_equalityI) (auto simp: looped_def nth_append mod_add_left_eq not_less)

lemma spk_ok_advance: "spk_ok s \<Longrightarrow> 0 < samples s \<Longrightarrow> spk_ok (s\<lparr>play_pos := x mod samples s\<rparr>)"
  by (auto simp: spk_ok_def word_less_nat_alt unat_mod)

lemma play_gapless:
  assumes w: "\<And>bs e. fst (AUD_write bs e) \<le> length bs" "\<And>bs e. snd (AUD_write bs e) = e @ take (fst (AUD_write bs e)) bs"
  shows "spk_ok s \<Longrightarrow> \<exists>n p. pcspk_play AUD_write free s e = Some (s\<lparr>play_pos := p\<rparr>, e @ looped s n) \<and>
    spk_ok (s\<lparr>play_pos := p\<rparr>) \<and> int n \<le> max free 0 \<and>
    (if samples s = 0 then n = 0 \<and> p = play_pos s else unat p = (unat (play_pos s) + n) mod unat (samples s))"
proof (induction "nat free" arbitrary: free s e rule: less_induct)
  case less
  let ?stop = "\<exists>n p. Some (s, e) = Some (s\<lparr>play_pos := p\<rparr>, e @ looped s n) \<and>
    spk_ok (s\<lparr>play_pos := p\<rparr>) \<and> int n \<le> max free 0 \<and>
    (if samples s = 0 then n = 0 \<and> p = play_pos s else unat p = (unat (play_pos s) + n) mod unat (samples s))"
  have stop: ?stop
    by (rule exI [of _ 0], rule exI [of _ "play_pos s"])
       (use less.prems in \<open>auto simp: looped_def spk_ok_def word_less_nat_alt\<close>)
  show ?case
  proof (cases "free \<le> 0")
    case True
    then show ?thesis using stop by (simp add: pcspk_play.simps)
  next
    case False
    define n where "n = min (samples s - play_pos s) (word_of_int free)"
    define bs where "bs = take (unat n) (drop (unat (play_pos s)) (sample_buf s))"
    obtain r e1 where r: "AUD_write bs e = (r, e1)" by fastforce
    have sl: "unat (play_pos s) + unat n \<le> unat (samples s)" using play_slice [OF less.prems] False by (simp add: n_def)
    have len: "unat (samples s) \<le> length (sample_buf s)" using less.prems by (simp add: spk_ok_def)
    have rn: "r \<le> unat n" "e1 = e @ take r bs" using w(1,2) [of bs e] r by (auto simp: bs_def)
    have step: "pcspk_play AUD_write free s e = (if r = 0 then Some (s, e1) else if samples s = 0 then None
        else pcspk_play AUD_write (free - int r) (s\<lparr>play_pos := (play_pos s + of_nat r) mod samples s\<rparr>) e1)"
      using False sl len r by (subst pcspk_play.simps) (simp add: n_def [symmetric] bs_def [symmetric])
    show ?thesis
    proof (cases "r = 0")
      case True
      then show ?thesis using stop rn(2) by (simp add: step)
    next
      case pos: False
      then have s0: "0 < samples s" using rn(1) sl by (cases "samples s = 0") (auto simp: word_neq_0_conv)
      let ?t = "s\<lparr>play_pos := (play_pos s + of_nat r) mod samples s\<rparr>"
      have t: "unat (play_pos ?t) = (unat (play_pos s) + r) mod unat (samples s)"
        using advance [OF less.prems s0, of r] rn(1) sl by simp
      have fr: "int r \<le> free"
      proof -
        have "n \<le> word_of_int free" by (simp add: n_def)
        then have "unat n \<le> unat (word_of_int free :: u32)" by (simp add: word_le_nat_alt)
        also have "\<dots> \<le> nat free" using False by (simp add: unat_eq_nat_uint uint_word_of_int take_bit_eq_mod nat_mono zmod_le_nonneg_dividend)
        finally show ?thesis using rn(1) False by linarith
      qed
      have ok: "spk_ok ?t" using spk_ok_advance [OF less.prems s0] .
      have e1: "e1 = e @ looped s r" using rn looped_slice [OF sl len rn(1)] by (simp add: bs_def)
      have "nat (free - int r) < nat free" using pos fr by simp
      from less.hyps [OF this ok, of e1] obtain k p where k:
        "pcspk_play AUD_write (free - int r) ?t e1 = Some (?t\<lparr>play_pos := p\<rparr>, e1 @ looped ?t k)"
        "spk_ok (?t\<lparr>play_pos := p\<rparr>)" "int k \<le> max (free - int r) 0" "unat p = (unat (play_pos ?t) + k) mod unat (samples s)"
        using s0 by auto
      show ?thesis
      proof (intro exI conjI)
        show "pcspk_play AUD_write free s e = Some (s\<lparr>play_pos := p\<rparr>, e @ looped s (r + k))"
          using k(1) pos s0 by (simp add: step e1 looped_append [OF t, symmetric])
        show "spk_ok (s\<lparr>play_pos := p\<rparr>)" using k(2) by simp
        show "int (r + k) \<le> max free 0" using k(3) fr by linarith
        show "if samples s = 0 then r + k = 0 \<and> p = play_pos s else unat p = (unat (play_pos s) + (r + k)) mod unat (samples s)"
          using k(4) s0 unfolding t by (auto simp: mod_add_left_eq add.assoc)
      qed
    qed
  qed
qed


section \<open>Properties\<close>

text \<open>
  C30: the speaker plays one continuous wave within its buffer. For every counter value the timer can
  hold, however often and in whatever portions the audio subsystem asks, and however much of each
  offer it takes, the number of samples of the wave is between 1 and the size of the buffer, no slice
  leaves the buffer and no remainder by zero is taken; the bytes that were taken are the wave from
  the current position on, looping without a gap, no more than were asked for, and the next call
  goes on where this one stopped.
\<close>

theorem pcspk_gapless:
  assumes "\<And>bs e. fst (AUD_write bs e) \<le> length bs" "\<And>bs e. snd (AUD_write bs e) = e @ take (fst (AUD_write bs e)) bs"
    and "pit_inv pit" "spk_ok s"
  shows "\<exists>t n p. pcspk_callback AUD_write pit free s e = Some (t\<lparr>play_pos := p\<rparr>, e @ looped t n) \<and>
    spk_ok (t\<lparr>play_pos := p\<rparr>) \<and> int n \<le> max free 0 \<and>
    (samples t \<noteq> 0 \<longrightarrow> unat p = (unat (play_pos t) + n) mod unat (samples t)) \<and>
    (pit_count t = pit_count s \<longrightarrow> t = s)"
proof (cases "pit_get_mode pit 2 = 3")
  case False
  then show ?thesis using assms(4)
    by (intro exI [of _ s] exI [of _ 0] exI [of _ "play_pos s"])
       (auto simp: pcspk_callback_def looped_def spk_ok_def word_less_nat_alt)
next
  case True
  define c where "c = (word_of_int (pit_get_initial_count pit 2) :: u32)"
  define n where "n = (if c < PCSPK_MIN_COUNT then 0 else c)"
  have "1 \<le> count (channels pit ! 2) \<and> count (channels pit ! 2) \<le> 65536"
    using assms(3) by (simp add: pit_inv_def chan_ok_def)
  then have "unat c \<le> 65536"
    by (simp add: c_def pit_get_initial_count_def unat_eq_nat_uint uint_word_of_int take_bit_int_eq_self nat_le_iff)
  then have n: "unat n \<le> 65536" by (simp add: n_def)
  obtain t where t: "(if pit_count s \<noteq> n then generate_samples (s\<lparr>pit_count := n, play_pos := 0\<rparr>) else Some s) = Some t"
      "spk_ok t" "pit_count t = pit_count s \<longrightarrow> t = s"
  proof (cases "pit_count s = n")
    case False
    obtain t where "generate_samples (s\<lparr>pit_count := n, play_pos := 0\<rparr>) = Some t" "spk_ok t"
      using generate_ok [of "s\<lparr>pit_count := n, play_pos := 0\<rparr>"] n assms(4) by (auto simp: spk_ok_def)
    moreover from this(1) have "pit_count t = n" by (auto simp: generate_samples_def Let_def split: if_splits)
    ultimately show ?thesis using that False by simp
  qed (use that assms(4) in simp)
  have "pcspk_callback AUD_write pit free s e = pcspk_play AUD_write free t e"
    using True t(1) unfolding pcspk_callback_def Let_def c_def [symmetric] n_def [symmetric] by simp
  moreover obtain k p where "pcspk_play AUD_write free t e = Some (t\<lparr>play_pos := p\<rparr>, e @ looped t k)"
    "spk_ok (t\<lparr>play_pos := p\<rparr>)" "int k \<le> max free 0"
    "if samples t = 0 then k = 0 \<and> p = play_pos t else unat p = (unat (play_pos t) + k) mod unat (samples t)"
    using play_gapless [where AUD_write = AUD_write and s = t and free = free and e = e, OF assms(1,2) t(2)] by blast
  ultimately show ?thesis using t(3)
    by (intro exI [of _ t] exI [of _ k] exI [of _ p]) auto
qed

lemma uint_and_1: "uint (x AND 1) = of_bool (bit x 0)" for x :: u32
  by (cases "bit x 0") (simp_all add: and_one_eq bit_0 odd_iff_mod_2_eq_one even_iff_mod_2_eq_zero)

lemma uint_and_3: "uint (v AND 3) = of_bool (bit v 0) + 2 * of_bool (bit v 1)" for v :: u8
proof -
  have "v AND 3 = of_bool (bit v 0) + 2 * of_bool (bit v 1)"
  proof (rule u8_eqI)
    fix n :: nat
    assume "n < 8"
    then have "n \<in> {0, 1, 2, 3, 4, 5, 6, 7}" by auto
    then show "bit (v AND 3) n = bit (of_bool (bit v 0) + 2 * of_bool (bit v 1) :: u8) n"
      by (cases "bit v 0"; cases "bit v 1") (auto simp: bits)
  qed
  then show ?thesis by (cases "bit v 0"; cases "bit v 1") simp_all
qed

text \<open>
  Port \<open>0x61\<close>. After a byte is written, a read returns its two low bits (the gate of channel 2
  and the speaker data), the output of channel 2 at that time in bit 5 and nothing outside bits 0,
  1, 4 and 5; bit 4, the refresh clock, toggles at every read.
\<close>

theorem pcspk_port61_roundtrip:
  fixes v :: u8
  assumes "pit_inv pit" "dummy_refresh_clock s = 0 \<or> dummy_refresh_clock s = 16"
    and "pcspk_ioport_write now (ucast v) pit s = (pit', s')"
  shows "\<exists>x s''. pcspk_ioport_read later pit' s' = (x, s'') \<and>
    uint x = uint (v AND 3) + (16 - dummy_refresh_clock s) + 32 * pit_get_out pit' 2 later \<and>
    dummy_refresh_clock s'' = 16 - dummy_refresh_clock s \<and> pit_inv pit'"
proof -
  have g: "uint (ucast v AND 1 :: u32) = of_bool (bit v 0)"
    unfolding uint_and_1 by (simp add: bit_simps)
  have d: "uint (drop_bit 1 (ucast v) AND 1 :: u32) = of_bool (bit v 1)"
    unfolding uint_and_1 by (simp add: bit_simps)
  have v: "uint (v AND 3) = of_bool (bit v 0) + 2 * of_bool (bit v 1)"
    by (rule uint_and_3)
  have o: "pit_get_out pit' 2 later = 0 \<or> pit_get_out pit' 2 later = 1"
    by (auto simp: pit_get_out_def pit_get_out1_def Let_def)
  have p: "pit' = pit_set_gate now pit 2 (of_bool (bit v 0))" "data_on s' = of_bool (bit v 1)"
    "dummy_refresh_clock s' = dummy_refresh_clock s"
    using assms(3) by (auto simp: pcspk_ioport_write_def Let_def g d simp del: One_nat_def split: if_splits)
  have l: "2 < length (channels pit)" using assms(1) by (simp add: pit_inv_def)
  have gt: "pit_get_gate pit' 2 = of_bool (bit v 0)"
    using l by (simp add: p(1) pit_get_gate_def pit_set_gate_def upd_channel_def pit_chan_set_gate_def Let_def)
  have i: "pit_inv pit'" unfolding p(1) using pit_step_inv [OF assms(1), of "(now, PGate (bit v 0))"] by (simp add: pit_step_def)
  show ?thesis
    using assms(2) o i unfolding v
    by (cases "bit v 0"; cases "bit v 1") (auto simp: pcspk_ioport_read_def gt p(2,3))
qed


section \<open>Witnesses\<close>

definition spk_pit :: PITState where
  "spk_pit = pit_reset 0 pit_initfn"

lemma spk_pit_inv: "pit_inv spk_pit"
  unfolding spk_pit_def by (rule pit_initfn_reset)

definition take_two :: "u8 list aud_write" where
  "take_two bs e = (min 2 (length bs), e @ take 2 bs)"

theorem pcspk_gapless_witness:
  "\<exists>t n p. pcspk_callback take_two spk_pit 10 pcspk_state [] = Some (t\<lparr>play_pos := p\<rparr>, [] @ looped t n) \<and>
    spk_ok (t\<lparr>play_pos := p\<rparr>) \<and> int n \<le> 10"
proof -
  have "spk_ok pcspk_state" by (simp add: spk_ok_def pcspk_state_def)
  from pcspk_gapless [where AUD_write = take_two and free = 10 and e = "[]", OF _ _ spk_pit_inv this] show ?thesis
    by (fastforce simp: take_two_def min_def)
qed

theorem pcspk_port61_roundtrip_witness:
  "\<exists>x s''. pcspk_ioport_read 0 (fst (pcspk_ioport_write 0 3 spk_pit pcspk_state)) (snd (pcspk_ioport_write 0 3 spk_pit pcspk_state)) = (x, s'') \<and>
    uint x = 3 + 16 + 32 * pit_get_out (fst (pcspk_ioport_write 0 3 spk_pit pcspk_state)) 2 0 \<and>
    dummy_refresh_clock s'' = 16 \<and> pit_inv (fst (pcspk_ioport_write 0 3 spk_pit pcspk_state))"
  using pcspk_port61_roundtrip [where v = 3 and now = 0 and s = pcspk_state and later = 0, OF spk_pit_inv _ prod.collapse [symmetric]]
  by (simp add: pcspk_state_def)

end
