(* ===== verification/Rtc.thy ===== *)
theory Rtc
  imports Irq HostUtils "HOL-Library.Signed_Division"
begin

text \<open>
  The MC146818 real-time clock and CMOS memory (\<open>hw/mc146818rtc.c\<close>): the two ports, the date and its
  BCD and binary, 12 and 24 hour encodings, the second, periodic and coalescing timers, the alarm
  and the interrupt line. The clock, the answer of the APIC whether an interrupt was delivered and
  the option \<open>rtc_td_hack\<close> are an environment; the monitor's \<open>RTC_CHANGE\<close> events are logged.
\<close>

section \<open>State\<close>

record tm =
  tm_sec :: int
  tm_min :: int
  tm_hour :: int
  tm_mday :: int
  tm_mon :: int
  tm_year :: int
  tm_wday :: int

record rtc_env =
  rtc_now :: u64
  irq_delivered :: bool
  rtc_td_hack :: bool

text \<open>A timer is None when it is not armed.\<close>

record RTCState =
  cmos_data :: "u8 list"
  cmos_index :: u8
  current_tm :: tm
  base_year :: int
  rtc_irq :: irq_line
  sqw_irq :: "irq_line option"
  periodic_timer :: "u64 option"
  next_periodic_time :: u64
  next_second_time :: u64
  irq_reinject_on_ack_count :: u16
  irq_coalesced :: u32
  period :: u32
  coalesced_timer :: "u64 option"
  second_timer :: "u64 option"
  second_timer2 :: "u64 option"
  rtc_change :: "tm list"

definition RTC_REINJECT_ON_ACK_COUNT :: u16 where "RTC_REINJECT_ON_ACK_COUNT = 20"

definition RTC_SECONDS :: nat where "RTC_SECONDS = 0"
definition RTC_SECONDS_ALARM :: nat where "RTC_SECONDS_ALARM = 1"
definition RTC_MINUTES :: nat where "RTC_MINUTES = 2"
definition RTC_MINUTES_ALARM :: nat where "RTC_MINUTES_ALARM = 3"
definition RTC_HOURS :: nat where "RTC_HOURS = 4"
definition RTC_HOURS_ALARM :: nat where "RTC_HOURS_ALARM = 5"
definition RTC_DAY_OF_WEEK :: nat where "RTC_DAY_OF_WEEK = 6"
definition RTC_DAY_OF_MONTH :: nat where "RTC_DAY_OF_MONTH = 7"
definition RTC_MONTH :: nat where "RTC_MONTH = 8"
definition RTC_YEAR :: nat where "RTC_YEAR = 9"
definition RTC_REG_A :: nat where "RTC_REG_A = 10"
definition RTC_REG_B :: nat where "RTC_REG_B = 11"
definition RTC_REG_C :: nat where "RTC_REG_C = 12"
definition RTC_REG_D :: nat where "RTC_REG_D = 13"

lemmas rtc_regs = RTC_SECONDS_def RTC_SECONDS_ALARM_def RTC_MINUTES_def RTC_MINUTES_ALARM_def RTC_HOURS_def
  RTC_HOURS_ALARM_def RTC_DAY_OF_WEEK_def RTC_DAY_OF_MONTH_def RTC_MONTH_def RTC_YEAR_def RTC_REG_A_def
  RTC_REG_B_def RTC_REG_C_def RTC_REG_D_def

definition REG_A_UIP :: u8 where "REG_A_UIP = 0x80"
definition REG_B_SET :: u8 where "REG_B_SET = 0x80"
definition REG_B_PIE :: u8 where "REG_B_PIE = 0x40"
definition REG_B_AIE :: u8 where "REG_B_AIE = 0x20"
definition REG_B_UIE :: u8 where "REG_B_UIE = 0x10"
definition REG_B_SQWE :: u8 where "REG_B_SQWE = 0x08"
definition REG_B_DM :: u8 where "REG_B_DM = 0x04"
definition REG_B_24H :: u8 where "REG_B_24H = 0x02"
definition REG_C_UF :: u8 where "REG_C_UF = 0x10"
definition REG_C_IRQF :: u8 where "REG_C_IRQF = 0x80"
definition REG_C_PF :: u8 where "REG_C_PF = 0x40"
definition REG_C_AF :: u8 where "REG_C_AF = 0x20"

lemmas rtc_bits = REG_A_UIP_def REG_B_SET_def REG_B_PIE_def REG_B_AIE_def REG_B_UIE_def REG_B_SQWE_def
  REG_B_DM_def REG_B_24H_def REG_C_UF_def REG_C_IRQF_def REG_C_PF_def REG_C_AF_def

definition rtc_ticks_per_sec :: u32 where "rtc_ticks_per_sec = 1000000000"

definition cmos :: "RTCState \<Rightarrow> nat \<Rightarrow> u8" where "cmos s i = cmos_data s ! i"

definition set_cmos :: "nat \<Rightarrow> u8 \<Rightarrow> RTCState \<Rightarrow> RTCState" where
  "set_cmos i v s = s\<lparr>cmos_data := (cmos_data s)[i := v]\<rparr>"

definition raise_irq :: "RTCState \<Rightarrow> RTCState" where "raise_irq s = s\<lparr>rtc_irq := raise_line (rtc_irq s)\<rparr>"
definition lower_irq :: "RTCState \<Rightarrow> RTCState" where "lower_irq s = s\<lparr>rtc_irq := lower_line (rtc_irq s)\<rparr>"

section \<open>Timers\<close>

definition rtc_coalesced_timer_update :: "rtc_env \<Rightarrow> RTCState \<Rightarrow> RTCState" where
  "rtc_coalesced_timer_update e s =
     (if irq_coalesced s = 0 then s\<lparr>coalesced_timer := None\<rparr>
      else
        (let c = min (irq_coalesced s) 7 + 1;
             next_clock = rtc_now e + muldiv64 (ucast (period s div c)) rtc_ticks_per_sec 32768
         in s\<lparr>coalesced_timer := Some next_clock\<rparr>))"

definition rtc_coalesced_timer :: "rtc_env \<Rightarrow> RTCState \<Rightarrow> RTCState" where
  "rtc_coalesced_timer e s =
     rtc_coalesced_timer_update e
       (if irq_coalesced s \<noteq> 0 then
          (let s = raise_irq (set_cmos RTC_REG_C (cmos s RTC_REG_C OR 0xc0) s)
           in if irq_delivered e then s\<lparr>irq_coalesced := irq_coalesced s - 1\<rparr> else s)
        else s)"

definition rtc_timer_update :: "RTCState \<Rightarrow> u64 \<Rightarrow> RTCState" where
  "rtc_timer_update s current_time =
     (let period_code = unat (cmos s RTC_REG_A AND 0x0f) in
      if period_code \<noteq> 0 \<and> (cmos s RTC_REG_B AND REG_B_PIE \<noteq> 0 \<or> cmos s RTC_REG_B AND REG_B_SQWE \<noteq> 0 \<and> sqw_irq s \<noteq> None)
      then
        (let period_code = (if period_code \<le> 2 then period_code + 7 else period_code);
             p = (shl1 (period_code - 1) :: u32);
             s = (if p \<noteq> period s then s\<lparr>irq_coalesced := irq_coalesced s * period s div p\<rparr> else s);
             s = s\<lparr>period := p\<rparr>;
             cur_clock = muldiv64 current_time 32768 rtc_ticks_per_sec;
             next_irq_clock = (cur_clock AND NOT (ucast p - 1)) + ucast p;
             s = s\<lparr>next_periodic_time := muldiv64 next_irq_clock rtc_ticks_per_sec 32768 + 1\<rparr>
         in s\<lparr>periodic_timer := Some (next_periodic_time s)\<rparr>)
      else s\<lparr>irq_coalesced := 0, periodic_timer := None\<rparr>)"

definition rtc_periodic_timer :: "rtc_env \<Rightarrow> RTCState \<Rightarrow> RTCState" where
  "rtc_periodic_timer e s =
     (let s = rtc_timer_update s (next_periodic_time s);
          s = (if cmos s RTC_REG_B AND REG_B_PIE \<noteq> 0 then
                 (let s = set_cmos RTC_REG_C (cmos s RTC_REG_C OR 0xc0) s in
                  if rtc_td_hack e then
                    (let s = (if irq_reinject_on_ack_count s \<ge> RTC_REINJECT_ON_ACK_COUNT
                              then s\<lparr>irq_reinject_on_ack_count := 0\<rparr> else s);
                         s = raise_irq s
                     in if \<not> irq_delivered e
                        then rtc_coalesced_timer_update e (s\<lparr>irq_coalesced := irq_coalesced s + 1\<rparr>)
                        else s)
                  else raise_irq s)
               else s)
      in if cmos s RTC_REG_B AND REG_B_SQWE \<noteq> 0 then s\<lparr>sqw_irq := map_option raise_line (sqw_irq s)\<rparr> else s)"

section \<open>The date\<close>

definition rtc_to_bcd :: "RTCState \<Rightarrow> int \<Rightarrow> int" where
  "rtc_to_bcd s a =
     (if cmos s RTC_REG_B AND REG_B_DM \<noteq> 0 then a else push_bit 4 (a sdiv 10) OR (a smod 10))"

definition rtc_from_bcd :: "RTCState \<Rightarrow> u8 \<Rightarrow> int" where
  "rtc_from_bcd s a =
     (if cmos s RTC_REG_B AND REG_B_DM \<noteq> 0 then uint a else drop_bit 4 (uint a) * 10 + (uint a AND 0x0f))"

definition rtc_set_time :: "RTCState \<Rightarrow> RTCState" where
  "rtc_set_time s =
     (let hour = rtc_from_bcd s (cmos s RTC_HOURS AND 0x7f);
          hour = (if cmos s RTC_REG_B AND REG_B_24H = 0 \<and> cmos s RTC_HOURS AND 0x80 \<noteq> 0 then hour + 12 else hour);
          t = \<lparr>tm_sec = rtc_from_bcd s (cmos s RTC_SECONDS), tm_min = rtc_from_bcd s (cmos s RTC_MINUTES), tm_hour = hour,
                tm_mday = rtc_from_bcd s (cmos s RTC_DAY_OF_MONTH), tm_mon = rtc_from_bcd s (cmos s RTC_MONTH) - 1,
                tm_year = rtc_from_bcd s (cmos s RTC_YEAR) + base_year s - 1900,
                tm_wday = rtc_from_bcd s (cmos s RTC_DAY_OF_WEEK) - 1\<rparr>
      in s\<lparr>current_tm := t, rtc_change := rtc_change s @ [t]\<rparr>)"

definition rtc_copy_date :: "RTCState \<Rightarrow> RTCState" where
  "rtc_copy_date s =
     (let t = current_tm s;
          put = (\<lambda>i v s. set_cmos i (word_of_int v) s);
          s = put RTC_SECONDS (rtc_to_bcd s (tm_sec t)) s;
          s = put RTC_MINUTES (rtc_to_bcd s (tm_min t)) s;
          s = (if cmos s RTC_REG_B AND REG_B_24H \<noteq> 0 then put RTC_HOURS (rtc_to_bcd s (tm_hour t)) s
               else
                 (let s = put RTC_HOURS (rtc_to_bcd s (tm_hour t smod 12)) s
                  in if tm_hour t \<ge> 12 then set_cmos RTC_HOURS (cmos s RTC_HOURS OR 0x80) s else s));
          s = put RTC_DAY_OF_WEEK (rtc_to_bcd s (tm_wday t + 1)) s;
          s = put RTC_DAY_OF_MONTH (rtc_to_bcd s (tm_mday t)) s;
          s = put RTC_MONTH (rtc_to_bcd s (tm_mon t + 1)) s;
          year = (tm_year t - base_year s) smod 100;
          year = (if year < 0 then year + 100 else year)
      in put RTC_YEAR (rtc_to_bcd s year) s)"

definition days_tab :: "int list" where
  "days_tab = [31, 28, 31, 30, 31, 30, 31, 31, 30, 31, 30, 31]"

definition get_days_in_month :: "int \<Rightarrow> int \<Rightarrow> int" where
  "get_days_in_month month year =
     (if month < 0 \<or> month \<ge> 12 then 31
      else
        (let d = days_tab ! nat month
         in if month = 1 \<and> year smod 4 = 0 \<and> (year smod 100 \<noteq> 0 \<or> year smod 400 = 0) then d + 1 else d))"

text \<open>A value that, read as unsigned, is at least \<open>n\<close>.\<close>

definition u_ge :: "int \<Rightarrow> int \<Rightarrow> bool" where "u_ge x n \<longleftrightarrow> x < 0 \<or> x \<ge> n"

definition next_day :: "tm \<Rightarrow> tm" where
  "next_day t =
     (let t = t\<lparr>tm_wday := tm_wday t + 1\<rparr>;
          t = (if u_ge (tm_wday t) 7 then t\<lparr>tm_wday := 0\<rparr> else t);
          days_in_month = get_days_in_month (tm_mon t) (tm_year t + 1900);
          t = t\<lparr>tm_mday := tm_mday t + 1\<rparr>
      in if tm_mday t < 1 then t\<lparr>tm_mday := 1\<rparr>
         else if tm_mday t > days_in_month then
           (let t = t\<lparr>tm_mday := 1, tm_mon := tm_mon t + 1\<rparr>
            in if tm_mon t \<ge> 12 then t\<lparr>tm_mon := 0, tm_year := tm_year t + 1\<rparr> else t)
         else t)"

definition rtc_next_second :: "tm \<Rightarrow> tm" where
  "rtc_next_second t =
     (let t = t\<lparr>tm_sec := tm_sec t + 1\<rparr> in
      if u_ge (tm_sec t) 60 then
        (let t = t\<lparr>tm_sec := 0, tm_min := tm_min t + 1\<rparr> in
         if u_ge (tm_min t) 60 then
           (let t = t\<lparr>tm_min := 0, tm_hour := tm_hour t + 1\<rparr> in
            if u_ge (tm_hour t) 24 then next_day (t\<lparr>tm_hour := 0\<rparr>) else t)
         else t)
      else t)"

section \<open>The second timers\<close>

definition rtc_update_second :: "RTCState \<Rightarrow> RTCState" where
  "rtc_update_second s =
     (if cmos s RTC_REG_A AND 0x70 \<noteq> 0x20 then
        (let s = s\<lparr>next_second_time := next_second_time s + ucast rtc_ticks_per_sec\<rparr>
         in s\<lparr>second_timer := Some (next_second_time s)\<rparr>)
      else
        (let s = s\<lparr>current_tm := rtc_next_second (current_tm s)\<rparr>;
             s = (if cmos s RTC_REG_B AND REG_B_SET = 0 then set_cmos RTC_REG_A (cmos s RTC_REG_A OR REG_A_UIP) s else s);
             delay = ucast rtc_ticks_per_sec div 100
         in s\<lparr>second_timer2 := Some (next_second_time s + delay)\<rparr>))"

definition alarm_field :: "RTCState \<Rightarrow> nat \<Rightarrow> int \<Rightarrow> bool" where
  "alarm_field s reg now \<longleftrightarrow> cmos s reg AND 0xc0 = 0xc0 \<or> rtc_from_bcd s (cmos s reg) = now"

definition rtc_check_alarm :: "RTCState \<Rightarrow> RTCState" where
  "rtc_check_alarm s =
     (if cmos s RTC_REG_B AND REG_B_AIE \<noteq> 0 \<and>
         alarm_field s RTC_SECONDS_ALARM (tm_sec (current_tm s)) \<and>
         alarm_field s RTC_MINUTES_ALARM (tm_min (current_tm s)) \<and>
         alarm_field s RTC_HOURS_ALARM (tm_hour (current_tm s))
      then raise_irq (set_cmos RTC_REG_C (cmos s RTC_REG_C OR 0xa0) s) else s)"

definition rtc_update_second2 :: "RTCState \<Rightarrow> RTCState" where
  "rtc_update_second2 s =
     (let s = (if cmos s RTC_REG_B AND REG_B_SET = 0 then rtc_copy_date s else s);
          s = rtc_check_alarm s;
          s = set_cmos RTC_REG_C (cmos s RTC_REG_C OR REG_C_UF) s;
          s = (if cmos s RTC_REG_B AND REG_B_UIE \<noteq> 0
               then raise_irq (set_cmos RTC_REG_C (cmos s RTC_REG_C OR REG_C_IRQF) s) else s);
          s = set_cmos RTC_REG_A (cmos s RTC_REG_A AND NOT REG_A_UIP) s;
          s = s\<lparr>next_second_time := next_second_time s + ucast rtc_ticks_per_sec\<rparr>
      in s\<lparr>second_timer := Some (next_second_time s)\<rparr>)"

section \<open>Ports\<close>

text \<open>The new value of register B and its effects, for a write of \<open>data\<close>.\<close>

definition rtc_write_reg_b :: "rtc_env \<Rightarrow> RTCState \<Rightarrow> u8 \<Rightarrow> RTCState" where
  "rtc_write_reg_b e s data =
     (let (s, data) =
            (if data AND REG_B_SET \<noteq> 0
             then (set_cmos RTC_REG_A (cmos s RTC_REG_A AND NOT REG_A_UIP) s, data AND NOT REG_B_UIE)
             else (if cmos s RTC_REG_B AND REG_B_SET \<noteq> 0 then rtc_set_time s else s, data));
          s = (if (cmos s RTC_REG_B XOR data) AND (REG_B_DM OR REG_B_24H) \<noteq> 0 \<and> data AND REG_B_SET = 0
               then rtc_copy_date (set_cmos RTC_REG_B data s)
               else set_cmos RTC_REG_B data s)
      in rtc_timer_update s (rtc_now e))"

definition cmos_ioport_write :: "rtc_env \<Rightarrow> RTCState \<Rightarrow> u32 \<Rightarrow> u32 \<Rightarrow> RTCState" where
  "cmos_ioport_write e s addr data =
     (if addr AND 1 = 0 then s\<lparr>cmos_index := ucast (data AND 0x7f)\<rparr>
      else
        let i = unat (cmos_index s) in
        if i \<in> {RTC_SECONDS_ALARM, RTC_MINUTES_ALARM, RTC_HOURS_ALARM} then set_cmos i (ucast data) s
        else if i \<in> {RTC_SECONDS, RTC_MINUTES, RTC_HOURS, RTC_DAY_OF_WEEK, RTC_DAY_OF_MONTH, RTC_MONTH, RTC_YEAR} then
          (let s = set_cmos i (ucast data) s
           in if cmos s RTC_REG_B AND REG_B_SET = 0 then rtc_set_time s else s)
        else if i = RTC_REG_A then
          rtc_timer_update
            (set_cmos RTC_REG_A ((ucast data AND NOT REG_A_UIP) OR (cmos s RTC_REG_A AND REG_A_UIP)) s) (rtc_now e)
        else if i = RTC_REG_B then rtc_write_reg_b e s (ucast data)
        else if i \<in> {RTC_REG_C, RTC_REG_D} then s
        else set_cmos i (ucast data) s)"

definition rtc_read_reg_c :: "rtc_env \<Rightarrow> RTCState \<Rightarrow> RTCState" where
  "rtc_read_reg_c e s =
     (let s = lower_irq s in
      if irq_coalesced s \<noteq> 0 \<and> irq_reinject_on_ack_count s < RTC_REINJECT_ON_ACK_COUNT then
        (let s = raise_irq (s\<lparr>irq_reinject_on_ack_count := irq_reinject_on_ack_count s + 1\<rparr>)
         in if irq_delivered e then s\<lparr>irq_coalesced := irq_coalesced s - 1\<rparr> else s)
      else set_cmos RTC_REG_C 0 s)"

definition cmos_ioport_read :: "rtc_env \<Rightarrow> RTCState \<Rightarrow> u32 \<Rightarrow> u32 \<times> RTCState" where
  "cmos_ioport_read e s addr =
     (if addr AND 1 = 0 then (0xff, s)
      else
        let i = unat (cmos_index s); ret = ucast (cmos s i)
        in if i = RTC_REG_C then (ret, rtc_read_reg_c e s) else (ret, s))"

section \<open>Set-up\<close>

definition rtc_set_memory :: "int \<Rightarrow> int \<Rightarrow> RTCState \<Rightarrow> RTCState" where
  "rtc_set_memory addr val s = (if addr \<ge> 0 \<and> addr \<le> 127 then set_cmos (nat addr) (word_of_int val) s else s)"

definition rtc_set_date :: "tm \<Rightarrow> RTCState \<Rightarrow> RTCState" where
  "rtc_set_date t s = rtc_copy_date (s\<lparr>current_tm := t\<rparr>)"

text \<open>The host's date is a parameter.\<close>

definition rtc_set_date_from_host :: "tm \<Rightarrow> RTCState \<Rightarrow> RTCState" where
  "rtc_set_date_from_host host s =
     (let s = rtc_set_date host s;
          val = rtc_to_bcd s (tm_year host sdiv 100 + 19)
      in rtc_set_memory 0x37 val (rtc_set_memory 0x32 val s))"

definition rtc_post_load :: "rtc_env \<Rightarrow> int \<Rightarrow> RTCState \<Rightarrow> RTCState" where
  "rtc_post_load e version_id s = (if version_id \<ge> 2 \<and> rtc_td_hack e then rtc_coalesced_timer_update e s else s)"

definition rtc_reset :: "rtc_env \<Rightarrow> RTCState \<Rightarrow> RTCState" where
  "rtc_reset e s =
     (let s = set_cmos RTC_REG_B (cmos s RTC_REG_B AND NOT (REG_B_PIE OR REG_B_AIE OR REG_B_SQWE)) s;
          s = set_cmos RTC_REG_C (cmos s RTC_REG_C AND NOT (REG_C_UF OR REG_C_IRQF OR REG_C_PF OR REG_C_AF)) s;
          s = lower_irq s
      in if rtc_td_hack e then s\<lparr>irq_coalesced := 0\<rparr> else s)"

definition rtc_zero :: "int \<Rightarrow> RTCState" where
  "rtc_zero year = \<lparr>cmos_data = replicate 128 0, cmos_index = 0,
     current_tm = \<lparr>tm_sec = 0, tm_min = 0, tm_hour = 0, tm_mday = 0, tm_mon = 0, tm_year = 0, tm_wday = 0\<rparr>,
     base_year = year, rtc_irq = [], sqw_irq = None, periodic_timer = None, next_periodic_time = 0, next_second_time = 0,
     irq_reinject_on_ack_count = 0, irq_coalesced = 0, period = 0, coalesced_timer = None, second_timer = None,
     second_timer2 = None, rtc_change = []\<rparr>"

definition rtc_initfn :: "rtc_env \<Rightarrow> tm \<Rightarrow> RTCState \<Rightarrow> RTCState" where
  "rtc_initfn e host s =
     (let s = set_cmos RTC_REG_D 0x80 (set_cmos RTC_REG_C 0 (set_cmos RTC_REG_B 0x02 (set_cmos RTC_REG_A 0x26 s)));
          s = rtc_set_date_from_host host s;
          s = s\<lparr>next_second_time := rtc_now e + ucast rtc_ticks_per_sec * 99 div 100\<rparr>
      in s\<lparr>second_timer2 := Some (next_second_time s)\<rparr>)"

definition rtc_init :: "rtc_env \<Rightarrow> tm \<Rightarrow> int \<Rightarrow> RTCState" where
  "rtc_init e host year = rtc_initfn e host (rtc_zero year)"

section \<open>The calendar\<close>

text \<open>The Gregorian calendar: months count from 0, and days and seconds from a fixed point in the past.\<close>

definition leap :: "int \<Rightarrow> bool" where
  "leap y \<longleftrightarrow> 4 dvd y \<and> (\<not> 100 dvd y \<or> 400 dvd y)"

definition month_length :: "int \<Rightarrow> int \<Rightarrow> int" where
  "month_length y m = (if m = 1 then (if leap y then 29 else 28) else if m \<in> {3, 5, 8, 10} then 30 else 31)"

definition days_before_year :: "int \<Rightarrow> int" where
  "days_before_year y = 365 * y + (y - 1) div 4 - (y - 1) div 100 + (y - 1) div 400"

definition days_before_month :: "int \<Rightarrow> int \<Rightarrow> int" where
  "days_before_month y m = (\<Sum>k\<leftarrow>[0..<nat m]. month_length y (int k))"

definition tm_days :: "tm \<Rightarrow> int" where
  "tm_days t = days_before_year (tm_year t + 1900) + days_before_month (tm_year t + 1900) (tm_mon t) + tm_mday t - 1"

definition tm_seconds :: "tm \<Rightarrow> int" where
  "tm_seconds t = tm_days t * 86400 + tm_hour t * 3600 + tm_min t * 60 + tm_sec t"

definition valid_tm :: "tm \<Rightarrow> bool" where
  "valid_tm t \<longleftrightarrow> 0 \<le> tm_sec t \<and> tm_sec t < 60 \<and> 0 \<le> tm_min t \<and> tm_min t < 60 \<and> 0 \<le> tm_hour t \<and> tm_hour t < 24 \<and>
     0 \<le> tm_mon t \<and> tm_mon t < 12 \<and> 1 \<le> tm_mday t \<and> tm_mday t \<le> month_length (tm_year t + 1900) (tm_mon t) \<and>
     0 \<le> tm_wday t \<and> tm_wday t < 7"

lemma smod_0_iff: "0 < b \<Longrightarrow> a smod b = 0 \<longleftrightarrow> b dvd a" for a b :: int
  by (auto simp: signed_modulo_int_def dvd_eq_mod_eq_0 [symmetric] sgn_0_0)

lemma month_cases: "0 \<le> m \<Longrightarrow> m < 12 \<Longrightarrow> m \<in> {0, 1, 2, 3, 4, 5, 6, 7, 8, 9, 10, 11 :: int}"
  by simp presburger

lemma get_days_in_month_eq:
  assumes "0 \<le> m" "m < 12" shows "get_days_in_month m y = month_length y m"
  using month_cases [OF assms]
  by (auto simp: get_days_in_month_def days_tab_def month_length_def leap_def smod_0_iff)

lemma days_before_month_Suc: "0 \<le> m \<Longrightarrow> days_before_month y (m + 1) = days_before_month y m + month_length y m"
  by (simp add: days_before_month_def nat_add_distrib)

lemma days_before_month_12: "days_before_month y 12 = 365 + of_bool (leap y)"
  by (simp add: days_before_month_def month_length_def upt_rec)

lemma div_step: "0 < k \<Longrightarrow> y div k - (y - 1) div k = of_bool (k dvd y)" for y k :: int
proof -
  assume k: "0 < k"
  have y: "y = k * (y div k) + y mod k" "0 \<le> y mod k" "y mod k < k" using k by simp_all
  show ?thesis
  proof (cases "k dvd y")
    case True
    then have "y mod k = 0" by simp
    then have "y - 1 = k * (y div k - 1) + (k - 1)" using y(1) by (simp add: right_diff_distrib)
    then have "(y - 1) div k = y div k - 1" by (rule int_div_pos_eq) (use k in auto)
    then show ?thesis using True by simp
  next
    case False
    then have "y mod k \<noteq> 0" by (simp add: dvd_eq_mod_eq_0)
    moreover have "y - 1 = k * (y div k) + (y mod k - 1)" using y(1) by simp
    ultimately have "(y - 1) div k = y div k" using y by (intro int_div_pos_eq [of _ _ _ "y mod k - 1"]) auto
    then show ?thesis using False by simp
  qed
qed

lemma of_bool_leap: "(b \<longrightarrow> a) \<Longrightarrow> (c \<longrightarrow> b) \<Longrightarrow> of_bool (a \<and> (\<not> b \<or> c)) = of_bool a - of_bool b + (of_bool c :: int)"
  by (cases a; cases b; cases c) simp_all

lemma year_step: "365 * (y + 1) + a - b + c = 365 * y + a' - b' + c' + 365 + (a - a' - (b - b') + (c - c'))" for y a b c :: int
  by (simp add: algebra_simps)

lemma days_before_year_Suc: "days_before_year (y + 1) = days_before_year y + 365 + of_bool (leap y)"
proof -
  have "(4 :: int) dvd 100" "(100 :: int) dvd 400" by simp_all
  then have "100 dvd y \<longrightarrow> 4 dvd y" "400 dvd y \<longrightarrow> 100 dvd y" by (blast intro: dvd_trans)+
  then have l: "of_bool (leap y) = of_bool (4 dvd y) - of_bool (100 dvd y) + (of_bool (400 dvd y) :: int)"
    unfolding leap_def by (rule of_bool_leap)
  have d: "of_bool (4 dvd y) = y div 4 - (y - 1) div 4" "of_bool (100 dvd y) = y div 100 - (y - 1) div 100"
    "of_bool (400 dvd y) = y div 400 - (y - 1) div 400"
    by (rule div_step [symmetric]; simp)+
  show ?thesis unfolding l d days_before_year_def add_diff_cancel_right' by (rule year_step)
qed

lemma next_day_refines:
  assumes "valid_tm t"
  shows "valid_tm (next_day t) \<and> tm_days (next_day t) = tm_days t + 1
    \<and> (tm_wday (next_day t) - tm_days (next_day t)) mod 7 = (tm_wday t - tm_days t) mod 7
    \<and> tm_hour (next_day t) = tm_hour t \<and> tm_min (next_day t) = tm_min t \<and> tm_sec (next_day t) = tm_sec t"
proof -
  define w where "w = (if tm_wday t + 1 \<ge> 7 then 0 else tm_wday t + 1)"
  let ?y = "tm_year t + 1900"
  let ?len = "month_length ?y (tm_mon t)"
  have v: "0 \<le> tm_mon t" "tm_mon t < 12" "1 \<le> tm_mday t" "tm_mday t \<le> ?len" "0 \<le> tm_wday t" "tm_wday t < 7"
    using assms by (simp_all add: valid_tm_def)
  have w: "0 \<le> w \<and> w < 7 \<and> (w - (d + 1)) mod 7 = (tm_wday t - d) mod 7" for d
  proof (cases "tm_wday t = 6")
    case True
    then have "w - (d + 1) = (tm_wday t - d) + (-1) * 7" by (simp add: w_def)
    then have "(w - (d + 1)) mod 7 = (tm_wday t - d) mod 7" by (simp only: mod_mult_self1)
    then show ?thesis using True by (simp add: w_def)
  qed (use v in \<open>auto simp: w_def\<close>)
  have nd: "next_day t = (if tm_mday t < ?len then t\<lparr>tm_wday := w, tm_mday := tm_mday t + 1\<rparr>
      else if tm_mon t < 11 then t\<lparr>tm_wday := w, tm_mday := 1, tm_mon := tm_mon t + 1\<rparr>
      else t\<lparr>tm_wday := w, tm_mday := 1, tm_mon := 0, tm_year := tm_year t + 1\<rparr>)"
    using v get_days_in_month_eq [OF v(1,2), of ?y] by (auto simp: next_day_def Let_def u_ge_def w_def)
  have ml: "1 \<le> month_length y m" for y m by (simp add: month_length_def)
  have d: "tm_days (next_day t) = tm_days t + 1"
  proof (cases "tm_mday t < ?len \<or> tm_mon t < 11")
    case True
    then show ?thesis using v days_before_month_Suc [OF v(1), of ?y] by (auto simp: nd tm_days_def)
  next
    case False
    then have "tm_mon t = 11" "tm_mday t = ?len" using v by linarith+
    then show ?thesis
      using days_before_month_Suc [of 11 ?y] days_before_month_12 [of ?y] days_before_year_Suc [of ?y]
      by (simp add: nd tm_days_def days_before_month_def [of _ 0])
  qed
  have o: "tm_wday (next_day t) = w" "tm_hour (next_day t) = tm_hour t" "tm_min (next_day t) = tm_min t" "tm_sec (next_day t) = tm_sec t"
    by (simp_all add: nd)
  have "valid_tm (next_day t)"
  proof -
    consider "tm_mday t < ?len" | "\<not> tm_mday t < ?len" "tm_mon t < 11" | "\<not> tm_mday t < ?len" "\<not> tm_mon t < 11" by blast
    then have "0 \<le> tm_mon (next_day t) \<and> tm_mon (next_day t) < 12 \<and> 1 \<le> tm_mday (next_day t) \<and>
        tm_mday (next_day t) \<le> month_length (tm_year (next_day t) + 1900) (tm_mon (next_day t))"
      by cases (use v(1-4) ml in \<open>simp_all add: nd\<close>)
    then show ?thesis using assms w unfolding valid_tm_def o by simp
  qed
  then show ?thesis unfolding o d using w [of "tm_days t"] by blast
qed


lemma next_second_refines:
  assumes "valid_tm t"
  shows "valid_tm (rtc_next_second t) \<and> tm_seconds (rtc_next_second t) = tm_seconds t + 1
    \<and> (tm_wday (rtc_next_second t) - tm_days (rtc_next_second t)) mod 7 = (tm_wday t - tm_days t) mod 7"
proof -
  have v: "0 \<le> tm_sec t" "tm_sec t < 60" "0 \<le> tm_min t" "tm_min t < 60" "0 \<le> tm_hour t" "tm_hour t < 24"
    using assms by (simp_all add: valid_tm_def)
  let ?d = "t\<lparr>tm_sec := 0, tm_min := 0, tm_hour := 0\<rparr>"
  have e: "rtc_next_second t =
      (if tm_sec t < 59 then t\<lparr>tm_sec := tm_sec t + 1\<rparr>
       else if tm_min t < 59 then t\<lparr>tm_sec := 0, tm_min := tm_min t + 1\<rparr>
       else if tm_hour t < 23 then t\<lparr>tm_sec := 0, tm_min := 0, tm_hour := tm_hour t + 1\<rparr>
       else next_day ?d)"
    using v by (simp add: rtc_next_second_def Let_def u_ge_def)
  show ?thesis
  proof (cases "tm_sec t < 59 \<or> tm_min t < 59 \<or> tm_hour t < 23")
    case True
    then show ?thesis using assms v unfolding e by (auto simp: valid_tm_def tm_seconds_def tm_days_def)
  next
    case False
    then have l: "tm_sec t = 59" "tm_min t = 59" "tm_hour t = 23" using v by linarith+
    have "valid_tm ?d" using assms by (simp add: valid_tm_def)
    note n = next_day_refines [OF this]
    have d: "tm_days ?d = tm_days t" "tm_wday ?d = tm_wday t" by (simp_all add: tm_days_def)
    have x: "rtc_next_second t = next_day ?d" using l by (simp add: e)
    have "tm_seconds (next_day ?d) = tm_seconds t + 1" using n l d by (simp add: tm_seconds_def)
    then show ?thesis using n unfolding x d by blast
  qed
qed


section \<open>The encoding of the date\<close>

lemma cmos_set [simp]:
  "i < length (cmos_data s) \<Longrightarrow> cmos (set_cmos i v s) j = (if j = i then v else cmos s j)"
  by (simp add: cmos_def set_cmos_def nth_list_update)

lemma set_cmos_frame [simp]:
  "length (cmos_data (set_cmos i v s)) = length (cmos_data s)" "current_tm (set_cmos i v s) = current_tm s"
  "base_year (set_cmos i v s) = base_year s" "rtc_irq (set_cmos i v s) = rtc_irq s" "sqw_irq (set_cmos i v s) = sqw_irq s"
  "cmos_index (set_cmos i v s) = cmos_index s" "irq_coalesced (set_cmos i v s) = irq_coalesced s"
  "irq_reinject_on_ack_count (set_cmos i v s) = irq_reinject_on_ack_count s" "next_periodic_time (set_cmos i v s) = next_periodic_time s"
  "next_second_time (set_cmos i v s) = next_second_time s" "period (set_cmos i v s) = period s"
  by (simp_all add: set_cmos_def)

lemma bcd_set [simp]:
  "i < length (cmos_data s) \<Longrightarrow> i \<noteq> RTC_REG_B \<Longrightarrow> rtc_to_bcd (set_cmos i v s) = rtc_to_bcd s"
  "i < length (cmos_data s) \<Longrightarrow> i \<noteq> RTC_REG_B \<Longrightarrow> rtc_from_bcd (set_cmos i v s) = rtc_from_bcd s"
  by (simp_all add: fun_eq_iff rtc_to_bcd_def rtc_from_bcd_def)

definition bcd_roundtrip :: "int \<Rightarrow> bool" where
  "bcd_roundtrip a \<longleftrightarrow>
     (let b = (word_of_int (push_bit 4 (a div 10) OR (a mod 10)) :: u8)
      in drop_bit 4 (uint b) * 10 + (uint b AND 0x0f) = a \<and> (a < 80 \<longrightarrow> b AND 0x7f = b \<and> (b OR 0x80) AND 0x7f = b \<and> b AND 0x80 = 0))"

definition bin_roundtrip :: "int \<Rightarrow> bool" where
  "bin_roundtrip a \<longleftrightarrow>
     (let b = (word_of_int a :: u8)
      in uint b = a \<and> (a < 80 \<longrightarrow> b AND 0x7f = b \<and> (b OR 0x80) AND 0x7f = b \<and> b AND 0x80 = 0))"

lemma roundtrips_all: "list_all (\<lambda>a. bcd_roundtrip (int a) \<and> bin_roundtrip (int a)) [0..<100]"
  by code_simp

lemma roundtrip_100: "bcd_roundtrip a \<and> bin_roundtrip a" if "0 \<le> a" "a < 100"
  using roundtrips_all that by (auto simp: list_all_iff dest!: bspec [of _ _ "nat a"])

lemma c_div_mod: "0 \<le> a \<Longrightarrow> a sdiv 10 = a div 10 \<and> a smod 10 = a mod 10" for a :: int
  by (cases "a = 0") (simp_all add: signed_divide_int_def signed_modulo_int_def)

lemma from_to_bcd:
  assumes "0 \<le> a" "a < 100"
  shows "rtc_from_bcd s (word_of_int (rtc_to_bcd s a)) = a"
    and "a < 80 \<Longrightarrow> word_of_int (rtc_to_bcd s a) AND 0x7f = (word_of_int (rtc_to_bcd s a) :: u8)"
    and "a < 80 \<Longrightarrow> (word_of_int (rtc_to_bcd s a) OR 0x80) AND 0x7f = (word_of_int (rtc_to_bcd s a) :: u8)"
    and "a < 80 \<Longrightarrow> word_of_int (rtc_to_bcd s a) AND 0x80 = (0 :: u8)"
  using roundtrip_100 [OF assms] c_div_mod [OF assms(1)]
  by (simp_all add: rtc_to_bcd_def rtc_from_bcd_def bcd_roundtrip_def bin_roundtrip_def Let_def)


definition year_field :: "int \<Rightarrow> int" where
  "year_field d = (let year = d smod 100 in if year < 0 then year + 100 else year)"

lemma year_fields_all: "list_all (\<lambda>d. year_field (int d - 1900) = int d) [0..<100]"
  by code_simp

lemma year_field_eq: "0 \<le> d \<Longrightarrow> d < 100 \<Longrightarrow> year_field (d - 1900) = d"
  using year_fields_all by (auto simp: list_all_iff dest!: bspec [of _ _ "nat d"])

definition hours_field :: "RTCState \<Rightarrow> u8" where
  "hours_field s =
     (let h = tm_hour (current_tm s) in
      if cmos s RTC_REG_B AND REG_B_24H \<noteq> 0 then word_of_int (rtc_to_bcd s h)
      else if h \<ge> 12 then word_of_int (rtc_to_bcd s (h smod 12)) OR 0x80
      else word_of_int (rtc_to_bcd s (h smod 12)))"

lemma copy_date_cmos:
  assumes "length (cmos_data s) = 128"
  shows "cmos (rtc_copy_date s) i =
    (let t = current_tm s in
     if i = RTC_SECONDS then word_of_int (rtc_to_bcd s (tm_sec t))
     else if i = RTC_MINUTES then word_of_int (rtc_to_bcd s (tm_min t))
     else if i = RTC_HOURS then hours_field s
     else if i = RTC_DAY_OF_WEEK then word_of_int (rtc_to_bcd s (tm_wday t + 1))
     else if i = RTC_DAY_OF_MONTH then word_of_int (rtc_to_bcd s (tm_mday t))
     else if i = RTC_MONTH then word_of_int (rtc_to_bcd s (tm_mon t + 1))
     else if i = RTC_YEAR then word_of_int (rtc_to_bcd s (year_field (tm_year t - base_year s)))
     else cmos s i)"
proof -
  let ?t = "current_tm s"
  define a where "a = set_cmos RTC_MINUTES (word_of_int (rtc_to_bcd s (tm_min ?t))) (set_cmos RTC_SECONDS (word_of_int (rtc_to_bcd s (tm_sec ?t))) s)"
  have a: "length (cmos_data a) = 128" "current_tm a = ?t" "base_year a = base_year s" "rtc_to_bcd a = rtc_to_bcd s"
    "cmos a RTC_REG_B = cmos s RTC_REG_B"
    using assms by (simp_all add: a_def rtc_regs)
  define b where "b = set_cmos RTC_HOURS (hours_field s) a"
  have b: "length (cmos_data b) = 128" "current_tm b = ?t" "base_year b = base_year s" "rtc_to_bcd b = rtc_to_bcd s"
    using a by (simp_all add: b_def rtc_regs)
  have twice: "set_cmos i v (set_cmos i w x) = set_cmos i v x" for i v w x by (simp add: set_cmos_def)
  have c: "rtc_copy_date s =
      set_cmos RTC_YEAR (word_of_int (rtc_to_bcd s (year_field (tm_year ?t - base_year s))))
       (set_cmos RTC_MONTH (word_of_int (rtc_to_bcd s (tm_mon ?t + 1)))
         (set_cmos RTC_DAY_OF_MONTH (word_of_int (rtc_to_bcd s (tm_mday ?t)))
           (set_cmos RTC_DAY_OF_WEEK (word_of_int (rtc_to_bcd s (tm_wday ?t + 1))) b)))"
    using assms unfolding rtc_copy_date_def
    by (simp add: Let_def year_field_def b_def a_def hours_field_def twice rtc_regs)
  show ?thesis unfolding c Let_def using assms a b by (simp add: b_def a_def rtc_regs)
qed


lemma copy_date_frame [simp]:
  "length (cmos_data (rtc_copy_date s)) = length (cmos_data s)" "current_tm (rtc_copy_date s) = current_tm s"
  "base_year (rtc_copy_date s) = base_year s" "rtc_irq (rtc_copy_date s) = rtc_irq s" "sqw_irq (rtc_copy_date s) = sqw_irq s"
  "cmos_index (rtc_copy_date s) = cmos_index s" "irq_coalesced (rtc_copy_date s) = irq_coalesced s"
  "irq_reinject_on_ack_count (rtc_copy_date s) = irq_reinject_on_ack_count s"
  "period (rtc_copy_date s) = period s" "next_second_time (rtc_copy_date s) = next_second_time s"
  by (simp_all add: rtc_copy_date_def Let_def)

lemma month_length_le: "month_length y m \<le> 31"
  by (simp add: month_length_def)

lemma c_mod_12: "0 \<le> h \<Longrightarrow> h < 24 \<Longrightarrow> h smod 12 = (if h \<ge> 12 then h - 12 else h)" for h :: int
  using int_mod_pos_eq [of h 12 1 "h - 12"] by (cases "h = 0") (auto simp: signed_modulo_int_def)

lemma hours_roundtrip:
  assumes "length (cmos_data s) = 128" "0 \<le> tm_hour (current_tm s)" "tm_hour (current_tm s) < 24"
  shows "(let hour = rtc_from_bcd s (hours_field s AND 0x7f)
      in if cmos s RTC_REG_B AND REG_B_24H = 0 \<and> hours_field s AND 0x80 \<noteq> 0 then hour + 12 else hour) = tm_hour (current_tm s)"
proof -
  let ?h = "tm_hour (current_tm s)"
  have m: "?h smod 12 = (if ?h \<ge> 12 then ?h - 12 else ?h)" using assms(2,3) by (rule c_mod_12)
  have b: "rtc_from_bcd s (word_of_int (rtc_to_bcd s a)) = a" "word_of_int (rtc_to_bcd s a) AND 0x7f = (word_of_int (rtc_to_bcd s a) :: u8)"
    "(word_of_int (rtc_to_bcd s a) OR 0x80) AND 0x7f = (word_of_int (rtc_to_bcd s a) :: u8)"
    "word_of_int (rtc_to_bcd s a) AND 0x80 = (0 :: u8)" if "0 \<le> a" "a < 24" for a
    using from_to_bcd [of a s] that by simp_all
  have "(x OR 0x80) AND 0x80 \<noteq> (0 :: u8)" for x :: u8
  proof -
    have "(x OR 0x80) AND 0x80 = (0x80 :: u8)" by (rule u8_eqI) (auto simp: bits)
    then show ?thesis by simp
  qed
  then show ?thesis using b assms m by (simp add: hours_field_def Let_def)
qed

text \<open>
  C29: the date registers of the clock carry the date. In each of the four formats of register B
  (BCD or binary, 24 or 12 hours), copying any valid date of the century from the base year into the
  registers and taking the time from the registers again gives the same date.
\<close>

theorem rtc_date_roundtrip:
  assumes "length (cmos_data s) = 128" "valid_tm (current_tm s)"
    and "base_year s \<le> tm_year (current_tm s) + 1900" "tm_year (current_tm s) + 1900 < base_year s + 100"
  shows "current_tm (rtc_set_time (rtc_copy_date s)) = current_tm s"
proof -
  let ?c = "rtc_copy_date s" and ?t = "current_tm s"
  note c = copy_date_cmos [OF assms(1)]
  have B: "cmos ?c RTC_REG_B = cmos s RTC_REG_B" by (simp add: c rtc_regs)
  then have f: "rtc_from_bcd ?c = rtc_from_bcd s" by (simp add: fun_eq_iff rtc_from_bcd_def)
  have v: "0 \<le> tm_hour ?t" "tm_hour ?t < 24" "tm_mday ?t \<le> 31"
    using assms(2) month_length_le [of "tm_year ?t + 1900" "tm_mon ?t"] by (simp_all add: valid_tm_def)
  have y: "year_field (tm_year ?t - base_year s) = tm_year ?t + 1900 - base_year s"
    using year_field_eq [of "tm_year ?t + 1900 - base_year s"] assms(3,4) by (simp add: algebra_simps)
  have b: "rtc_from_bcd s (word_of_int (rtc_to_bcd s a)) = a" if "0 \<le> a" "a < 100" for a
    using that by (rule from_to_bcd)
  have r: "cmos ?c RTC_SECONDS = word_of_int (rtc_to_bcd s (tm_sec ?t))" "cmos ?c RTC_MINUTES = word_of_int (rtc_to_bcd s (tm_min ?t))"
    "cmos ?c RTC_HOURS = hours_field s" "cmos ?c RTC_DAY_OF_WEEK = word_of_int (rtc_to_bcd s (tm_wday ?t + 1))"
    "cmos ?c RTC_DAY_OF_MONTH = word_of_int (rtc_to_bcd s (tm_mday ?t))" "cmos ?c RTC_MONTH = word_of_int (rtc_to_bcd s (tm_mon ?t + 1))"
    "cmos ?c RTC_YEAR = word_of_int (rtc_to_bcd s (tm_year ?t + 1900 - base_year s))"
    unfolding c Let_def y by (simp_all add: rtc_regs)
  have "current_tm (rtc_set_time ?c) = \<lparr>tm_sec = tm_sec ?t, tm_min = tm_min ?t, tm_hour = tm_hour ?t, tm_mday = tm_mday ?t,
      tm_mon = tm_mon ?t, tm_year = tm_year ?t, tm_wday = tm_wday ?t\<rparr>"
    using hours_roundtrip [OF assms(1) v(1,2)] assms(2-4) v(3)
    by (simp add: rtc_set_time_def Let_def r B f b valid_tm_def)
  then show ?thesis by simp
qed


section \<open>The interrupt line\<close>

text \<open>
  What happens to the clock: accesses to its two ports, the expiry of an armed timer, a reset, and
  cells of the CMOS memory that the machine fills in. The option \<open>rtc_td_hack\<close> does not change
  while the machine runs.
\<close>

datatype rtc_event =
  CmosWrite u32 u32 | CmosRead u32 | PeriodicTimer | CoalescedTimer | SecondTimer | SecondTimer2 | RtcReset | SetMemory nat int

fun rtc_act :: "RTCState \<Rightarrow> rtc_env \<times> rtc_event \<Rightarrow> RTCState" where
  "rtc_act s (e, CmosWrite a v) = cmos_ioport_write e s a v"
| "rtc_act s (e, CmosRead a) = snd (cmos_ioport_read e s a)"
| "rtc_act s (e, PeriodicTimer) = (if periodic_timer s = None then s else rtc_periodic_timer e (s\<lparr>periodic_timer := None\<rparr>))"
| "rtc_act s (e, CoalescedTimer) = (if coalesced_timer s = None then s else rtc_coalesced_timer e (s\<lparr>coalesced_timer := None\<rparr>))"
| "rtc_act s (e, SecondTimer) = (if second_timer s = None then s else rtc_update_second (s\<lparr>second_timer := None\<rparr>))"
| "rtc_act s (e, SecondTimer2) = (if second_timer2 s = None then s else rtc_update_second2 (s\<lparr>second_timer2 := None\<rparr>))"
| "rtc_act s (e, RtcReset) = rtc_reset e s"
| "rtc_act s (e, SetMemory n v) = rtc_set_memory (int n + 14) v s"

definition rtc_step :: "bool \<Rightarrow> RTCState \<Rightarrow> rtc_env \<times> rtc_event \<Rightarrow> RTCState" where
  "rtc_step td s ev = (case ev of (e, v) \<Rightarrow> rtc_act s (e\<lparr>rtc_td_hack := td\<rparr>, v))"

definition rtc_inv :: "RTCState \<Rightarrow> bool" where
  "rtc_inv s \<longleftrightarrow> length (cmos_data s) = 128 \<and> cmos_index s < 128 \<and>
     line_level (rtc_irq s) = of_bool (bit (cmos s RTC_REG_C) 7) \<and>
     (irq_coalesced s \<noteq> 0 \<longrightarrow> irq_reinject_on_ack_count s < RTC_REINJECT_ON_ACK_COUNT \<longrightarrow> bit (cmos s RTC_REG_C) 7)"

lemma cmos_frame [simp]:
  "cmos (s\<lparr>cmos_index := x\<rparr>) = cmos s" "cmos (s\<lparr>current_tm := t\<rparr>) = cmos s" "cmos (s\<lparr>rtc_irq := l\<rparr>) = cmos s"
  "cmos (s\<lparr>sqw_irq := q\<rparr>) = cmos s" "cmos (s\<lparr>periodic_timer := a\<rparr>) = cmos s" "cmos (s\<lparr>next_periodic_time := b\<rparr>) = cmos s"
  "cmos (s\<lparr>next_second_time := b\<rparr>) = cmos s" "cmos (s\<lparr>irq_reinject_on_ack_count := c\<rparr>) = cmos s"
  "cmos (s\<lparr>irq_coalesced := d\<rparr>) = cmos s" "cmos (s\<lparr>period := d\<rparr>) = cmos s" "cmos (s\<lparr>coalesced_timer := a\<rparr>) = cmos s"
  "cmos (s\<lparr>second_timer := a\<rparr>) = cmos s" "cmos (s\<lparr>second_timer2 := a\<rparr>) = cmos s" "cmos (s\<lparr>rtc_change := r\<rparr>) = cmos s"
  by (simp_all add: fun_eq_iff cmos_def)

text \<open>Setting a cell other than register C keeps the invariant; so do the fields it does not mention.\<close>

lemma inv_set_cmos: "rtc_inv s \<Longrightarrow> i \<noteq> RTC_REG_C \<Longrightarrow> i < 128 \<Longrightarrow> rtc_inv (set_cmos i v s)"
  by (simp add: rtc_inv_def)

lemma inv_frame [simp]:
  "rtc_inv (s\<lparr>current_tm := t\<rparr>) = rtc_inv s" "rtc_inv (s\<lparr>sqw_irq := q\<rparr>) = rtc_inv s" "rtc_inv (s\<lparr>periodic_timer := a\<rparr>) = rtc_inv s"
  "rtc_inv (s\<lparr>next_periodic_time := b\<rparr>) = rtc_inv s" "rtc_inv (s\<lparr>next_second_time := b\<rparr>) = rtc_inv s"
  "rtc_inv (s\<lparr>period := d\<rparr>) = rtc_inv s" "rtc_inv (s\<lparr>coalesced_timer := a\<rparr>) = rtc_inv s"
  "rtc_inv (s\<lparr>second_timer := a\<rparr>) = rtc_inv s" "rtc_inv (s\<lparr>second_timer2 := a\<rparr>) = rtc_inv s"
  "rtc_inv (s\<lparr>rtc_change := r\<rparr>) = rtc_inv s"
  by (simp_all add: rtc_inv_def)

lemma inv_coalesced: "rtc_inv s \<Longrightarrow> (irq_coalesced s = 0 \<Longrightarrow> c = 0) \<Longrightarrow> rtc_inv (s\<lparr>irq_coalesced := c\<rparr>)"
  by (auto simp: rtc_inv_def)

lemma inv_raise:
  assumes "length (cmos_data s) = 128" "cmos_index s < 128" "bit v 7"
  shows "rtc_inv (raise_irq (set_cmos RTC_REG_C v s))"
  using assms by (simp add: rtc_inv_def raise_irq_def rtc_regs)

lemma inv_copy: "rtc_inv s \<Longrightarrow> rtc_inv (rtc_copy_date s)"
  using copy_date_cmos [of s RTC_REG_C] by (simp add: rtc_inv_def rtc_regs)

lemma inv_set_time: "rtc_inv (rtc_set_time s) = rtc_inv s"
  by (simp add: rtc_set_time_def Let_def rtc_inv_def)

lemma inv_timer_update: "rtc_inv s \<Longrightarrow> rtc_inv (rtc_timer_update s now)"
  by (auto simp: rtc_timer_update_def Let_def intro!: inv_coalesced)

lemma inv_coalesced_update: "rtc_inv s \<Longrightarrow> rtc_inv (rtc_coalesced_timer_update e s)"
  by (simp add: rtc_coalesced_timer_update_def Let_def)


definition rtc_td_inv :: "bool \<Rightarrow> RTCState \<Rightarrow> bool" where
  "rtc_td_inv td s \<longleftrightarrow> rtc_inv s \<and> (\<not> td \<longrightarrow> irq_coalesced s = 0)"

lemma coalesced_frame [simp]:
  "irq_coalesced (raise_irq s) = irq_coalesced s" "irq_coalesced (lower_irq s) = irq_coalesced s"
  "irq_coalesced (rtc_set_time s) = irq_coalesced s" "irq_coalesced (rtc_coalesced_timer_update e s) = irq_coalesced s"
  "irq_reinject_on_ack_count (lower_irq s) = irq_reinject_on_ack_count s"
  by (simp_all add: raise_irq_def lower_irq_def rtc_set_time_def rtc_coalesced_timer_update_def Let_def)

lemma coalesced_timer_0: "irq_coalesced s = 0 \<Longrightarrow> irq_coalesced (rtc_timer_update s now) = 0"
  by (simp add: rtc_timer_update_def Let_def)

lemma or_c0_7: "bit (x OR 0xc0) 7" "bit (x OR 0xa0) 7" "bit (x OR REG_C_IRQF) 7" for x :: u8
  by (simp_all add: bits REG_C_IRQF_def)

lemma invD: "rtc_inv s \<Longrightarrow> length (cmos_data s) = 128 \<and> cmos_index s < 128"
  by (simp add: rtc_inv_def)

lemma inv_coalesced_timer: "rtc_inv s \<Longrightarrow> rtc_inv (rtc_coalesced_timer e s)"
proof -
  assume i: "rtc_inv s"
  note r = inv_raise [OF conjunct1 [OF invD [OF i]] conjunct2 [OF invD [OF i]] or_c0_7(1)]
  have "rtc_inv (s\<lparr>irq_coalesced := c\<rparr>)" if "rtc_inv s" "bit (cmos s RTC_REG_C) 7" for s c
    using that by (simp add: rtc_inv_def)
  note d = this [OF r]
  have c: "bit (cmos (raise_irq (set_cmos RTC_REG_C (cmos s RTC_REG_C OR 0xc0) s)) RTC_REG_C) 7"
    using invD [OF i] by (simp add: raise_irq_def rtc_regs or_c0_7)
  show ?thesis unfolding rtc_coalesced_timer_def Let_def
    by (intro inv_coalesced_update) (use i r d [OF c] in simp)
qed

lemma inv_periodic_timer: "rtc_inv s \<Longrightarrow> rtc_inv (rtc_periodic_timer e s)"
proof -
  assume i: "rtc_inv s"
  define t where "t = rtc_timer_update s (next_periodic_time s)"
  have t: "rtc_inv t" using i by (simp add: t_def inv_timer_update)
  have l: "length (cmos_data t) = 128" "cmos_index t < 128" using invD [OF t] by simp_all
  define c where "c = set_cmos RTC_REG_C (cmos t RTC_REG_C OR 0xc0) t"
  have c0: "rtc_inv (raise_irq (c\<lparr>irq_reinject_on_ack_count := 0\<rparr>))" "rtc_inv (raise_irq c)"
    "rtc_inv (raise_irq (c\<lparr>irq_reinject_on_ack_count := 0\<rparr>)\<lparr>irq_coalesced := k\<rparr>)" "rtc_inv (raise_irq c\<lparr>irq_coalesced := k\<rparr>)" for k
    using l by (simp_all add: rtc_inv_def raise_irq_def c_def rtc_regs or_c0_7)
  have "rtc_inv (if cmos t RTC_REG_B AND REG_B_PIE \<noteq> 0 then
      (let s = set_cmos RTC_REG_C (cmos t RTC_REG_C OR 0xc0) t in
       if rtc_td_hack e then
         (let s = (if irq_reinject_on_ack_count s \<ge> RTC_REINJECT_ON_ACK_COUNT then s\<lparr>irq_reinject_on_ack_count := 0\<rparr> else s);
              s = raise_irq s
          in if \<not> irq_delivered e then rtc_coalesced_timer_update e (s\<lparr>irq_coalesced := irq_coalesced s + 1\<rparr>) else s)
       else raise_irq s)
     else t)"
    unfolding c_def [symmetric] Let_def using t c0 by (simp add: inv_coalesced_update)
  then show ?thesis unfolding rtc_periodic_timer_def t_def [symmetric] by (simp add: Let_def)
qed

lemma inv_second2: "rtc_inv s \<Longrightarrow> rtc_inv (rtc_update_second2 s)"
proof -
  assume i: "rtc_inv s"
  define a where "a = (if cmos s RTC_REG_B AND REG_B_SET = 0 then rtc_copy_date s else s)"
  have "rtc_inv a" using i by (simp add: a_def inv_copy)
  then have b: "rtc_inv (rtc_check_alarm a)"
    using invD by (auto simp: rtc_check_alarm_def intro!: inv_raise or_c0_7)
  define c where "c = set_cmos RTC_REG_C (cmos (rtc_check_alarm a) RTC_REG_C OR REG_C_UF) (rtc_check_alarm a)"
  have c: "rtc_inv c" using b by (simp add: c_def rtc_inv_def rtc_regs REG_C_UF_def bits)
  then have "rtc_inv (if cmos c RTC_REG_B AND REG_B_UIE \<noteq> 0 then raise_irq (set_cmos RTC_REG_C (cmos c RTC_REG_C OR REG_C_IRQF) c) else c)"
    using invD by (auto intro!: inv_raise or_c0_7)
  then show ?thesis unfolding rtc_update_second2_def Let_def a_def [symmetric] c_def [symmetric]
    by (simp add: inv_set_cmos rtc_regs)
qed


lemma inv_second: "rtc_inv s \<Longrightarrow> rtc_inv (rtc_update_second s)"
  by (simp add: rtc_update_second_def Let_def inv_set_cmos rtc_regs)

lemma inv_read: "rtc_inv s \<Longrightarrow> rtc_inv (snd (cmos_ioport_read e s a))"
  by (auto simp: cmos_ioport_read_def rtc_read_reg_c_def Let_def rtc_inv_def raise_irq_def lower_irq_def rtc_regs line_level_def)

lemma and_7f_less: "ucast (x AND 0x7f :: u32) < (128 :: u8)"
proof -
  have "x AND 0x7f \<le> 0x7f" by (rule word_and_le1)
  then have "unat (x AND 0x7f) \<le> 127" using word_le_nat_alt [of "x AND 0x7f" "0x7f"] by simp
  then show ?thesis by (simp add: word_less_nat_alt unsigned_ucast_eq take_bit_nat_eq_self)
qed

lemma index_bound: "rtc_inv s \<Longrightarrow> unat (cmos_index s) < 128"
  by (auto simp: rtc_inv_def word_less_nat_alt)

lemma inv_write: "rtc_inv s \<Longrightarrow> rtc_inv (cmos_ioport_write e s a v)"
proof -
  assume i: "rtc_inv s"
  have idx: "rtc_inv (s\<lparr>cmos_index := ucast (v AND 0x7f)\<rparr>)"
    using i and_7f_less [of v] by (simp add: rtc_inv_def)
  have b: "rtc_inv (rtc_write_reg_b e s x)" for x
    unfolding rtc_write_reg_b_def Let_def split_beta
    by (intro inv_timer_update) (use i in \<open>auto simp: inv_set_cmos inv_copy inv_set_time rtc_regs\<close>)
  show ?thesis
    using i index_bound [OF i] idx b
    by (auto simp: cmos_ioport_write_def Let_def inv_set_cmos inv_set_time inv_timer_update rtc_regs)
qed

lemma inv_reset: "rtc_td_inv td s \<Longrightarrow> rtc_td_inv td (rtc_reset (e\<lparr>rtc_td_hack := td\<rparr>) s)"
  by (auto simp: rtc_td_inv_def rtc_inv_def rtc_reset_def Let_def lower_irq_def rtc_regs rtc_bits bits)


lemma inv_set_memory: "rtc_inv s \<Longrightarrow> rtc_inv (rtc_set_memory (int n + 14) v s)"
  by (auto simp: rtc_set_memory_def rtc_regs intro!: inv_set_cmos)

lemma coalesced_0:
  assumes "irq_coalesced s = 0"
  shows "irq_coalesced (cmos_ioport_write e s a v) = 0" "irq_coalesced (snd (cmos_ioport_read e s a)) = 0"
    "irq_coalesced (rtc_coalesced_timer e s) = 0" "\<not> rtc_td_hack e \<Longrightarrow> irq_coalesced (rtc_periodic_timer e s) = 0"
    "irq_coalesced (rtc_update_second s) = 0" "irq_coalesced (rtc_update_second2 s) = 0"
    "irq_coalesced (rtc_set_memory m v' s) = 0"
  using assms
  by (simp_all add: cmos_ioport_write_def rtc_write_reg_b_def split_beta cmos_ioport_read_def rtc_read_reg_c_def rtc_coalesced_timer_def
      rtc_periodic_timer_def rtc_update_second_def rtc_update_second2_def rtc_check_alarm_def rtc_set_memory_def Let_def coalesced_timer_0)

interpretation rtc_sys: inv_system "rtc_step td" "rtc_td_inv td" for td
proof
  fix s :: RTCState and ev :: "rtc_env \<times> rtc_event"
  assume s: "rtc_td_inv td s"
  obtain e v where ev: "ev = (e, v)" by fastforce
  have i: "rtc_inv s" and z: "\<not> td \<Longrightarrow> irq_coalesced s = 0" using s by (simp_all add: rtc_td_inv_def)
  show "rtc_td_inv td (rtc_step td s ev)"
    by (cases v)
       (use i z s in \<open>simp_all add: rtc_step_def ev rtc_td_inv_def coalesced_0 inv_write inv_read inv_periodic_timer inv_coalesced_timer
          inv_second inv_second2 inv_set_memory inv_reset [unfolded rtc_td_inv_def]\<close>)
qed


section \<open>Periodic interrupts\<close>

lemma unat_align: "unat (x AND NOT (shl1 k - 1)) = unat x div 2 ^ k * 2 ^ k" if "k < 64" for x :: u64
proof -
  have m: "shl1 k - 1 = (mask k :: u64)" using that by (simp add: shl1_def mask_eq_exp_minus_1 push_bit_eq_mult)
  have "x AND NOT (mask k) = push_bit k (drop_bit k x)"
    by (rule bit_word_eqI) (auto simp: bit_simps)
  moreover have "unat (push_bit k (drop_bit k x)) = unat x div 2 ^ k * 2 ^ k"
  proof -
    have "unat x < 2 ^ LENGTH(64)" by (rule unsigned_less)
    then have "unat x div 2 ^ k * 2 ^ k < 2 ^ 64"
      using le_less_trans [OF div_times_less_eq_dividend] by simp
    then show ?thesis unfolding unsigned_push_bit_eq unat_drop_bit_eq
      by (simp add: push_bit_eq_mult drop_bit_eq_div take_bit_nat_eq_self)
  qed
  ultimately show ?thesis by (simp only: m)
qed

lemma boundary:
  fixes t p :: nat
  assumes "0 < p" "c = t * 32768 div 1000000000" "n = (c div p + 1) * p"
  shows "t * 32768 < n * 1000000000" "(c div p) * p * 1000000000 \<le> t * 32768" "t < n * 1000000000 div 32768 + 1"
    "n * 1000000000 \<le> t * 32768 + p * 1000000000"
proof -
  have c: "c * 1000000000 \<le> t * 32768" "t * 32768 < (c + 1) * 1000000000"
    unfolding assms(2) by (simp_all add: dividend_less_div_times [of 1000000000, simplified])
  have d: "c div p * p \<le> c" "c < (c div p + 1) * p"
    using assms(1) by (simp_all add: dividend_less_div_times)
  have "c + 1 \<le> n" using d(2) unfolding assms(3) by linarith
  then have "(c + 1) * 1000000000 \<le> n * 1000000000" by (rule mult_le_mono1)
  with c(2) show a: "t * 32768 < n * 1000000000" by (rule less_le_trans)
  show b: "(c div p) * p * 1000000000 \<le> t * 32768" using c(1) d(1) by linarith
  show "t < n * 1000000000 div 32768 + 1"
  proof -
    have "t * 32768 div 32768 \<le> n * 1000000000 div 32768" using a by (intro div_le_mono) simp
    then show ?thesis by simp
  qed
  show "n * 1000000000 \<le> t * 32768 + p * 1000000000" using b unfolding assms(3) by (simp add: algebra_simps)
qed


lemma unat_mask4: "unat (x AND 0x0f :: u8) < 16"
proof -
  have "x AND 0x0f \<le> 0x0f" by (rule word_and_le1)
  then show ?thesis using word_le_nat_alt [of "x AND 0x0f" "0x0f"] by simp
qed

lemma unat_shl1: "k < LENGTH('a) \<Longrightarrow> unat (shl1 k :: 'a::len word) = 2 ^ k"
  unfolding shl1_def unsigned_push_bit_eq by (simp add: push_bit_eq_mult take_bit_nat_eq_self)

lemma ucast_shl1: "k < 32 \<Longrightarrow> (ucast (shl1 k :: u32) :: u64) = shl1 k"
  by (rule bit_word_eqI) (auto simp: bit_simps)

text \<open>
  C35: periodic interrupts keep time. When the rate and the enable bit are set, at any time below
  \<open>2\<^sup>62\<close> nanoseconds, the timer is armed strictly later than now, at the first boundary of the
  period of the 32768 Hz clock after now: the previous boundary is not later than now, and the armed
  time is at most one period (and one nanosecond) away.
\<close>

theorem rtc_periodic_next:
  assumes "cmos s RTC_REG_A AND 0x0f \<noteq> 0" "cmos s RTC_REG_B AND REG_B_PIE \<noteq> 0" "unat now < 2 ^ 62"
    and "s' = rtc_timer_update s now"
  shows "\<exists>k. unat (next_periodic_time s') = (k + 1) * unat (period s') * 1000000000 div 32768 + 1 \<and>
    k * unat (period s') * 1000000000 \<le> unat now * 32768 \<and>
    unat now * 32768 < (k + 1) * unat (period s') * 1000000000 \<and>
    unat now < unat (next_periodic_time s') \<and> periodic_timer s' = Some (next_periodic_time s')"
proof -
  define c where "c = unat (cmos s RTC_REG_A AND 0x0f)"
  have c: "0 < c" "c < 16" using assms(1) unat_mask4 by (simp_all add: c_def unat_gt_0)
  define d where "d = (if c \<le> 2 then c + 7 else c) - 1"
  have d: "d < 15" using c by (auto simp: d_def)
  define p where "p = (shl1 d :: u32)"
  have p: "unat p = 2 ^ d" using d by (simp add: p_def unat_shl1)
  define cur where "cur = muldiv64 now 32768 rtc_ticks_per_sec"
  define nxt where "nxt = (cur AND NOT (ucast p - 1)) + ucast p"
  have s': "period s' = p" "next_periodic_time s' = muldiv64 nxt rtc_ticks_per_sec 32768 + 1" "periodic_timer s' = Some (next_periodic_time s')"
    using assms(1,2) c(1) unfolding assms(4) rtc_timer_update_def Let_def c_def [symmetric] d_def [symmetric] p_def [symmetric] cur_def [symmetric] nxt_def [symmetric]
    by simp_all
  have n0: "unat now * 32768 div 1000000000 < 2 ^ 48" using assms(3) by simp
  then have cu: "unat cur = unat now * 32768 div 1000000000"
    by (simp add: cur_def muldiv64_nat rtc_ticks_per_sec_def)
  have up: "(ucast p :: u64) = shl1 d" "unat (ucast p :: u64) = 2 ^ d" using d by (simp_all add: p_def ucast_shl1 unat_shl1)
  let ?k = "unat cur div 2 ^ d"
  have pd: "(2 :: nat) ^ d \<le> 2 ^ 14" using d by (intro power_increasing) auto
  have al: "unat (cur AND NOT (ucast p - 1)) = ?k * 2 ^ d" unfolding up(1) by (rule unat_align) (use d in simp)
  have kle: "?k * 2 ^ d \<le> unat cur" by (rule div_times_less_eq_dividend)
  then have "?k * 2 ^ d + 2 ^ d \<le> 2 ^ 48 + 2 ^ 14" using n0 cu pd by linarith
  also have "(2 :: nat) ^ 48 + 2 ^ 14 < 2 ^ 64" by simp
  finally have "(?k * 2 ^ d + 2 ^ d) mod 2 ^ 64 = ?k * 2 ^ d + 2 ^ d" by (rule mod_less)
  moreover have L: "2 ^ LENGTH(64) = (2 :: nat) ^ 64" by simp
  ultimately have "unat nxt = ?k * 2 ^ d + 2 ^ d"
    unfolding nxt_def unat_word_ariths al up(2) by (simp only: L)
  then have nx: "unat nxt = (?k + 1) * 2 ^ d" by (simp only: add_mult_distrib mult_1)
  note b = boundary [OF _ cu refl, of "2 ^ d"]
  have "unat nxt * 1000000000 \<le> unat now * 32768 + 2 ^ d * 1000000000" using b(4) by (simp only: nx zero_less_power zero_less_numeral)
  also have "\<dots> \<le> 2 ^ 62 * 32768 + 2 ^ 14 * 1000000000"
    using less_imp_le [OF assms(3)] pd by (intro add_mono mult_le_mono1)
  also have "\<dots> < 2 ^ 63 * 32768" by simp
  finally have big: "unat nxt * 1000000000 div 32768 < 2 ^ 63" by (rule less_mult_imp_div_less)
  have tp: "unat rtc_ticks_per_sec = 1000000000" "unat (32768 :: u32) = 32768" by (simp_all add: rtc_ticks_per_sec_def)
  have "unat (muldiv64 nxt rtc_ticks_per_sec 32768) = unat nxt * 1000000000 div 32768 mod 2 ^ 64"
    using muldiv64_nat [of 32768 nxt rtc_ticks_per_sec] unfolding tp by simp
  also have "\<dots> = unat nxt * 1000000000 div 32768" using big by (intro mod_less) simp
  finally have m: "unat (muldiv64 nxt rtc_ticks_per_sec 32768) = unat nxt * 1000000000 div 32768" .
  have "(unat nxt * 1000000000 div 32768 + 1) mod 2 ^ 64 = unat nxt * 1000000000 div 32768 + 1"
    using big by (intro mod_less) simp
  then have "unat (next_periodic_time s') = unat nxt * 1000000000 div 32768 + 1"
    unfolding s'(2) unat_word_ariths(1) m by (simp only: L unsigned_1)
  then have "unat (next_periodic_time s') = (?k + 1) * unat (period s') * 1000000000 div 32768 + 1"
    unfolding s'(1) p nx .
  moreover have "?k * unat (period s') * 1000000000 \<le> unat now * 32768" unfolding s'(1) p by (rule b(2)) simp
  moreover have "unat now * 32768 < (?k + 1) * unat (period s') * 1000000000" unfolding s'(1) p by (rule b(1)) simp
  moreover have "unat now < (?k + 1) * unat (period s') * 1000000000 div 32768 + 1" unfolding s'(1) p by (rule b(3)) simp
  ultimately show ?thesis using s'(3) by (intro exI [of _ ?k]) metis
qed


section \<open>Properties\<close>

text \<open>
  C5: the clock follows the calendar. From a valid date, \<open>n\<close> updates advance the date by exactly
  \<open>n\<close> seconds of the Gregorian calendar, through minutes, hours, days, months of the right length,
  leap years and centuries; the date stays valid, and the day of the week stays in step with it.
\<close>

theorem rtc_calendar:
  assumes "valid_tm t"
  shows "valid_tm ((rtc_next_second ^^ n) t) \<and> tm_seconds ((rtc_next_second ^^ n) t) = tm_seconds t + int n \<and>
    (tm_wday ((rtc_next_second ^^ n) t) - tm_days ((rtc_next_second ^^ n) t)) mod 7 = (tm_wday t - tm_days t) mod 7"
proof (induction n)
  case (Suc n)
  let ?u = "(rtc_next_second ^^ n) t"
  have e: "(rtc_next_second ^^ Suc n) t = rtc_next_second ?u" by simp
  from Suc have "valid_tm ?u" by blast
  from next_second_refines [OF this] Suc show ?case unfolding e by simp
qed (use assms in simp)

lemma rtc_init_inv: "rtc_td_inv td (rtc_init e host year)"
proof -
  let ?z = "set_cmos RTC_REG_D 0x80 (set_cmos RTC_REG_C 0 (set_cmos RTC_REG_B 0x02 (set_cmos RTC_REG_A 0x26 (rtc_zero year))))"
  have "rtc_inv ?z" by (simp add: rtc_inv_def rtc_zero_def rtc_regs)
  then have "rtc_inv (rtc_set_date host ?z)" unfolding rtc_set_date_def by (intro inv_copy) simp
  then have "rtc_inv (rtc_set_memory 0x37 v (rtc_set_memory 0x32 v (rtc_set_date host ?z)))" for v
    using inv_set_memory [of _ 36 v] inv_set_memory [of _ 41 v] by simp
  moreover have "irq_coalesced (rtc_set_date_from_host host ?z) = 0"
    by (simp add: rtc_set_date_from_host_def rtc_set_date_def Let_def rtc_set_memory_def rtc_zero_def)
  ultimately show ?thesis
    by (simp add: rtc_init_def rtc_initfn_def Let_def rtc_td_inv_def rtc_set_date_from_host_def)
qed

text \<open>
  C18: the interrupt line of the clock is always right. From initialisation with any date of the host,
  whatever the guest writes and reads, whichever timers expire and however interrupts are delivered
  or coalesced, the line is high exactly when the interrupt flag of register C is set, and the
  index the guest selects stays within the 128 cells.
\<close>

theorem rtc_irq_faithful:
  "let s = foldl (rtc_step td) (rtc_init e host year) es in
     line_level (rtc_irq s) = of_bool (bit (cmos s RTC_REG_C) 7) \<and>
     unat (cmos_index s) < length (cmos_data s) \<and> length (cmos_data s) = 128"
proof -
  have "rtc_td_inv td (rtc_init e host year)" by (rule rtc_init_inv)
  from rtc_sys.inv_run [OF this, of es] show ?thesis
    using index_bound by (auto simp: Let_def rtc_td_inv_def rtc_inv_def)
qed

lemma index_7f:
  assumes "i < 128" shows "ucast (of_nat (i + (if nmi then 128 else 0)) AND 0x7f :: u32) = (of_nat i :: u8)"
proof -
  have "(of_nat (i + (if nmi then 128 else 0)) AND 0x7f :: u32) = of_nat ((i + (if nmi then 128 else 0)) mod 128)"
  proof -
    have m: "(0x7f :: u32) = mask 7" by (simp add: mask_eq_exp_minus_1)
    show ?thesis unfolding m take_bit_eq_mask [symmetric] take_bit_of_nat take_bit_nat_def by simp
  qed
  also have "\<dots> = of_nat i" using assms by simp
  finally have "ucast (of_nat (i + (if nmi then 128 else 0)) AND 0x7f :: u32) = (ucast (of_nat i :: u32) :: u8)" by (rule arg_cong)
  also have "\<dots> = of_nat i" by (rule bit_word_eqI) (auto simp: bit_simps)
  finally show ?thesis .
qed

text \<open>
  The CMOS memory stores bytes. Writing a cell from 14 on through the two ports, with either
  value of the top bit of the index (which masks NMIs on hardware), and reading it back returns the
  byte, as long as nothing else is written; every other cell keeps its value.
\<close>

theorem rtc_cmos_memory:
  fixes v :: u8
  assumes "rtc_inv s" "14 \<le> i" "i < 128"
    and "s1 = cmos_ioport_write e s 0x70 (of_nat (i + (if nmi then 128 else 0)))"
    and "s2 = cmos_ioport_write e s1 0x71 (ucast v)"
  shows "cmos_ioport_read e s2 0x71 = (ucast v, s2) \<and> (\<forall>j. j \<noteq> i \<longrightarrow> cmos s2 j = cmos s j) \<and> current_tm s2 = current_tm s"
proof -
  have s1: "s1 = s\<lparr>cmos_index := of_nat i\<rparr>"
    using index_7f [OF assms(3), of nmi] unfolding assms(4) by (simp add: cmos_ioport_write_def)
  have u: "unat (of_nat i :: u8) = i" using assms(3) by (simp add: unat_of_nat)
  have "(ucast (ucast v :: u32) :: u8) = v" by (rule bit_word_eqI) (simp add: bit_simps)
  then have "s2 = set_cmos i v s1"
    using assms(2,3) u unfolding assms(5) s1 by (simp add: cmos_ioport_write_def rtc_regs)
  then show ?thesis using assms(1-3) u by (simp add: s1 cmos_ioport_read_def rtc_regs rtc_inv_def)
qed


text \<open>
  The 12-hour format departs from the chip's. Noon and midnight are coded as hour 0 instead of 12,
  so a guest that writes 12 PM as the chip wants it (BCD \<open>0x92\<close>) sets hour 24, and one that writes
  12 AM sets noon; and an hour alarm with the PM bit never matches any hour of the day.
\<close>

theorem rtc_12h_defects:
  assumes "rtc_inv s" "cmos s RTC_REG_B = 0"
    and "unat (cmos_index s) = RTC_HOURS"
  shows "tm_hour (current_tm (cmos_ioport_write e s 0x71 0x92)) = 24 \<and>
    tm_hour (current_tm (cmos_ioport_write e s 0x71 0x12)) = 12 \<and>
    cmos (rtc_copy_date (s\<lparr>current_tm := (current_tm s)\<lparr>tm_hour := 12\<rparr>\<rparr>)) RTC_HOURS = 0x80 \<and>
    (\<forall>t h. cmos t RTC_HOURS_ALARM AND 0xc0 = 0x80 \<longrightarrow> h < 24 \<longrightarrow> \<not> alarm_field t RTC_HOURS_ALARM h)"
proof -
  have l: "length (cmos_data s) = 128" using invD [OF assms(1)] by simp
  have w: "tm_hour (current_tm (cmos_ioport_write e s 0x71 v)) =
      (let b = ucast v :: u8; h = drop_bit 4 (uint (b AND 0x7f)) * 10 + (uint (b AND 0x7f) AND 0x0f)
       in if b AND 0x80 \<noteq> 0 then h + 12 else h)" for v
    using l assms(2,3) by (simp add: cmos_ioport_write_def rtc_set_time_def rtc_from_bcd_def Let_def rtc_regs)
  have a: "\<not> alarm_field t RTC_HOURS_ALARM h" if "cmos t RTC_HOURS_ALARM AND 0xc0 = 0x80" "h < 24" for t h
  proof -
    let ?v = "cmos t RTC_HOURS_ALARM"
    have "?v AND 0xc0 \<le> ?v" by (rule word_and_le2)
    then have "0x80 \<le> ?v" using that(1) by simp
    then have u: "128 \<le> uint ?v" using word_le_def [of "0x80" ?v] by simp
    have "128 div 16 \<le> uint ?v div 16" using u by (rule zdiv_mono1) simp
    then have "8 \<le> drop_bit 4 (uint ?v)" by (simp add: drop_bit_eq_div)
    moreover have "0 \<le> uint ?v AND 0x0f" by simp
    ultimately have "24 \<le> drop_bit 4 (uint ?v) * 10 + (uint ?v AND 0x0f)" by linarith
    then show ?thesis using u that by (simp add: alarm_field_def rtc_from_bcd_def)
  qed
  have n: "cmos (rtc_copy_date (s\<lparr>current_tm := (current_tm s)\<lparr>tm_hour := 12\<rparr>\<rparr>)) RTC_HOURS = 0x80"
    using l assms(2) copy_date_cmos [of "s\<lparr>current_tm := (current_tm s)\<lparr>tm_hour := 12\<rparr>\<rparr>" RTC_HOURS]
    by (simp add: rtc_regs hours_field_def rtc_to_bcd_def signed_modulo_int_def signed_divide_int_def)
  show ?thesis using a n by (simp add: w)
qed


section \<open>Witnesses\<close>

text \<open>29 February 2000, a Tuesday, one second before midnight.\<close>

definition leap_day :: tm where
  "leap_day = \<lparr>tm_sec = 59, tm_min = 59, tm_hour = 23, tm_mday = 29, tm_mon = 1, tm_year = 100, tm_wday = 2\<rparr>"

definition env_wit :: rtc_env where
  "env_wit = \<lparr>rtc_now = 5, irq_delivered = False, rtc_td_hack = True\<rparr>"

definition rtc_wit :: RTCState where
  "rtc_wit = rtc_init env_wit leap_day 2000"

lemma leap_day_valid: "valid_tm leap_day"
  by (simp add: valid_tm_def leap_day_def month_length_def leap_def)

lemma rtc_wit_inv: "rtc_inv rtc_wit"
  using rtc_init_inv [of True env_wit leap_day 2000] by (simp add: rtc_td_inv_def rtc_wit_def)

lemma rtc_wit_tm: "current_tm rtc_wit = leap_day" "base_year rtc_wit = 2000"
  by (simp_all add: rtc_wit_def rtc_init_def rtc_initfn_def rtc_set_date_from_host_def rtc_set_date_def rtc_set_memory_def
      Let_def rtc_zero_def)

theorem rtc_calendar_witness:
  "tm_seconds ((rtc_next_second ^^ 1) leap_day) = tm_seconds leap_day + 1 \<and>
   (rtc_next_second ^^ 1) leap_day =
     \<lparr>tm_sec = 0, tm_min = 0, tm_hour = 0, tm_mday = 1, tm_mon = 2, tm_year = 100, tm_wday = 3\<rparr>"
  using rtc_calendar [OF leap_day_valid, of 1]
  by (simp add: leap_day_def rtc_next_second_def next_day_def u_ge_def get_days_in_month_eq month_length_def leap_def)

theorem rtc_date_roundtrip_witness:
  "current_tm (rtc_set_time (rtc_copy_date rtc_wit)) = leap_day"
  using rtc_date_roundtrip [of rtc_wit] rtc_wit_inv leap_day_valid
  by (simp add: rtc_wit_tm rtc_inv_def) (simp add: leap_day_def)

definition rtc_periodic_wit :: RTCState where
  "rtc_periodic_wit = set_cmos RTC_REG_B 0x40 (set_cmos RTC_REG_A 0x26 (rtc_zero 2000))"

theorem rtc_periodic_next_witness:
  "\<exists>k. unat (next_periodic_time (rtc_timer_update rtc_periodic_wit 0)) =
      (k + 1) * unat (period (rtc_timer_update rtc_periodic_wit 0)) * 1000000000 div 32768 + 1 \<and>
    0 < unat (next_periodic_time (rtc_timer_update rtc_periodic_wit 0))"
proof -
  have "cmos rtc_periodic_wit RTC_REG_A = 0x26" "cmos rtc_periodic_wit RTC_REG_B = 0x40"
    by (simp_all add: rtc_periodic_wit_def rtc_zero_def rtc_regs)
  then show ?thesis
    using rtc_periodic_next [of rtc_periodic_wit 0 "rtc_timer_update rtc_periodic_wit 0"] by (auto simp: REG_B_PIE_def)
qed

theorem rtc_cmos_memory_witness:
  "fst (cmos_ioport_read env_wit (cmos_ioport_write env_wit (cmos_ioport_write env_wit rtc_wit 0x70 0x8f) 0x71 (ucast (0xfe :: u8))) 0x71) = ucast (0xfe :: u8)"
  using rtc_cmos_memory [OF rtc_wit_inv, where i = 15 and nmi = True and e = env_wit and v = "0xfe", OF _ _ refl refl] by simp

definition rtc_12h_wit :: RTCState where
  "rtc_12h_wit = (rtc_zero 2000)\<lparr>cmos_index := 4\<rparr>"

theorem rtc_12h_defects_witness:
  "tm_hour (current_tm (cmos_ioport_write env_wit rtc_12h_wit 0x71 0x92)) = 24"
proof -
  have "rtc_inv rtc_12h_wit" "cmos rtc_12h_wit RTC_REG_B = 0" "unat (cmos_index rtc_12h_wit) = RTC_HOURS"
    by (simp_all add: rtc_12h_wit_def rtc_zero_def rtc_inv_def rtc_regs cmos_def)
  from rtc_12h_defects [OF this, of env_wit] show ?thesis by blast
qed

end
