(* ===== verification/Pc.thy ===== *)
theory Pc
  imports Pic Pit Pckbd Serial Dma Pcspk Rtc Ioport
begin

text \<open>
  The ISA machine (\<open>hw/pc.c\<close>, \<open>hw/pc_piix.c\<close> without PCI): the devices of the other theories on one
  port bus, their interrupt lines wired to the 8259s, and the 8259s' output to a CPU without a local
  APIC. The handlers of \<open>pc.c\<close> itself are here too: ports \<open>0x80\<close>, \<open>0x92\<close> and \<open>0xf0\<close>, the debug
  ports of the Bochs BIOS, the FPU error line, the A20 gate and the routing of interrupts.

  A device operation appends the levels it drives to the log of its line; the machine passes the
  new levels on to the interrupt controller in the order they were driven. One serial port is
  connected, no HPET, I/O APIC, VGA, IDE or floppy controller, and no device has registered a DMA
  channel.
\<close>

section \<open>State\<close>

record Port92State =
  p92_outport :: u8

record pc =
  isa_pic :: PicState2
  pit :: PITState
  i8042 :: KBDState
  uart :: SerialState
  rtc :: RTCState
  spk :: PCSpkState
  dma :: "(unit, unit) dma_world"
  port92 :: Port92State
  shutdown_index :: nat
  reset_req :: nat
  shutdown_req :: nat
  cpu_hard :: bool
  cpu_a20 :: bool
  penv :: env
  renv :: rtc_env

section \<open>Interrupt routing\<close>

text \<open>What the CPU sees of the levels the 8259s drive.\<close>

definition pic_irq_request :: "int \<Rightarrow> pc \<Rightarrow> pc" where
  "pic_irq_request level m = (if level \<noteq> 0 then m\<lparr>cpu_hard := True\<rparr> else m\<lparr>cpu_hard := False\<rparr>)"

definition on_pic :: "(PicState2 \<Rightarrow> PicState2) \<Rightarrow> pc \<Rightarrow> pc" where
  "on_pic f m =
     (let s = f (isa_pic m)
      in foldl (\<lambda>m l. pic_irq_request l m) (m\<lparr>isa_pic := s\<rparr>) (drop (length (parent_irq (isa_pic m))) (parent_irq s)))"

text \<open>The machine has no I/O APIC.\<close>

definition isa_irq_handler :: "nat \<Rightarrow> int \<Rightarrow> pc \<Rightarrow> pc" where
  "isa_irq_handler n level m = (if n < 16 then on_pic (\<lambda>s. i8259_set_irq s n level) m else m)"

definition route :: "(nat \<times> int) list \<Rightarrow> pc \<Rightarrow> pc" where
  "route ls m = foldl (\<lambda>m (n, l). isa_irq_handler n l m) m ls"

definition fresh :: "irq_line \<Rightarrow> irq_line \<Rightarrow> int list" where
  "fresh old new = drop (length old) new"

definition cpu_get_pic_interrupt :: "pc \<Rightarrow> int \<times> pc" where
  "cpu_get_pic_interrupt m = (int (fst (pic_read_irq (isa_pic m))), on_pic (\<lambda>s. snd (pic_read_irq s)) m)"

definition handle_a20_line_change :: "int \<Rightarrow> pc \<Rightarrow> pc" where
  "handle_a20_line_change level m = m\<lparr>cpu_a20 := (level \<noteq> 0)\<rparr>"

section \<open>Devices in the machine\<close>

definition on_pit :: "PITState \<Rightarrow> pc \<Rightarrow> pc" where
  "on_pit p m =
     route (map (Pair 0) (fresh (chan_irq (channels (pit m) ! 0)) (chan_irq (channels p ! 0)))) (m\<lparr>pit := p\<rparr>)"

definition on_uart :: "SerialState \<Rightarrow> pc \<Rightarrow> pc" where
  "on_uart s m = route (map (Pair 4) (fresh (serial_irq (uart m)) (serial_irq s))) (m\<lparr>uart := s\<rparr>)"

definition on_rtc :: "RTCState \<Rightarrow> pc \<Rightarrow> pc" where
  "on_rtc s m = route (map (Pair 8) (fresh (rtc_irq (rtc m)) (rtc_irq s))) (m\<lparr>rtc := s\<rparr>)"

text \<open>\<open>kbd_update_irq\<close> drives IRQ 1 and then IRQ 12, each time it is called.\<close>

definition kbd_levels :: "KBDState \<Rightarrow> KBDState \<Rightarrow> (nat \<times> int) list" where
  "kbd_levels k k' =
     concat (map (\<lambda>(a, b). [(1, a), (12, b)]) (zip (fresh (irq_kbd k) (irq_kbd k')) (fresh (irq_mouse k) (irq_mouse k'))))"

definition a20_levels :: "KBDState \<Rightarrow> KBDState \<Rightarrow> int list" where
  "a20_levels k k' = (case (a20_out k, a20_out k') of (Some a, Some b) \<Rightarrow> fresh a b | _ \<Rightarrow> [])"

definition on_i8042 :: "KBDState \<Rightarrow> pc \<Rightarrow> pc" where
  "on_i8042 k m =
     (let m' = foldl (\<lambda>m l. handle_a20_line_change l m)
                 (m\<lparr>i8042 := k, reset_req := reset_req m + (reset_requests k - reset_requests (i8042 m))\<rparr>) (a20_levels (i8042 m) k)
      in route (kbd_levels (i8042 m) k) m')"

section \<open>Handlers of pc.c\<close>

definition cpu_set_ferr :: "pc \<Rightarrow> pc" where
  "cpu_set_ferr m = isa_irq_handler 13 1 m"

definition ioport80_write :: "u32 \<Rightarrow> pc \<Rightarrow> pc" where
  "ioport80_write val m = m"

definition ioportF0_write :: "u32 \<Rightarrow> pc \<Rightarrow> pc" where
  "ioportF0_write val m = isa_irq_handler 13 0 m"

definition port92_write :: "u32 \<Rightarrow> pc \<Rightarrow> pc" where
  "port92_write val m =
     (let m = m\<lparr>port92 := (port92 m)\<lparr>p92_outport := ucast val\<rparr>\<rparr>;
          m = handle_a20_line_change (uint (drop_bit 1 val AND 1)) m
      in if val AND 1 \<noteq> 0 then m\<lparr>reset_req := reset_req m + 1\<rparr> else m)"

definition port92_read :: "pc \<Rightarrow> u32" where
  "port92_read m = ucast (p92_outport (port92 m))"

definition port92_reset :: "pc \<Rightarrow> pc" where
  "port92_reset m = m\<lparr>port92 := (port92 m)\<lparr>p92_outport := p92_outport (port92 m) AND NOT 1\<rparr>\<rparr>"

text \<open>The string ''Shutdown'', as bytes. A write to the panic ports of the VGA BIOS ends the process.\<close>

definition shutdown_str :: "u32 list" where
  "shutdown_str = [0x53, 0x68, 0x75, 0x74, 0x64, 0x6f, 0x77, 0x6e]"

definition bochs_bios_write :: "u32 \<Rightarrow> u32 \<Rightarrow> pc \<Rightarrow> io_err + pc" where
  "bochs_bios_write addr val m =
     (if addr = 0x8900 then
        Inr (if val = shutdown_str ! shutdown_index m then
               (let m = m\<lparr>shutdown_index := shutdown_index m + 1\<rparr>
                in if shutdown_index m = 8 then m\<lparr>shutdown_index := 0, shutdown_req := shutdown_req m + 1\<rparr> else m)
             else m\<lparr>shutdown_index := 0\<rparr>)
      else if addr = 0x501 \<or> addr = 0x502 then Inl DeviceError
      else Inr m)"

section \<open>The port handlers\<close>

text \<open>What the \<open>opaque\<close> pointers of the registrations point at; \<open>pc.c\<close> passes NULL for its own ports.\<close>

datatype opaque = OPic nat | OPit | OKbd | OUart | ORtc | OSpk | ODma nat | OPort92

type_synonym pc_read = "(opaque, pc) read_func"
type_synonym pc_write = "(opaque, pc) write_func"

definition pic_no :: "opaque option \<Rightarrow> nat" where
  "pic_no op = (case op of Some (OPic n) \<Rightarrow> n | _ \<Rightarrow> 0)"

definition dma_no :: "opaque option \<Rightarrow> nat" where
  "dma_no op = (case op of Some (ODma n) \<Rightarrow> n | _ \<Rightarrow> 0)"

definition h_pic_read :: pc_read where
  "h_pic_read op addr m =
     Inr (of_nat (fst (pic_ioport_read (isa_pic m) (pic_no op) addr)), on_pic (\<lambda>s. snd (pic_ioport_read s (pic_no op) addr)) m)"

definition h_pic_write :: pc_write where
  "h_pic_write op addr val m =
     (case pic_ioport_write (isa_pic m) (pic_no op) addr val of
        Inl _ \<Rightarrow> Inl DeviceError
      | Inr s \<Rightarrow> Inr (on_pic (\<lambda>_. s) m))"

definition h_elcr_read :: pc_read where
  "h_elcr_read op addr m = Inr (elcr_ioport_read (isa_pic m) (pic_no op), m)"

definition h_elcr_write :: pc_write where
  "h_elcr_write op addr val m = Inr (on_pic (\<lambda>s. elcr_ioport_write s (pic_no op) val) m)"

definition h_pit_read :: pc_read where
  "h_pit_read op addr m =
     (case pit_ioport_read (now (penv m)) (pit m) addr of
        None \<Rightarrow> Inl DeviceError
      | Some (v, p) \<Rightarrow> Inr (v, on_pit p m))"

definition h_pit_write :: pc_write where
  "h_pit_write op addr val m =
     (case pit_ioport_write (now (penv m)) (pit m) addr val of
        None \<Rightarrow> Inl DeviceError
      | Some p \<Rightarrow> Inr (on_pit p m))"

definition h_spk_read :: pc_read where
  "h_spk_read op addr m =
     (case pcspk_ioport_read (now (penv m)) (pit m) (spk m) of (v, s) \<Rightarrow> Inr (v, m\<lparr>spk := s\<rparr>))"

definition h_spk_write :: pc_write where
  "h_spk_write op addr val m =
     (case pcspk_ioport_write (now (penv m)) val (pit m) (spk m) of (p, s) \<Rightarrow> Inr (on_pit p (m\<lparr>spk := s\<rparr>)))"

definition h_rtc_read :: pc_read where
  "h_rtc_read op addr m = (case cmos_ioport_read (renv m) (rtc m) addr of (v, s) \<Rightarrow> Inr (v, on_rtc s m))"

definition h_rtc_write :: pc_write where
  "h_rtc_write op addr val m = Inr (on_rtc (cmos_ioport_write (renv m) (rtc m) addr val) m)"

definition h_uart_read :: pc_read where
  "h_uart_read op addr m = (case serial_ioport_read (penv m) (uart m) addr of (v, s) \<Rightarrow> Inr (v, on_uart s m))"

definition h_uart_write :: pc_write where
  "h_uart_write op addr val m =
     (case serial_ioport_write (penv m) (uart m) addr val of
        None \<Rightarrow> Inl DeviceError
      | Some s \<Rightarrow> Inr (on_uart s m))"

definition h_kbd_read_data :: pc_read where
  "h_kbd_read_data op addr m = (case kbd_read_data (i8042 m) of (v, k) \<Rightarrow> Inr (v, on_i8042 k m))"

definition h_kbd_write_data :: pc_write where
  "h_kbd_write_data op addr val m = Inr (on_i8042 (kbd_write_data (i8042 m) val) m)"

definition h_kbd_read_status :: pc_read where
  "h_kbd_read_status op addr m = Inr (kbd_read_status (i8042 m), m)"

definition h_kbd_write_command :: pc_write where
  "h_kbd_write_command op addr val m = Inr (on_i8042 (kbd_write_command (i8042 m) val) m)"

definition h_port92_read :: pc_read where "h_port92_read op addr m = Inr (port92_read m, m)"
definition h_port92_write :: pc_write where "h_port92_write op addr val m = Inr (port92_write val m)"
definition h_80_write :: pc_write where "h_80_write op addr val m = Inr (ioport80_write val m)"
definition h_f0_write :: pc_write where "h_f0_write op addr val m = Inr (ioportF0_write val m)"
definition h_bochs_write :: pc_write where "h_bochs_write op addr val m = bochs_bios_write addr val m"

text \<open>No device has registered a DMA channel, so this is never called.\<close>

definition no_dma_device :: "(unit, unit) call" where
  "no_dma_device h nchan pos n w = (pos, w)"

definition h_dma_read :: "dma_port \<Rightarrow> pc_read" where
  "h_dma_read kind op addr m =
     (case dma_port_read (dma_no op) kind addr (dma m) of None \<Rightarrow> Inl DeviceError | Some (v, w) \<Rightarrow> Inr (v, m\<lparr>dma := w\<rparr>))"

definition h_dma_write :: "dma_port \<Rightarrow> pc_write" where
  "h_dma_write kind op addr val m =
     (case dma_port_write no_dma_device (dma_no op) kind addr val (dma m) of None \<Rightarrow> Inl DeviceError | Some w \<Rightarrow> Inr (m\<lparr>dma := w\<rparr>))"

section \<open>Registration\<close>

datatype 'm registration =
  RegR nat nat nat "(opaque, 'm) read_func" "opaque option"
| RegW nat nat nat "(opaque, 'm) write_func" "opaque option"

fun register :: "(opaque, 'm) ioports \<Rightarrow> 'm registration \<Rightarrow> io_err + (opaque, 'm) ioports" where
  "register t (RegR start n sz f op) = register_ioport_read start n sz f op t"
| "register t (RegW start n sz f op) = register_ioport_write start n sz f op t"

definition pic_regs :: "pc registration list" where
  "pic_regs =
     [RegW 0x20 2 1 h_pic_write (Some (OPic 0)), RegR 0x20 2 1 h_pic_read (Some (OPic 0)),
      RegW 0x4d0 1 1 h_elcr_write (Some (OPic 0)), RegR 0x4d0 1 1 h_elcr_read (Some (OPic 0)),
      RegW 0xa0 2 1 h_pic_write (Some (OPic 1)), RegR 0xa0 2 1 h_pic_read (Some (OPic 1)),
      RegW 0x4d1 1 1 h_elcr_write (Some (OPic 1)), RegR 0x4d1 1 1 h_elcr_read (Some (OPic 1))]"

definition bochs_regs :: "pc registration list" where
  "bochs_regs =
     [RegW 0x400 1 2 h_bochs_write None, RegW 0x401 1 2 h_bochs_write None, RegW 0x402 1 1 h_bochs_write None,
      RegW 0x403 1 1 h_bochs_write None, RegW 0x8900 1 1 h_bochs_write None, RegW 0x501 1 2 h_bochs_write None,
      RegW 0x502 1 2 h_bochs_write None, RegW 0x500 1 1 h_bochs_write None, RegW 0x503 1 1 h_bochs_write None]"

definition basic_regs :: "pc registration list" where
  "basic_regs =
     [RegW 0x80 1 1 h_80_write None, RegW 0xf0 1 1 h_f0_write None,
      RegW 0x70 2 1 h_rtc_write (Some ORtc), RegR 0x70 2 1 h_rtc_read (Some ORtc),
      RegW 0x40 4 1 h_pit_write (Some OPit), RegR 0x40 3 1 h_pit_read (Some OPit),
      RegR 0x61 1 1 h_spk_read (Some OSpk), RegW 0x61 1 1 h_spk_write (Some OSpk),
      RegW 0x3f8 8 1 h_uart_write (Some OUart), RegR 0x3f8 8 1 h_uart_read (Some OUart),
      RegR 0x60 1 1 h_kbd_read_data (Some OKbd), RegW 0x60 1 1 h_kbd_write_data (Some OKbd),
      RegR 0x64 1 1 h_kbd_read_status (Some OKbd), RegW 0x64 1 1 h_kbd_write_command (Some OKbd),
      RegR 0x92 1 1 h_port92_read (Some OPort92), RegW 0x92 1 1 h_port92_write (Some OPort92)]"

definition dma_regs_of :: "nat \<Rightarrow> pc registration list" where
  "dma_regs_of k = concat (map (\<lambda>(p, kind).
     [RegW p 1 1 (h_dma_write kind) (Some (ODma k)), RegR p 1 1 (h_dma_read kind) (Some (ODma k))]) (dma_ports_of False k))"

definition pc_regs :: "pc registration list" where
  "pc_regs = bochs_regs @ pic_regs @ basic_regs @ dma_regs_of 0 @ dma_regs_of 1"

definition pc_ports :: "io_err + (opaque, pc) ioports" where
  "pc_ports = run_err register no_ports pc_regs"

section \<open>A registered machine is on the bus\<close>

text \<open>
  An owner for every port: registrations that agree with it do not conflict, and in the tables they
  leave, every handler comes from a registration, with that registration's \<open>opaque\<close>.
\<close>

fun reg_owned :: "(nat \<Rightarrow> opaque option) \<Rightarrow> 'm registration \<Rightarrow> bool" where
  "reg_owned own (RegR start n sz f op) \<longleftrightarrow> ioport_bsize sz \<noteq> None \<and> list_all (\<lambda>i. i < MAX_IOPORTS \<and> own i = op) (port_range start n sz)"
| "reg_owned own (RegW start n sz f op) \<longleftrightarrow> ioport_bsize sz \<noteq> None \<and> list_all (\<lambda>i. i < MAX_IOPORTS \<and> own i = op) (port_range start n sz)"

fun reg_reads :: "'m registration \<Rightarrow> nat \<Rightarrow> nat \<Rightarrow> (opaque, 'm) read_func \<Rightarrow> opaque option \<Rightarrow> bool" where
  "reg_reads (RegR start n sz f op) b i g op' \<longleftrightarrow> ioport_bsize sz = Some b \<and> i \<in> set (port_range start n sz) \<and> g = f \<and> op' = op"
| "reg_reads (RegW start n sz f op) b i g op' \<longleftrightarrow> False"

fun reg_writes :: "'m registration \<Rightarrow> nat \<Rightarrow> nat \<Rightarrow> (opaque, 'm) write_func \<Rightarrow> opaque option \<Rightarrow> bool" where
  "reg_writes (RegW start n sz f op) b i g op' \<longleftrightarrow> ioport_bsize sz = Some b \<and> i \<in> set (port_range start n sz) \<and> g = f \<and> op' = op"
| "reg_writes (RegR start n sz f op) b i g op' \<longleftrightarrow> False"

definition good_table :: "(nat \<Rightarrow> opaque option) \<Rightarrow> 'm registration list \<Rightarrow> (opaque, 'm) ioports \<Rightarrow> bool" where
  "good_table own rs t \<longleftrightarrow>
     (\<forall>i. ioport_opaque t i = None \<or> ioport_opaque t i = own i) \<and>
     (\<forall>b i f. ioport_read_table t b i = Func f \<longrightarrow> ioport_opaque t i = own i \<and> (\<exists>r \<in> set rs. reg_reads r b i f (own i))) \<and>
     (\<forall>b i f. ioport_write_table t b i = Func f \<longrightarrow> ioport_opaque t i = own i \<and> (\<exists>r \<in> set rs. reg_writes r b i f (own i)))"

lemma register_good:
  assumes "reg_owned own r" "r \<in> set rs" "good_table own rs t"
  shows "\<exists>t'. register t r = Inr t' \<and> good_table own rs t'"
proof (cases r)
  case (RegR start n sz f op)
  then obtain b where b: "ioport_bsize sz = Some b" and o: "\<forall>i\<in>set (port_range start n sz). i < MAX_IOPORTS \<and> own i = op"
    using assms(1) by (auto simp: list_all_iff)
  let ?A = "set (port_range start n sz)"
  let ?t = "t\<lparr>ioport_read_table := (ioport_read_table t)(b := \<lambda>i. if i \<in> ?A then Func f else ioport_read_table t b i),
     ioport_opaque := \<lambda>i. if i \<in> ?A then op else ioport_opaque t i\<rparr>"
  have "\<forall>i\<in>?A. i < MAX_IOPORTS \<and> (ioport_opaque t i = None \<or> ioport_opaque t i = op)"
    using o assms(3) by (auto simp: good_table_def)
  from register_read_run [OF this, of b f] have "register t r = Inr ?t"
    by (simp add: RegR register_ioport_read_def b)
  moreover have "good_table own rs ?t"
    using assms(2,3) o b unfolding good_table_def RegR by (auto split: if_splits intro: bexI [of _ "RegR start n sz f op"])
  ultimately show ?thesis by blast
next
  case (RegW start n sz f op)
  then obtain b where b: "ioport_bsize sz = Some b" and o: "\<forall>i\<in>set (port_range start n sz). i < MAX_IOPORTS \<and> own i = op"
    using assms(1) by (auto simp: list_all_iff)
  let ?A = "set (port_range start n sz)"
  let ?t = "t\<lparr>ioport_write_table := (ioport_write_table t)(b := \<lambda>i. if i \<in> ?A then Func f else ioport_write_table t b i),
     ioport_opaque := \<lambda>i. if i \<in> ?A then op else ioport_opaque t i\<rparr>"
  have "\<forall>i\<in>?A. i < MAX_IOPORTS \<and> (ioport_opaque t i = None \<or> ioport_opaque t i = op)"
    using o assms(3) by (auto simp: good_table_def)
  from register_write_run [OF this, of b f] have "register t r = Inr ?t"
    by (simp add: RegW register_ioport_write_def b)
  moreover have "good_table own rs ?t"
    using assms(2,3) o b unfolding good_table_def RegW by (auto split: if_splits intro: bexI [of _ "RegW start n sz f op"])
  ultimately show ?thesis by blast
qed

lemma register_all:
  assumes "list_all (reg_owned own) rs'" "set rs' \<subseteq> set rs" "good_table own rs t"
  shows "\<exists>t'. run_err register t rs' = Inr t' \<and> good_table own rs t'"
  using assms
proof (induction rs' arbitrary: t)
  case (Cons r rs')
  then obtain t' where "register t r = Inr t'" "good_table own rs t'" using register_good [of own r rs t] by auto
  with Cons show ?case by auto
qed simp

text \<open>What a registration has to promise for the machine to be safe.\<close>

fun reg_safe :: "('m \<Rightarrow> bool) \<Rightarrow> (nat \<Rightarrow> nat \<Rightarrow> u32 \<Rightarrow> bool) \<Rightarrow> 'm registration \<Rightarrow> bool" where
  "reg_safe ok fatal (RegR start n sz f op) \<longleftrightarrow>
     (\<forall>i\<in>set (port_range start n sz). \<forall>m. ok m \<longrightarrow> (\<exists>v m'. f op (of_nat i) m = Inr (v, m') \<and> ok m'))"
| "reg_safe ok fatal (RegW start n sz f op) \<longleftrightarrow>
     (\<forall>b. \<forall>i\<in>set (port_range start n sz). \<forall>d m. ioport_bsize sz = Some b \<longrightarrow> ok m \<longrightarrow> (b = 0 \<longrightarrow> unat d < 256) \<longrightarrow>
        (\<exists>m'. f op (of_nat i) d m = Inr m' \<and> ok m') \<or> f op (of_nat i) d m = Inl DeviceError \<and> fatal b i d)"

lemma safe_bus:
  assumes g: "good_table own rs t" and s: "\<And>r. r \<in> set rs \<Longrightarrow> reg_safe ok fatal r"
  shows "port_bus t ok fatal"
proof
  fix b i f m
  assume h: "ioport_read_table t b i = Func f" "ok m"
  have "ioport_opaque t i = own i \<and> (\<exists>r \<in> set rs. reg_reads r b i f (own i))"
    using g h(1) unfolding good_table_def by blast
  then obtain r where r: "r \<in> set rs" "reg_reads r b i f (ioport_opaque t i)" by auto
  with s [OF r(1)] h(2) show "\<exists>v m'. f (ioport_opaque t i) (of_nat i) m = Inr (v, m') \<and> ok m'"
    by (cases r) auto
next
  fix b i f m and d :: u32
  assume h: "ioport_write_table t b i = Func f" and a: "ok m" "b = 0 \<Longrightarrow> unat d < 256"
  have "ioport_opaque t i = own i \<and> (\<exists>r \<in> set rs. reg_writes r b i f (own i))"
    using g h unfolding good_table_def by blast
  then obtain r where r: "r \<in> set rs" "reg_writes r b i f (ioport_opaque t i)" by auto
  with s [OF r(1)] a show "(\<exists>m'. f (ioport_opaque t i) (of_nat i) d m = Inr m' \<and> ok m') \<or>
      f (ioport_opaque t i) (of_nat i) d m = Inl DeviceError \<and> fatal b i d"
    by (cases r) auto
qed

section \<open>The invariant of the machine\<close>

definition pc_owners :: "(nat \<times> opaque) list" where
  "pc_owners =
     [(0x20, OPic 0), (0x21, OPic 0), (0x4d0, OPic 0), (0xa0, OPic 1), (0xa1, OPic 1), (0x4d1, OPic 1),
      (0x70, ORtc), (0x71, ORtc), (0x40, OPit), (0x41, OPit), (0x42, OPit), (0x43, OPit), (0x61, OSpk),
      (0x60, OKbd), (0x64, OKbd), (0x92, OPort92)] @
     map (\<lambda>i. (0x3f8 + i, OUart)) [0..<8] @
     map (\<lambda>(p, _). (p, ODma 0)) (dma_ports_of False 0) @ map (\<lambda>(p, _). (p, ODma 1)) (dma_ports_of False 1)"

definition pc_owner :: "nat \<Rightarrow> opaque option" where "pc_owner = map_of pc_owners"

definition owned_range :: "nat \<Rightarrow> nat \<Rightarrow> nat \<Rightarrow> opaque option \<Rightarrow> bool" where
  "owned_range start n sz op \<longleftrightarrow> list_all (\<lambda>i. i < MAX_IOPORTS \<and> pc_owner i = op) (port_range start n sz)"

lemma dma_ports_list:
  "dma_ports_of False 0 = [(0, Chan), (1, Chan), (2, Chan), (3, Chan), (4, Chan), (5, Chan), (6, Chan), (7, Chan), (129, Page), (130, Page), (131, Page), (135, Page), (8, Cont), (9, Cont), (10, Cont), (11, Cont), (12, Cont), (13, Cont), (14, Cont), (15, Cont)]"
  "dma_ports_of False (Suc 0) = [(192, Chan), (194, Chan), (196, Chan), (198, Chan), (200, Chan), (202, Chan), (204, Chan), (206, Chan), (137, Page), (138, Page), (139, Page), (143, Page), (208, Cont), (210, Cont), (212, Cont), (214, Cont), (216, Cont), (218, Cont), (220, Cont), (222, Cont)]"
  by (simp_all add: dma_ports_of_def dma_ports_def upt_rec)

lemmas pc_owner_simps = owned_range_def pc_owner_def pc_owners_def port_range_def upt_rec dma_ports_list MAX_IOPORTS_def

lemma dma_owned:
  "list_all (\<lambda>(p, _). owned_range p 1 1 (Some (ODma 0))) (dma_ports_of False 0)"
  "list_all (\<lambda>(p, _). owned_range p 1 1 (Some (ODma 1))) (dma_ports_of False 1)"
  by (simp_all add: pc_owner_simps)

lemma basic_owned:
  "owned_range 0x20 2 1 (Some (OPic 0))" "owned_range 0x4d0 1 1 (Some (OPic 0))" "owned_range 0xa0 2 1 (Some (OPic 1))"
  "owned_range 0x4d1 1 1 (Some (OPic 1))" "owned_range 0x400 1 2 None" "owned_range 0x401 1 2 None" "owned_range 0x402 1 1 None"
  "owned_range 0x403 1 1 None" "owned_range 0x8900 1 1 None" "owned_range 0x501 1 2 None" "owned_range 0x502 1 2 None"
  "owned_range 0x500 1 1 None" "owned_range 0x503 1 1 None" "owned_range 0x80 1 1 None" "owned_range 0xf0 1 1 None"
  "owned_range 0x70 2 1 (Some ORtc)" "owned_range 0x40 4 1 (Some OPit)" "owned_range 0x40 3 1 (Some OPit)"
  "owned_range 0x61 1 1 (Some OSpk)" "owned_range 0x3f8 8 1 (Some OUart)" "owned_range 0x60 1 1 (Some OKbd)"
  "owned_range 0x64 1 1 (Some OKbd)" "owned_range 0x92 1 1 (Some OPort92)"
  by (simp_all add: pc_owner_simps)

lemma reg_owned_range:
  "reg_owned pc_owner (RegR start n sz f op) \<longleftrightarrow> ioport_bsize sz \<noteq> None \<and> owned_range start n sz op"
  "reg_owned pc_owner (RegW start n sz g op) \<longleftrightarrow> ioport_bsize sz \<noteq> None \<and> owned_range start n sz op"
  by (simp_all add: owned_range_def)

lemma pc_regs_owned: "list_all (reg_owned pc_owner) pc_regs"
proof -
  have "list_all (reg_owned pc_owner) (dma_regs_of k)" if "k = 0 \<or> k = 1" for k
    using that dma_owned by (auto simp: dma_regs_of_def list_all_iff reg_owned_range ioport_bsize_def simp del: reg_owned.simps)
  then show ?thesis
    using basic_owned
    by (simp add: pc_regs_def bochs_regs_def pic_regs_def basic_regs_def reg_owned_range ioport_bsize_def del: reg_owned.simps One_nat_def)
qed

definition pc_table :: "(opaque, pc) ioports" where
  "pc_table = (case pc_ports of Inr t \<Rightarrow> t | Inl _ \<Rightarrow> no_ports)"

lemma pc_registered: "pc_ports = Inr pc_table \<and> good_table pc_owner pc_regs pc_table"
proof -
  have "good_table pc_owner pc_regs no_ports" by (simp add: good_table_def no_ports_def)
  from register_all [OF pc_regs_owned order_refl this] show ?thesis by (auto simp: pc_ports_def pc_table_def)
qed


definition pc_inv :: "pc \<Rightarrow> bool" where
  "pc_inv m \<longleftrightarrow> pic_inv (isa_pic m) \<and> pit_inv (pit m) \<and> kbd_inv (i8042 m) \<and> serial_inv (uart m) \<and>
     rtc_td_inv (rtc_td_hack (renv m)) (rtc m) \<and> spk_ok (spk m) \<and> dma_ok (dma m) \<and> shutdown_index m < 8"

lemma pic_requests: "foldl (\<lambda>m l. pic_irq_request l m) m ls = m\<lparr>cpu_hard := foldl (\<lambda>_ l. l \<noteq> 0) (cpu_hard m) ls\<rparr>"
  by (induction ls arbitrary: m) (simp_all add: pic_irq_request_def)

lemma on_pic_eq:
  "on_pic f m = m\<lparr>isa_pic := f (isa_pic m),
     cpu_hard := foldl (\<lambda>_ l. l \<noteq> 0) (cpu_hard m) (drop (length (parent_irq (isa_pic m))) (parent_irq (f (isa_pic m))))\<rparr>"
  by (simp add: on_pic_def pic_requests Let_def)

lemma pc_inv_hard [simp]: "pc_inv (m\<lparr>cpu_hard := h\<rparr>) = pc_inv m" "pc_inv (m\<lparr>cpu_a20 := a\<rparr>) = pc_inv m"
  "pc_inv (m\<lparr>reset_req := r\<rparr>) = pc_inv m" "pc_inv (m\<lparr>shutdown_req := r\<rparr>) = pc_inv m" "pc_inv (m\<lparr>port92 := p\<rparr>) = pc_inv m"
  by (simp_all add: pc_inv_def)

lemma pc_inv_pic: "pc_inv m \<Longrightarrow> pic_inv (f (isa_pic m)) \<Longrightarrow> pc_inv (on_pic f m)"
  by (simp add: on_pic_eq pc_inv_def)

lemma pc_inv_irq: "pc_inv m \<Longrightarrow> pc_inv (isa_irq_handler n l m)"
  by (auto simp: isa_irq_handler_def pc_inv_def [of m] intro!: pc_inv_pic pic_inv_set_irq)

lemma pc_inv_route: "pc_inv m \<Longrightarrow> pc_inv (route ls m)"
  unfolding route_def by (induction ls arbitrary: m) (auto intro: pc_inv_irq)

lemma pc_inv_a20: "pc_inv (foldl (\<lambda>m l. handle_a20_line_change l m) m ls) = pc_inv m"
  by (induction ls arbitrary: m) (simp_all add: handle_a20_line_change_def)

lemma pc_inv_devices:
  assumes "pc_inv m"
  shows "pit_inv p \<Longrightarrow> pc_inv (on_pit p m)" "serial_inv u \<Longrightarrow> pc_inv (on_uart u m)"
    "rtc_td_inv (rtc_td_hack (renv m)) r \<Longrightarrow> pc_inv (on_rtc r m)" "kbd_inv k \<Longrightarrow> pc_inv (on_i8042 k m)"
    "dma_ok w \<Longrightarrow> pc_inv (m\<lparr>dma := w\<rparr>)" "spk_ok s \<Longrightarrow> pc_inv (m\<lparr>spk := s\<rparr>)"
  using assms unfolding on_pit_def on_uart_def on_rtc_def on_i8042_def Let_def
  by (auto intro!: pc_inv_route simp: pc_inv_a20) (simp_all add: pc_inv_def)

definition pc_fatal :: "nat \<Rightarrow> nat \<Rightarrow> u32 \<Rightarrow> bool" where
  "pc_fatal b i d \<longleftrightarrow>
     b = 0 \<and> (i = 0x20 \<or> i = 0xa0) \<and> d AND 0x10 \<noteq> 0 \<and> d AND 0x08 \<noteq> 0 \<or> b = 1 \<and> (i = 0x501 \<or> i = 0x502)"

section \<open>Every handler is safe\<close>

lemma byte_word: "unat d < 256 \<Longrightarrow> ucast (ucast d :: u8) = d" for d :: u32
proof -
  assume "unat d < 256"
  then have "take_bit 8 d = d" by (simp add: word_unat_eq_iff unsigned_take_bit_eq take_bit_nat_eq_self)
  then show ?thesis by (simp add: ucast_ucast8 word_and_255)
qed

lemma pic_handlers:
  "pc_inv m \<Longrightarrow> \<exists>v m'. h_pic_read op a m = Inr (v, m') \<and> pc_inv m'"
  "pc_inv m \<Longrightarrow> \<exists>v m'. h_elcr_read op a m = Inr (v, m') \<and> pc_inv m'"
  "pc_inv m \<Longrightarrow> \<exists>m'. h_elcr_write op a d m = Inr m' \<and> pc_inv m'"
  by (auto simp: h_pic_read_def h_elcr_read_def h_elcr_write_def pc_inv_def [of m] intro!: pc_inv_pic pic_inv_ioport_read pic_inv_elcr_write)

lemma pic_write_handler:
  assumes "pc_inv m" "a = of_nat i" "i \<in> {0x20, 0x21, 0xa0, 0xa1}"
  shows "(\<exists>m'. h_pic_write op a d m = Inr m' \<and> pc_inv m') \<or> h_pic_write op a d m = Inl DeviceError \<and> pc_fatal 0 i d"
proof (cases "pic_ioport_write (isa_pic m) (pic_no op) a d")
  case (Inl e)
  then have "a AND 1 = 0 \<and> d AND 0x10 \<noteq> 0 \<and> d AND 0x08 \<noteq> 0"
    by (auto simp: pic_ioport_write_def pic_write_icw1_def Let_def split: if_splits)
  then have "pc_fatal 0 i d" using assms(2,3) by (auto simp: pc_fatal_def)
  then show ?thesis using Inl by (simp add: h_pic_write_def)
next
  case (Inr s)
  then have "pic_inv s" using assms(1) pic_inv_ioport_write unfolding pc_inv_def by blast
  then show ?thesis using Inr assms(1) by (auto simp: h_pic_write_def intro!: pc_inv_pic)
qed


lemma rtc_handlers:
  assumes "pc_inv m"
  shows "\<exists>v m'. h_rtc_read op a m = Inr (v, m') \<and> pc_inv m'" "\<exists>m'. h_rtc_write op a d m = Inr m' \<and> pc_inv m'"
proof -
  have r: "rtc_td_inv (rtc_td_hack (renv m)) (rtc m)" using assms by (simp add: pc_inv_def)
  have e: "(renv m)\<lparr>rtc_td_hack := rtc_td_hack (renv m)\<rparr> = renv m" by simp
  show "\<exists>v m'. h_rtc_read op a m = Inr (v, m') \<and> pc_inv m'"
    using rtc_sys.inv_step [OF r, of "(renv m, CmosRead a)"] assms
    by (cases "cmos_ioport_read (renv m) (rtc m) a") (simp add: h_rtc_read_def rtc_step_def e pc_inv_devices(3))
  show "\<exists>m'. h_rtc_write op a d m = Inr m' \<and> pc_inv m'"
    using rtc_sys.inv_step [OF r, of "(renv m, CmosWrite a d)"] assms
    by (simp add: h_rtc_write_def rtc_step_def e pc_inv_devices(3))
qed

lemma pit_handlers:
  assumes "pc_inv m"
  shows "unat (a AND 3) < 3 \<Longrightarrow> \<exists>v m'. h_pit_read op a m = Inr (v, m') \<and> pc_inv m'"
    and "unat d < 256 \<Longrightarrow> \<exists>m'. h_pit_write op a d m = Inr m' \<and> pc_inv m'"
proof -
  have p: "pit_inv (pit m)" using assms by (simp add: pc_inv_def)
  show "\<exists>v m'. h_pit_read op a m = Inr (v, m') \<and> pc_inv m'" if "unat (a AND 3) < 3"
    using pit_ioport_read_inv [OF p that, of "now (penv m)"] assms by (auto simp: h_pit_read_def pc_inv_devices(1))
  show "\<exists>m'. h_pit_write op a d m = Inr m' \<and> pc_inv m'" if "unat d < 256"
    using pit_ioport_write_inv [OF p, of "now (penv m)" a "ucast d"] assms byte_word [OF that]
    by (auto simp: h_pit_write_def pc_inv_devices(1))
qed

lemma uart_handlers:
  assumes "pc_inv m"
  shows "\<exists>v m'. h_uart_read op a m = Inr (v, m') \<and> pc_inv m'" "\<exists>m'. h_uart_write op a d m = Inr m' \<and> pc_inv m'"
proof -
  have u: "serial_inv (uart m)" using assms by (simp add: pc_inv_def)
  show "\<exists>v m'. h_uart_read op a m = Inr (v, m') \<and> pc_inv m'"
    using serial_ioport_read_inv [OF u, of "penv m" a] assms
    by (cases "serial_ioport_read (penv m) (uart m) a") (simp add: h_uart_read_def pc_inv_devices(2))
  show "\<exists>m'. h_uart_write op a d m = Inr m' \<and> pc_inv m'"
    using serial_ioport_write_inv [OF u, of "penv m" a d] assms by (auto simp: h_uart_write_def pc_inv_devices(2))
qed

lemma kbd_handlers:
  assumes "pc_inv m"
  shows "\<exists>v m'. h_kbd_read_data op a m = Inr (v, m') \<and> pc_inv m'" "\<exists>m'. h_kbd_write_data op a d m = Inr m' \<and> pc_inv m'"
    "\<exists>v m'. h_kbd_read_status op a m = Inr (v, m') \<and> pc_inv m'" "\<exists>m'. h_kbd_write_command op a d m = Inr m' \<and> pc_inv m'"
proof -
  have k: "kbd_inv (i8042 m)" using assms by (simp add: pc_inv_def)
  show "\<exists>v m'. h_kbd_read_data op a m = Inr (v, m') \<and> pc_inv m'"
    using kbd_read_data_inv [OF k] assms by (cases "kbd_read_data (i8042 m)") (simp add: h_kbd_read_data_def pc_inv_devices(4))
  show "\<exists>m'. h_kbd_write_data op a d m = Inr m' \<and> pc_inv m'" "\<exists>v m'. h_kbd_read_status op a m = Inr (v, m') \<and> pc_inv m'"
    "\<exists>m'. h_kbd_write_command op a d m = Inr m' \<and> pc_inv m'"
    using k assms by (simp_all add: h_kbd_write_data_def h_kbd_read_status_def h_kbd_write_command_def pc_inv_devices(4)
        kbd_write_data_inv kbd_write_command_inv)
qed

lemma spk_handlers:
  assumes "pc_inv m"
  shows "\<exists>v m'. h_spk_read op a m = Inr (v, m') \<and> pc_inv m'" "\<exists>m'. h_spk_write op a d m = Inr m' \<and> pc_inv m'"
proof -
  have s: "spk_ok (spk m)" "pit_inv (pit m)" using assms by (simp_all add: pc_inv_def)
  have "pit_inv (pit_set_gate now (pit m) 2 (uint (d AND 1)))" for now
    using pit_step_inv [OF s(2), of "(now, PGate (bit d 0))"] by (simp add: pit_step_def uint_and_1)
  moreover have "spk_ok (snd (pcspk_ioport_write now d p (spk m)))" for now p
    using s(1) by (auto simp: pcspk_ioport_write_def Let_def spk_ok_def word_less_nat_alt)
  ultimately show "\<exists>m'. h_spk_write op a d m = Inr m' \<and> pc_inv m'"
    using assms by (auto simp: h_spk_write_def split_beta pcspk_ioport_write_def Let_def pc_inv_devices(6) intro!: pc_inv_devices(1))
  show "\<exists>v m'. h_spk_read op a m = Inr (v, m') \<and> pc_inv m'"
    using s(1) assms by (simp add: h_spk_read_def pcspk_ioport_read_def Let_def pc_inv_devices(6) spk_ok_def)
qed

lemma dma_handlers:
  assumes "pc_inv m" "k < 2" "map_of (dma_ports_of False k) p = Some kind"
  shows "\<exists>v m'. h_dma_read kind (Some (ODma k)) (of_nat p) m = Inr (v, m') \<and> pc_inv m'"
    "\<exists>m'. h_dma_write kind (Some (ODma k)) (of_nat p) d m = Inr m' \<and> pc_inv m'"
proof -
  have w: "dma_ok (dma m)" using assms(1) by (simp add: pc_inv_def)
  have e: "\<exists>w'. dma_event no_dma_device False (dma m) ev = Some w' \<and> dma_ok w'" for ev
    by (rule dma_event_ok [OF _ w]) (simp add: no_dma_device_def)
  have k: "k mod 2 = k" using assms(2) by simp
  show "\<exists>v m'. h_dma_read kind (Some (ODma k)) (of_nat p) m = Inr (v, m') \<and> pc_inv m'"
    using e [of "DmaRead k p"] assms(1,3) by (auto simp: k h_dma_read_def dma_no_def pc_inv_devices(5))
  show "\<exists>m'. h_dma_write kind (Some (ODma k)) (of_nat p) d m = Inr m' \<and> pc_inv m'"
    using e [of "DmaWrite k p d"] assms(1,3) by (auto simp: k h_dma_write_def dma_no_def pc_inv_devices(5))
qed

lemma misc_handlers:
  "pc_inv m \<Longrightarrow> \<exists>v m'. h_port92_read op a m = Inr (v, m') \<and> pc_inv m'"
  "pc_inv m \<Longrightarrow> \<exists>m'. h_port92_write op a d m = Inr m' \<and> pc_inv m'"
  "pc_inv m \<Longrightarrow> \<exists>m'. h_80_write op a d m = Inr m' \<and> pc_inv m'"
  "pc_inv m \<Longrightarrow> \<exists>m'. h_f0_write op a d m = Inr m' \<and> pc_inv m'"
  "pc_inv m \<Longrightarrow> a \<noteq> 0x501 \<Longrightarrow> a \<noteq> 0x502 \<Longrightarrow> \<exists>m'. h_bochs_write op a d m = Inr m' \<and> pc_inv m'"
  by (auto simp: h_port92_read_def h_port92_write_def port92_write_def handle_a20_line_change_def h_80_write_def ioport80_write_def
      h_f0_write_def ioportF0_write_def pc_inv_irq h_bochs_write_def bochs_bios_write_def Let_def) (simp_all add: pc_inv_def)


lemma dma_regs_safe:
  assumes "k < 2" "r \<in> set (dma_regs_of k)"
  shows "reg_safe pc_inv pc_fatal r"
proof -
  obtain p kind where pk: "(p, kind) \<in> set (dma_ports_of False k)"
    and r: "r = RegW p 1 1 (h_dma_write kind) (Some (ODma k)) \<or> r = RegR p 1 1 (h_dma_read kind) (Some (ODma k))"
    using assms(2) by (auto simp: dma_regs_of_def)
  have "k = 0 \<or> k = Suc 0" using assms(1) by linarith
  then have "distinct (map fst (dma_ports_of False k))" by (auto simp: dma_ports_list)
  with pk have "map_of (dma_ports_of False k) p = Some kind" by simp
  note h = dma_handlers [OF _ assms(1) this]
  show ?thesis using r h by (auto simp: port_range_def)
qed

lemma pic_regs_safe: "r \<in> set pic_regs \<Longrightarrow> reg_safe pc_inv pc_fatal r"
proof -
  assume r: "r \<in> set pic_regs"
  have w: "(\<exists>m'. h_pic_write op (of_nat i) d m = Inr m' \<and> pc_inv m') \<or> h_pic_write op (of_nat i) d m = Inl DeviceError \<and> pc_fatal 0 i d"
    if "pc_inv m" "i \<in> {0x20, 0x21, 0xa0, 0xa1}" for op i d m
    using pic_write_handler [OF that(1) refl that(2)] .
  note w' = w [of _ "0x20"] w [of _ "0x21"] w [of _ "0xa0"] w [of _ "0xa1"]
  show ?thesis using r pic_handlers w'
    by (auto simp: pic_regs_def port_range_def upt_rec ioport_bsize_def)
qed

lemma bochs_panic: "h_bochs_write op 0x501 d m = Inl DeviceError" "h_bochs_write op 0x502 d m = Inl DeviceError"
  by (simp_all add: h_bochs_write_def bochs_bios_write_def)

lemma bochs_regs_safe: "r \<in> set bochs_regs \<Longrightarrow> reg_safe pc_inv pc_fatal r"
  using misc_handlers(5) bochs_panic
  by (auto simp: bochs_regs_def port_range_def upt_rec ioport_bsize_def pc_fatal_def)

lemma basic_regs_safe: "r \<in> set basic_regs \<Longrightarrow> reg_safe pc_inv pc_fatal r"
  using rtc_handlers pit_handlers uart_handlers kbd_handlers spk_handlers misc_handlers
  by (auto simp: basic_regs_def port_range_def upt_rec ioport_bsize_def)

lemma pc_regs_safe: "r \<in> set pc_regs \<Longrightarrow> reg_safe pc_inv pc_fatal r"
  using bochs_regs_safe pic_regs_safe basic_regs_safe dma_regs_safe [of 0] dma_regs_safe [of 1] by (auto simp: pc_regs_def)

interpretation pc_bus: port_bus pc_table pc_inv pc_fatal
  using pc_registered pc_regs_safe by (intro safe_bus) blast+


section \<open>The machine runs\<close>

text \<open>
  What happens to the machine: a port instruction, the CPU taking an interrupt, the clock and the
  back ends moving on, inputs of the host and timers of the devices, an FPU error, and resets of the
  devices, in any order.
\<close>

datatype pc_event =
  Cpu cpu_access | TakeInterrupt | Host env u64 bool | Kbd kbd_input | Uart serial_input | RtcEv rtc_event
| PitTimer | PitReset | DmaBh | DmaReset bool | Ferr | PicResetEv nat | Port92Reset

definition take_interrupt :: "pc \<Rightarrow> pc" where
  "take_interrupt m = (if cpu_hard m then snd (cpu_get_pic_interrupt (m\<lparr>cpu_hard := False\<rparr>)) else m)"

definition ok_or :: "'a option \<Rightarrow> io_err + 'a" where
  "ok_or x = (case x of None \<Rightarrow> Inl DeviceError | Some y \<Rightarrow> Inr y)"

definition dev_err :: "'x + 'a \<Rightarrow> io_err + 'a" where
  "dev_err x = (case x of Inl _ \<Rightarrow> Inl DeviceError | Inr y \<Rightarrow> Inr y)"

fun pc_step :: "pc \<Rightarrow> pc_event \<Rightarrow> io_err + pc" where
  "pc_step m (Cpu x) = cpu_step pc_table m x"
| "pc_step m TakeInterrupt = Inr (take_interrupt m)"
| "pc_step m (Host e t b) = Inr (m\<lparr>penv := e, renv := (renv m)\<lparr>rtc_now := t, irq_delivered := b\<rparr>\<rparr>)"
| "pc_step m (Kbd i) = Inr (on_i8042 (kbd_step (i8042 m) i) m)"
| "pc_step m (Uart i) = ebind (dev_err (serial_step (uart m) (penv m, i))) (\<lambda>s. Inr (on_uart s m))"
| "pc_step m (RtcEv i) = Inr (on_rtc (rtc_act (rtc m) (renv m, i)) m)"
| "pc_step m PitTimer = ebind (dev_err (pit_step (pit m) (now (penv m), PTimer))) (\<lambda>p. Inr (on_pit p m))"
| "pc_step m PitReset = ebind (dev_err (pit_step (pit m) (now (penv m), PReset))) (\<lambda>p. Inr (on_pit p m))"
| "pc_step m DmaBh = ebind (ok_or (DMA_run_bh no_dma_device (dma m))) (\<lambda>w. Inr (m\<lparr>dma := w\<rparr>))"
| "pc_step m (DmaReset b) = ebind (ok_or (dma_reset no_dma_device (if b then 1 else 0) (dma m))) (\<lambda>w. Inr (m\<lparr>dma := w\<rparr>))"
| "pc_step m Ferr = Inr (cpu_set_ferr m)"
| "pc_step m (PicResetEv n) = Inr (on_pic (upd_pic n pic_reset) m)"
| "pc_step m Port92Reset = Inr (port92_reset m)"

definition fatal_event :: "pc_event \<Rightarrow> bool" where
  "fatal_event ev = (case ev of Cpu x \<Rightarrow> fatal_access pc_fatal x | _ \<Rightarrow> False)"

lemma pc_step_inv:
  assumes "pc_inv m"
  shows "(\<exists>m'. pc_step m ev = Inr m' \<and> pc_inv m') \<or> pc_step m ev = Inl DeviceError \<and> fatal_event ev"
proof (cases ev)
  case (Cpu x)
  then show ?thesis using pc_bus.access_ok [OF assms, of x] by (simp add: fatal_event_def)
next
  case TakeInterrupt
  have "pc_inv (m\<lparr>cpu_hard := False\<rparr>)" using assms by simp
  then have "pc_inv (on_pic (\<lambda>s. snd (pic_read_irq s)) (m\<lparr>cpu_hard := False\<rparr>))"
    using assms by (intro pc_inv_pic pic_inv_read_irq) (simp_all add: pc_inv_def)
  then show ?thesis using assms TakeInterrupt by (simp add: take_interrupt_def cpu_get_pic_interrupt_def)
next
  case (Kbd i)
  then show ?thesis using assms kbd_sys.inv_step [of "i8042 m" i] by (simp add: pc_inv_devices(4) pc_inv_def [of m])
next
  case (Uart i)
  obtain u where "serial_step (uart m) (penv m, i) = Inr u" "serial_inv u"
    using serial_step_inv [of "uart m" "(penv m, i)"] assms by (auto simp: pc_inv_def)
  then show ?thesis using assms Uart by (simp add: dev_err_def pc_inv_devices(2))
next
  case (RtcEv i)
  have "rtc_td_inv (rtc_td_hack (renv m)) (rtc_step (rtc_td_hack (renv m)) (rtc m) (renv m, i))"
    using assms by (intro rtc_sys.inv_step) (simp add: pc_inv_def)
  then show ?thesis using assms RtcEv by (simp add: rtc_step_def pc_inv_devices(3))
next
  case PitTimer
  obtain p where "pit_step (pit m) (now (penv m), PTimer) = Inr p" "pit_inv p"
    using pit_step_inv [of "pit m"] assms by (auto simp: pc_inv_def)
  then show ?thesis using assms PitTimer by (simp add: dev_err_def pc_inv_devices(1))
next
  case PitReset
  obtain p where "pit_step (pit m) (now (penv m), PReset) = Inr p" "pit_inv p"
    using pit_step_inv [of "pit m"] assms by (auto simp: pc_inv_def)
  then show ?thesis using assms PitReset by (simp add: dev_err_def pc_inv_devices(1))
next
  case DmaBh
  obtain w where "dma_event no_dma_device False (dma m) Bh = Some w" "dma_ok w"
    using dma_event_ok [of no_dma_device "dma m" False Bh] assms by (auto simp: pc_inv_def no_dma_device_def)
  then show ?thesis using assms DmaBh by (simp add: ok_or_def pc_inv_devices(5))
next
  case (DmaReset b)
  obtain w where "dma_event no_dma_device False (dma m) (Reset b) = Some w" "dma_ok w"
    using dma_event_ok [of no_dma_device "dma m" False "Reset b"] assms by (auto simp: pc_inv_def no_dma_device_def)
  then show ?thesis using assms DmaReset by (simp add: ok_or_def pc_inv_devices(5))
next
  case (PicResetEv n)
  then show ?thesis using assms by (auto simp: pc_inv_def [of m] intro!: pc_inv_pic pic_inv_upd pic_ok_reset)
qed (use assms in \<open>simp_all add: cpu_set_ferr_def pc_inv_irq port92_reset_def, simp_all add: pc_inv_def\<close>)


section \<open>Power-on\<close>

text \<open>The devices are created, then their reset handlers run; the lines they drive reach the 8259s.\<close>

definition pc_init :: "env \<Rightarrow> rtc_env \<Rightarrow> tm \<Rightarrow> io_err + pc" where
  "pc_init e re host =
     ebind (ok_or (DMA_init no_dma_device ())) (\<lambda>w.
       let m = \<lparr>isa_pic = i8259_init, pit = pit_initfn, i8042 = i8042_setup_a20_line [] i8042_initfn, uart = serial_isa_initfn,
                rtc = rtc_init re host 2000, spk = pcspk_state, dma = w, port92 = \<lparr>p92_outport = 0\<rparr>, shutdown_index = 0,
                reset_req = 0, shutdown_req = 0, cpu_hard = False, cpu_a20 = True, penv = e, renv = re\<rparr>;
           m = on_pit (pit_reset (now e) (pit m)) m;
           m = on_uart (serial_reset e (uart m)) m
       in Inr (on_i8042 (i8042_system_reset (i8042 m)) m))"

lemma route_eq: "\<exists>s h. route ls m = m\<lparr>isa_pic := s, cpu_hard := h\<rparr> \<and> (pic_inv (isa_pic m) \<longrightarrow> pic_inv s)"
proof (induction ls arbitrary: m)
  case Nil
  show ?case by (intro exI [of _ "isa_pic m"] exI [of _ "cpu_hard m"]) (simp add: route_def)
next
  case (Cons nl ls)
  obtain n l where nl: "nl = (n, l)" by fastforce
  let ?m = "isa_irq_handler n l m"
  obtain s h where m1: "?m = m\<lparr>isa_pic := s, cpu_hard := h\<rparr>" "pic_inv (isa_pic m) \<longrightarrow> pic_inv s"
  proof (cases "n < 16")
    case True
    then show ?thesis using that [where s = "i8259_set_irq (isa_pic m) n l"] pic_inv_set_irq by (simp add: isa_irq_handler_def on_pic_eq)
  next
    case False
    then show ?thesis using that [where s = "isa_pic m" and h = "cpu_hard m"] by (simp add: isa_irq_handler_def)
  qed
  obtain s' h' where "route ls ?m = ?m\<lparr>isa_pic := s', cpu_hard := h'\<rparr> \<and> (pic_inv (isa_pic ?m) \<longrightarrow> pic_inv s')"
    using Cons.IH [of ?m] by blast
  then show ?case using m1 by (intro exI [of _ s'] exI [of _ h']) (simp add: route_def nl)
qed

lemma on_pit_eq: "\<exists>s h. on_pit p m = m\<lparr>pit := p, isa_pic := s, cpu_hard := h\<rparr> \<and> (pic_inv (isa_pic m) \<longrightarrow> pic_inv s)"
  unfolding on_pit_def using route_eq [of _ "m\<lparr>pit := p\<rparr>"] by simp

lemma on_uart_eq: "\<exists>s h. on_uart u m = m\<lparr>uart := u, isa_pic := s, cpu_hard := h\<rparr> \<and> (pic_inv (isa_pic m) \<longrightarrow> pic_inv s)"
  unfolding on_uart_def using route_eq [of _ "m\<lparr>uart := u\<rparr>"] by simp

lemma pc_init_inv: "\<exists>m. pc_init e re host = Inr m \<and> pc_inv m"
proof -
  obtain w where w: "DMA_init no_dma_device () = Some w" "dma_ok w" using DMA_init_ok [of no_dma_device "()"] by blast
  define m0 where "m0 = \<lparr>isa_pic = i8259_init, pit = pit_initfn, i8042 = i8042_setup_a20_line [] i8042_initfn, uart = serial_isa_initfn,
                rtc = rtc_init re host 2000, spk = pcspk_state, dma = w, port92 = \<lparr>p92_outport = 0\<rparr>, shutdown_index = 0,
                reset_req = 0, shutdown_req = 0, cpu_hard = False, cpu_a20 = True, penv = e, renv = re\<rparr>"
  define m1 where "m1 = on_pit (pit_reset (now e) pit_initfn) m0"
  define m2 where "m2 = on_uart (serial_reset e (uart m1)) m1"
  obtain s1 h1 where m1: "m1 = m0\<lparr>pit := pit_reset (now e) pit_initfn, isa_pic := s1, cpu_hard := h1\<rparr>" "pic_inv s1"
    using on_pit_eq [of "pit_reset (now e) pit_initfn" m0] pic_inv_init unfolding m1_def [symmetric] by (auto simp: m0_def)
  obtain s2 h2 where m2: "m2 = m1\<lparr>uart := serial_reset e serial_isa_initfn, isa_pic := s2, cpu_hard := h2\<rparr>" "pic_inv s2"
    using on_uart_eq [of "serial_reset e (uart m1)" m1] m1 unfolding m2_def [symmetric] by (auto simp: m0_def)
  have k: "kbd_inv (i8042_setup_a20_line [] i8042_initfn)"
    using init_inv [of 0] by (simp add: i8042_setup_a20_line_def i8042_initfn_def kbd_inv_def kbd_view_def)
  have "pc_inv m2"
    using m2(2) pit_initfn_reset power_on_inv k w(2) rtc_init_inv
    by (simp add: m2(1) m1(1) m0_def pc_inv_def spk_ok_def pcspk_state_def)
  moreover have "kbd_inv (i8042_system_reset (i8042 m2))" using k by (simp add: m2(1) m1(1) m0_def reset_inv)
  ultimately have "pc_inv (on_i8042 (i8042_system_reset (i8042 m2)) m2)" by (rule pc_inv_devices(4))
  then show ?thesis unfolding pc_init_def w(1) ok_or_def Let_def
    by (simp add: m0_def [symmetric] m1_def [symmetric] m2_def [symmetric])
qed


section \<open>A port reaches its handler\<close>

lemma register_keeps:
  assumes "register t r = Inr t'" "ioport_read_table t b i = Func f"
  shows "\<exists>g. ioport_read_table t' b i = Func g"
proof (cases r)
  case (RegR start n sz h op)
  have "run_err (register_read_at b' h op) t xs = Inr t' \<Longrightarrow> ioport_read_table t b i = Func f \<Longrightarrow> \<exists>g. ioport_read_table t' b i = Func g"
    for b' xs t f
  proof (induction xs arbitrary: t f)
    case (Cons x xs)
    then obtain t1 where t1: "register_read_at b' h op t x = Inr t1" "run_err (register_read_at b' h op) t1 xs = Inr t'"
      by (auto split: sum.splits)
    then have "\<exists>g. ioport_read_table t1 b i = Func g"
      using Cons.prems(2) by (auto simp: register_read_at_def Let_def split: if_splits)
    then show ?case using Cons.IH [OF t1(2)] by blast
  qed simp
  then show ?thesis using assms by (auto simp: RegR register_ioport_read_def split: option.splits)
next
  case (RegW start n sz h op)
  have "run_err (register_write_at b' h op) t xs = Inr t' \<Longrightarrow> ioport_read_table t' = ioport_read_table t" for b' xs t
  proof (induction xs arbitrary: t)
    case (Cons x xs)
    then obtain t1 where t1: "register_write_at b' h op t x = Inr t1" "run_err (register_write_at b' h op) t1 xs = Inr t'"
      by (auto split: sum.splits)
    then show ?case using Cons.IH [OF t1(2)] by (auto simp: register_write_at_def Let_def split: if_splits)
  qed simp
  then show ?thesis using assms by (auto simp: RegW register_ioport_write_def split: option.splits)
qed

lemma register_sets:
  assumes "register t (RegR start n sz h op) = Inr t'" "ioport_bsize sz = Some b" "i \<in> set (port_range start n sz)"
  shows "\<exists>g. ioport_read_table t' b i = Func g"
proof -
  have "run_err (register_read_at b h op) t xs = Inr t' \<Longrightarrow> i \<in> set xs \<or> (\<exists>g. ioport_read_table t b i = Func g) \<Longrightarrow>
    \<exists>g. ioport_read_table t' b i = Func g" for xs t
  proof (induction xs arbitrary: t)
    case (Cons x xs)
    then obtain t1 where t1: "register_read_at b h op t x = Inr t1" "run_err (register_read_at b h op) t1 xs = Inr t'"
      by (auto split: sum.splits)
    then have "i \<in> set xs \<or> (\<exists>g. ioport_read_table t1 b i = Func g)"
      using Cons.prems(2) by (auto simp: register_read_at_def Let_def split: if_splits)
    then show ?case using Cons.IH [OF t1(2)] by blast
  qed simp
  then show ?thesis using assms by (auto simp: register_ioport_read_def)
qed

lemma register_covers:
  assumes "run_err register t rs = Inr t'" "RegR start n sz h op \<in> set rs" "ioport_bsize sz = Some b" "i \<in> set (port_range start n sz)"
  shows "\<exists>g. ioport_read_table t' b i = Func g"
proof -
  have keep: "run_err register t rs = Inr t' \<Longrightarrow> ioport_read_table t b i = Func f \<Longrightarrow> \<exists>g. ioport_read_table t' b i = Func g" for t f rs
    by (induction rs arbitrary: t f) (auto split: sum.splits dest: register_keeps)
  show ?thesis using assms(1,2)
  proof (induction rs arbitrary: t)
    case (Cons r rs)
    then obtain t1 where t1: "register t r = Inr t1" "run_err register t1 rs = Inr t'" by (auto split: sum.splits)
    show ?case
    proof (cases "RegR start n sz h op \<in> set rs")
      case False
      then have "\<exists>g. ioport_read_table t1 b i = Func g" using Cons.prems(2) t1(1) assms(3,4) register_sets by auto
      then show ?thesis using keep [OF t1(2)] by blast
    qed (use Cons.IH [OF t1(2)] in blast)
  qed simp
qed

lemma pc_reads:
  assumes "RegR start n 1 h op \<in> set pc_regs" "i \<in> set (port_range start n 1)"
    and "\<And>r g. r \<in> set pc_regs \<Longrightarrow> reg_reads r 0 i g (pc_owner i) \<Longrightarrow> g = h"
  shows "ioport_read_table pc_table 0 i = Func h" "ioport_opaque pc_table i = pc_owner i"
proof -
  have r: "run_err register no_ports pc_regs = Inr pc_table" and g: "good_table pc_owner pc_regs pc_table"
    using pc_registered by (simp_all add: pc_ports_def)
  have "ioport_bsize 1 = Some 0" by (simp add: ioport_bsize_def)
  from register_covers [OF r assms(1) this assms(2)] obtain f where f: "ioport_read_table pc_table 0 i = Func f" by blast
  then have "ioport_opaque pc_table i = pc_owner i \<and> (\<exists>r \<in> set pc_regs. reg_reads r 0 i f (pc_owner i))"
    using g unfolding good_table_def by blast
  with f assms(3) show "ioport_read_table pc_table 0 i = Func h" "ioport_opaque pc_table i = pc_owner i" by auto
qed

lemma port60: "ioport_read_table pc_table 0 0x60 = Func h_kbd_read_data"
  "ioport_opaque pc_table 0x60 = Some OKbd"
proof -
  have o: "pc_owner 0x60 = Some OKbd" by (simp add: pc_owner_def pc_owners_def dma_ports_list upt_rec)
  have reg: "RegR 0x60 1 1 h_kbd_read_data (Some OKbd) \<in> set pc_regs" by (simp add: pc_regs_def basic_regs_def)
  have d: "\<not> reg_reads r b i g (Some OKbd)" if "r \<in> set (dma_regs_of k)" for r b i g k
    using that by (auto simp: dma_regs_of_def)
  have "g = h_kbd_read_data" if "r \<in> set pc_regs" "reg_reads r 0 0x60 g (Some OKbd)" for r g
    using that d by (auto simp: pc_regs_def basic_regs_def bochs_regs_def pic_regs_def port_range_def)
  then have u: "\<And>r g. r \<in> set pc_regs \<Longrightarrow> reg_reads r 0 0x60 g (pc_owner 0x60) \<Longrightarrow> g = h_kbd_read_data" unfolding o by blast
  have "0x60 \<in> set (port_range 0x60 1 1)" by (simp add: port_range_def)
  note h = pc_reads [OF reg this u]
  show "ioport_read_table pc_table 0 0x60 = Func h_kbd_read_data" by (rule h(1))
  show "ioport_opaque pc_table 0x60 = Some OKbd" using h(2) o by simp
qed

lemma in_60: "cpu_inb pc_table 0x60 m = (case kbd_read_data (i8042 m) of (v, k) \<Rightarrow> Inr (ucast v, on_i8042 k m))"
  by (simp add: cpu_inb_def ioport_read.simps port60 h_kbd_read_data_def MAX_IOPORTS_def split: prod.split)

section \<open>From a device to the CPU\<close>

definition requesting :: "PicState2 \<Rightarrow> nat \<Rightarrow> bool" where
  "requesting s i \<longleftrightarrow> irr (pics s 0) = shl1 i \<and> isr (pics s 0) = 0 \<and> \<not> bit (imr (pics s 0)) i \<and> irr (pics s 1) = 0"

lemma update_requesting:
  assumes "requesting s i" "i < 8"
  shows "pic_update_irq s = s\<lparr>parent_irq := parent_irq s @ [1]\<rparr>"
proof -
  have "pic_get_irq s 0 = Some i" using assms by (intro pic_get_irq_only) (simp_all add: requesting_def)
  moreover have "pic_get_irq s 1 = None" using assms(1) by (intro pic_get_irq_idle) (simp add: requesting_def)
  ultimately show ?thesis by (simp add: pic_update_irq_def)
qed

lemma requesting_parent [simp]: "requesting (s\<lparr>parent_irq := l\<rparr>) i = requesting s i"
  by (simp add: requesting_def)

lemma raise_requesting:
  assumes "idle_for (pics s 0) i" "irr (pics s 1) = 0" "i < 8"
  shows "requesting (i8259_set_irq s i 1) i \<and> irq_base (pics (i8259_set_irq s i 1) 0) = irq_base (pics s 0) \<and>
    parent_irq (i8259_set_irq s i 1) = parent_irq s @ [1]"
proof -
  let ?t = "upd_pic 0 (\<lambda>p. pic_set_irq1 p i 1) s"
  have "requesting ?t i" using assms by (simp add: requesting_def set_irq1_idle) (simp add: idle_for_def)
  with update_requesting [OF this assms(3)] show ?thesis using assms(3) by (simp add: i8259_set_irq_def)
qed

lemma lower_requesting:
  assumes "requesting s i" "i < 8"
  shows "requesting (i8259_set_irq s 12 0) i \<and> irq_base (pics (i8259_set_irq s 12 0) 0) = irq_base (pics s 0) \<and>
    parent_irq (i8259_set_irq s 12 0) = parent_irq s @ [1]"
proof -
  let ?t = "upd_pic 1 (\<lambda>p. pic_set_irq1 p 4 0) s"
  have t: "requesting ?t i" using assms(1) by (simp add: requesting_def pic_set_irq1_def Let_def)
  have "(12 AND 7 :: nat) = 4" "(12 div 8 :: nat) = 1" by simp_all
  then have "i8259_set_irq s 12 0 = pic_update_irq ?t" by (simp only: i8259_set_irq_def)
  with update_requesting [OF t assms(2)] t show ?thesis by simp
qed

lemma requesting_vector:
  assumes "requesting (isa_pic m) i" "i < 8" "i \<noteq> 2"
  shows "fst (cpu_get_pic_interrupt m) = uint (irq_base (pics (isa_pic m) 0)) + int i"
proof -
  have "pic_get_irq (isa_pic m) 0 = Some i" using assms by (intro pic_get_irq_only) (simp_all add: requesting_def)
  then have "fst (pic_read_irq (isa_pic m)) = unat (irq_base (pics (isa_pic m) 0)) + i"
    using assms(3) by (simp add: pic_read_irq_def Let_def pic_intack_def)
  then show ?thesis by (simp add: cpu_get_pic_interrupt_def)
qed

lemma route_raise:
  assumes "idle_for (pics (isa_pic m) 0) i" "irr (pics (isa_pic m) 1) = 0" "i < 8"
  shows "\<exists>s. isa_irq_handler i 1 m = m\<lparr>isa_pic := s, cpu_hard := True\<rparr> \<and> requesting s i \<and>
    irq_base (pics s 0) = irq_base (pics (isa_pic m) 0)"
  using raise_requesting [OF assms] assms(3)
  by (intro exI [of _ "i8259_set_irq (isa_pic m) i 1"]) (simp add: isa_irq_handler_def on_pic_eq)

lemma route_lower_12:
  assumes "requesting (isa_pic m) i" "i < 8"
  shows "\<exists>s. isa_irq_handler 12 0 m = m\<lparr>isa_pic := s, cpu_hard := True\<rparr> \<and> requesting s i \<and>
    irq_base (pics s 0) = irq_base (pics (isa_pic m) 0)"
  using lower_requesting [OF assms]
  by (intro exI [of _ "i8259_set_irq (isa_pic m) 12 0"]) (simp add: isa_irq_handler_def on_pic_eq)

lemma acknowledge_frame:
  "i8042 (snd (cpu_get_pic_interrupt m)) = i8042 m" "pc_inv m \<Longrightarrow> pc_inv (snd (cpu_get_pic_interrupt m))"
  using pic_inv_read_irq [of "isa_pic m"] by (simp_all add: cpu_get_pic_interrupt_def on_pic_eq) (simp add: pc_inv_def)

text \<open>A key in translated mode, with both queues empty: one byte queued, IRQ 1 high, IRQ 12 low.\<close>

lemma key_levels:
  assumes "kbd_inv k" "kbd_bytes k = []" "aux_bytes k = []" "translate (kbd k) \<noteq> 0"
    and "bit (KBDState.mode k) 0" "\<not> bit (KBDState.mode k) 4"
  shows "kbd_levels k (kbd_step k (KKey c)) = [(1, 1), (12, 0)]" "kbd_bytes (kbd_step k (KKey c)) = [word_of_int c]"
    "a20_levels k (kbd_step k (KKey c)) = []" "reset_requests (kbd_step k (KKey c)) = reset_requests k"
proof -
  have ok: "ps2_ok (kcommon (kbd k))" "update_irq (kcommon (kbd k)) = []" using assms(1) by (simp_all add: kbd_inv_def)
  have n: "PS2Queue.count (queue (kcommon (kbd k))) = 0" using assms(2) by (metis length_ps2_bytes list.size(3))
  let ?q = "ps2_queue (kcommon (kbd k)) c"
  have put: "ps2_put_keycode (kbd k) c = (kbd k)\<lparr>kcommon := ?q\<rparr>" using assms(4) by (simp add: ps2_put_keycode_def)
  have q: "update_irq ?q = [1]" using n ok(2) by (simp add: ps2_queue_def PS2_QUEUE_SIZE_def Let_def)
  have st: "kbd_step k (KKey c) = kbd_update_kbd_irq (k\<lparr>kbd := (kbd k)\<lparr>kcommon := ?q\<lparr>update_irq := []\<rparr>\<rparr>\<rparr>) 1"
    by (simp add: put kbd_calls_def q)
  have p: "pending k = 0" using assms(1-3) by (auto simp: kbd_inv_def waiting_def)
  show "kbd_bytes (kbd_step k (KKey c)) = [word_of_int c]"
    using ps2_queue_room [OF ok(1), of c] n assms(2) by (simp add: put)
  have m: "KBDState.mode k AND 1 \<noteq> 0" "KBDState.mode k AND 0x10 = 0" using assms(5,6) by (simp_all add: and_bit_test)
  show "kbd_levels k (kbd_step k (KKey c)) = [(1, 1), (12, 0)]"
    using p m unfolding st kbd_levels_def kbd_update_kbd_irq_def kbd_update_irq_def
    by (simp add: Let_def fresh_def KBD_PENDING_KBD_def KBD_PENDING_AUX_def)
  show "a20_levels k (kbd_step k (KKey c)) = []" "reset_requests (kbd_step k (KKey c)) = reset_requests k"
    unfolding st by (simp_all add: a20_levels_def fresh_def split: option.split)
qed

lemma byte_back: "(ucast (ucast (b :: u8) :: u32) :: u8) = b"
  by (rule bit_word_eqI) (simp add: bit_simps)

lemma route_i8042: "i8042 (route ls m) = i8042 m"
  using route_eq [of ls m] by auto

lemma on_i8042_device: "i8042 (on_i8042 k m) = k"
proof -
  have "i8042 (foldl (\<lambda>m l. handle_a20_line_change l m) m ls) = i8042 m" for m ls
    by (induction ls arbitrary: m) (simp_all add: handle_a20_line_change_def)
  then show ?thesis by (simp add: on_i8042_def Let_def route_i8042)
qed

section \<open>Properties\<close>

text \<open>
  C1: the machine is safe for every guest. Registering the ports of all the devices succeeds, and
  from power-on no sequence of port instructions, interrupt acknowledges, host inputs, timers and
  resets breaks the invariant of any device or ends the process, apart from the two accesses that
  end it on purpose: ICW1 of an 8259 with the level-triggered bit, and a word write to the panic
  ports of the VGA BIOS, \<open>0x501\<close> and \<open>0x502\<close>.
\<close>

theorem pc_guest_safe:
  "pc_ports = Inr pc_table \<and> (\<exists>m. pc_init e re host = Inr m \<and>
     (case run_err pc_step m evs of Inr m' \<Rightarrow> pc_inv m' | Inl err \<Rightarrow> err = DeviceError \<and> list_ex fatal_event evs))"
proof -
  have "case run_err pc_step m evs of Inr m' \<Rightarrow> pc_inv m' | Inl err \<Rightarrow> err = DeviceError \<and> list_ex fatal_event evs"
    if "pc_inv m" for m evs using that
  proof (induction evs arbitrary: m)
    case (Cons ev evs)
    from pc_step_inv [OF Cons.prems, of ev] show ?case
    proof
      assume "\<exists>m'. pc_step m ev = Inr m' \<and> pc_inv m'"
      then obtain m' where "pc_step m ev = Inr m'" "pc_inv m'" by blast
      with Cons.IH [of m'] show ?thesis by (auto split: sum.splits)
    qed simp
  qed simp
  then show ?thesis using pc_init_inv pc_registered by blast
qed

text \<open>
  C13: a key press reaches the program in the guest. With the 8259s idle, IRQ 1 unmasked and both
  PS/2 queues empty, the keyboard interrupt enabled and scan codes translated, a key on the host
  raises the CPU's interrupt line; the acknowledge returns the master's vector base plus one; the
  read of port \<open>0x60\<close> in the handler returns the key code, and leaves both queues empty.
\<close>

theorem pc_key_interrupt:
  assumes "pc_inv m" "idle_for (pics (isa_pic m) 0) 1" "irr (pics (isa_pic m) 1) = 0"
    and "kbd_bytes (i8042 m) = []" "aux_bytes (i8042 m) = []" "translate (kbd (i8042 m)) \<noteq> 0"
    and "bit (KBDState.mode (i8042 m)) 0" "\<not> bit (KBDState.mode (i8042 m)) 4"
  shows "\<exists>m1 m2. pc_step m (Kbd (KKey c)) = Inr m1 \<and> cpu_hard m1 \<and>
    fst (cpu_get_pic_interrupt m1) = uint (irq_base (pics (isa_pic m) 0)) + 1 \<and>
    cpu_inb pc_table 0x60 (snd (cpu_get_pic_interrupt m1)) = Inr (word_of_int c, m2) \<and>
    kbd_bytes (i8042 m2) = [] \<and> aux_bytes (i8042 m2) = []"
proof -
  have k: "kbd_inv (i8042 m)" using assms(1) by (simp add: pc_inv_def)
  let ?k = "kbd_step (i8042 m) (KKey c)"
  note l = key_levels [OF k assms(4-8), of c]
  let ?m = "m\<lparr>i8042 := ?k, reset_req := reset_req m\<rparr>"
  obtain s1 where s1: "isa_irq_handler 1 1 ?m = ?m\<lparr>isa_pic := s1, cpu_hard := True\<rparr>" "requesting s1 1"
    "irq_base (pics s1 0) = irq_base (pics (isa_pic m) 0)"
    using route_raise [of ?m 1] assms(2,3) by auto
  obtain s2 where s2: "isa_irq_handler 12 0 (?m\<lparr>isa_pic := s1, cpu_hard := True\<rparr>) = ?m\<lparr>isa_pic := s2, cpu_hard := True\<rparr>"
    "requesting s2 1" "irq_base (pics s2 0) = irq_base (pics (isa_pic m) 0)"
    using route_lower_12 [of "?m\<lparr>isa_pic := s1, cpu_hard := True\<rparr>" 1] s1(2,3) by auto
  define m1 where "m1 = ?m\<lparr>isa_pic := s2, cpu_hard := True\<rparr>"
  have st: "pc_step m (Kbd (KKey c)) = Inr m1"
    using l s1(1) s2(1) by (simp add: on_i8042_def route_def m1_def del: kbd_step.simps)
  have v: "fst (cpu_get_pic_interrupt m1) = uint (irq_base (pics (isa_pic m) 0)) + 1"
    using requesting_vector [of m1 1] s2(2,3) by (simp add: m1_def)
  let ?a = "snd (cpu_get_pic_interrupt m1)"
  have a: "i8042 ?a = ?k" by (simp add: acknowledge_frame(1) m1_def del: kbd_step.simps)
  have ne: "kbd_bytes ?k @ aux_bytes ?k = [word_of_int c]" using l(2) assms(5) by simp
  then have "kbd_bytes ?k @ aux_bytes ?k \<noteq> []" by (metis list.distinct(1))
  note r = kbd_read_data_cases [OF kbd_sys.inv_step [OF k] this, unfolded ne]
  obtain w k' where w: "kbd_read_data ?k = (w, k')" by fastforce
  have w': "w = ucast (word_of_int c :: u8)" "kbd_bytes k' = []" "aux_bytes k' = []" using r unfolding w by simp_all
  obtain m2 where m2: "cpu_inb pc_table 0x60 ?a = Inr (word_of_int c, m2)" "i8042 m2 = k'"
    using w w'(1) on_i8042_device by (simp add: in_60 a byte_back)
  show ?thesis using st v m2 w'(2,3) by (intro exI [of _ m1] exI [of _ m2]) (simp add: m1_def)
qed

text \<open>
  C34: a tick of the timer reaches the CPU. With the 8259s idle and IRQ 0 unmasked, the expiry of
  the interrupt timer of channel 0 at a moment its output is high raises the CPU's interrupt line,
  and the acknowledge returns the master's vector base; when its output is low, nothing is requested.
\<close>

theorem pc_timer_interrupt:
  assumes "pc_inv m" "idle_for (pics (isa_pic m) 0) 0" "irr (pics (isa_pic m) 1) = 0"
    and "ch = channels (pit m) ! 0" "\<not> cpu_hard m"
  shows "\<exists>m1. pc_step m PitTimer = Inr m1 \<and> cpu_hard m1 = (pit_get_out1 ch (next_transition_time ch) = 1) \<and>
    (cpu_hard m1 \<longrightarrow> fst (cpu_get_pic_interrupt m1) = uint (irq_base (pics (isa_pic m) 0)))"
proof -
  have p: "length (channels (pit m)) = 3" "irq_timer ch \<noteq> None"
    using assms(1,4) by (simp_all add: pc_inv_def pit_inv_def)
  let ?l = "pit_get_out1 ch (next_transition_time ch)"
  let ?p = "upd_channel (pit m) 0 pit_irq_timer"
  have lev: "?l = 0 \<or> ?l = 1" by (simp add: pit_get_out1_def Let_def)
  have "chan_irq (channels ?p ! 0) = chan_irq ch @ [?l]"
    using p assms(4) by (auto simp: upd_channel_def pit_irq_timer_def pit_irq_timer_update_def Let_def)
  then have st: "pc_step m PitTimer = Inr (isa_irq_handler 0 ?l (m\<lparr>pit := ?p\<rparr>))"
    using assms(4) by (simp add: pit_step_def dev_err_def on_pit_def fresh_def route_def)
  show ?thesis
  proof (cases "?l = 1")
    case True
    obtain s where s: "isa_irq_handler 0 1 (m\<lparr>pit := ?p\<rparr>) = m\<lparr>pit := ?p, isa_pic := s, cpu_hard := True\<rparr>" "requesting s 0"
      "irq_base (pics s 0) = irq_base (pics (isa_pic m) 0)"
      using route_raise [of "m\<lparr>pit := ?p\<rparr>" 0] assms(2,3) by auto
    then show ?thesis using st True requesting_vector [of "m\<lparr>pit := ?p, isa_pic := s, cpu_hard := True\<rparr>" 0] by simp
  next
    case False
    then have 0: "?l = 0" using lev by blast
    have idle: "irr (pics (isa_pic m) 0) = 0" using assms(2) by (simp add: idle_for_def)
    let ?t = "upd_pic 0 (\<lambda>p. pic_set_irq1 p 0 0) (isa_pic m)"
    have "pic_get_irq ?t 0 = None" using idle by (intro pic_get_irq_idle) (simp add: pic_set_irq1_def Let_def)
    moreover have "pic_get_irq ?t 1 = None" using assms(3) by (intro pic_get_irq_idle) simp
    ultimately have "i8259_set_irq (isa_pic m) 0 0 = ?t" by (simp add: i8259_set_irq_def pic_update_irq_def)
    then have "\<not> cpu_hard (isa_irq_handler 0 0 (m\<lparr>pit := ?p\<rparr>))"
      using assms(5) by (simp add: isa_irq_handler_def on_pic_eq)
    then show ?thesis using st 0 by simp
  qed
qed

section \<open>Witnesses\<close>

text \<open>The machine after its firmware has programmed the 8259s and the keyboard controller.\<close>

definition pc_booted :: pc where
  "pc_booted = \<lparr>isa_pic = pic_booted, pit = upd_channel (pit_reset 0 pit_initfn) 0 (\<lambda>c. c\<lparr>next_transition_time := 0\<rparr>),
     i8042 = (let k = i8042_system_reset i8042_initfn in k\<lparr>kbd := (kbd k)\<lparr>translate := 1\<rparr>\<rparr>), uart = serial_reset \<lparr>now = 0, write_ok = True, tiocm = None, junk = 0\<rparr> serial_isa_initfn,
     rtc = rtc_init \<lparr>rtc_now = 0, irq_delivered = True, rtc_td_hack = False\<rparr>
       \<lparr>tm_sec = 0, tm_min = 0, tm_hour = 0, tm_mday = 1, tm_mon = 0, tm_year = 110, tm_wday = 5\<rparr> 2000,
     spk = pcspk_state, dma = the (DMA_init no_dma_device ()), port92 = \<lparr>p92_outport = 0\<rparr>, shutdown_index = 0,
     reset_req = 0, shutdown_req = 0, cpu_hard = False, cpu_a20 = True,
     penv = \<lparr>now = 0, write_ok = True, tiocm = None, junk = 0\<rparr>, renv = \<lparr>rtc_now = 0, irq_delivered = True, rtc_td_hack = False\<rparr>\<rparr>"

lemma pc_booted_inv: "pc_inv pc_booted"
proof -
  obtain w where w: "DMA_init no_dma_device () = Some w" "dma_ok w" using DMA_init_ok [of no_dma_device "()"] by blast
  have "pic_inv pic_booted" by (simp add: pic_inv_def pic_ok_def pic_example_defs)
  moreover have "pit_inv (upd_channel (pit_reset 0 pit_initfn) 0 (\<lambda>c. c\<lparr>next_transition_time := 0\<rparr>))"
    using pit_initfn_reset [of 0] by (simp add: pit_inv_def upd_channel_def nth_list_update chan_ok_def)
  moreover have "kbd_inv ((i8042_system_reset i8042_initfn)\<lparr>kbd := (kbd (i8042_system_reset i8042_initfn))\<lparr>translate := 1\<rparr>\<rparr>)"
    using kbd_init_inv by (simp add: kbd_inv_def)
  ultimately show ?thesis
    using w power_on_inv rtc_init_inv
    by (simp add: pc_booted_def pc_inv_def spk_ok_def pcspk_state_def Let_def)
qed

lemma pc_booted_idle: "i < 8 \<Longrightarrow> idle_for (pics (isa_pic pc_booted) 0) i" "irr (pics (isa_pic pc_booted) 1) = 0"
  "irq_base (pics (isa_pic pc_booted) 0) = 8"
  by (simp_all add: pc_booted_def idle_for_def pic_example_defs)

theorem pc_key_interrupt_witness:
  "\<exists>m1 m2. pc_step pc_booted (Kbd (KKey 0x1e)) = Inr m1 \<and> cpu_hard m1 \<and> fst (cpu_get_pic_interrupt m1) = 9 \<and>
    cpu_inb pc_table 0x60 (snd (cpu_get_pic_interrupt m1)) = Inr (0x1e, m2)"
proof -
  have "kbd_bytes (i8042 pc_booted) = []" "aux_bytes (i8042 pc_booted) = []" "translate (kbd (i8042 pc_booted)) \<noteq> 0"
    "bit (KBDState.mode (i8042 pc_booted)) 0" "\<not> bit (KBDState.mode (i8042 pc_booted)) 4"
    by (simp_all add: pc_booted_def Let_def i8042_system_reset_def i8042_initfn_def kbd_reset_def kbd_calls_def aux_calls_def
        ps2_kbd_reset_def ps2_mouse_reset_def ps2_common_reset_def ps2_bytes_def)
  from pc_key_interrupt [OF pc_booted_inv pc_booted_idle(1,2) this, of "0x1e"] show ?thesis
    using pc_booted_idle(3) by auto
qed

theorem pc_timer_interrupt_witness:
  "\<exists>m1. pc_step pc_booted PitTimer = Inr m1 \<and> cpu_hard m1 \<and> fst (cpu_get_pic_interrupt m1) = 8"
proof -
  let ?ch = "channels (pit pc_booted) ! 0"
  have h: "\<not> cpu_hard pc_booted" by (simp add: pc_booted_def)
  have "muldiv64 0 PIT_FREQ ticks_per_sec = 0" by code_simp
  then have "pit_get_out1 ?ch (next_transition_time ?ch) = 1"
    by (simp add: pc_booted_def upd_channel_def pit_reset_def pit_initfn_def pit_load_count_def pit_irq_timer_update_def
        pit_zero_def Let_def pit_get_out1_def pit_ticks_def)
  then show ?thesis
    using pc_timer_interrupt [OF pc_booted_inv pc_booted_idle(1) pc_booted_idle(2) refl h] pc_booted_idle(3) by auto
qed

end
