(* ===== verification/JsonLexer.thy ===== *)
theory JsonLexer
  imports Prelude
begin

text \<open>
  The JSON lexer and the message splitter of the monitor protocol, \<open>json-lexer.c\<close> and
  \<open>json-streamer.c\<close>. The codes of the automaton's states and of the token types share one integer
  in the source; they are one datatype here. A row of the transition table is the list of its
  initialisers, in the order the source has them: a later one overrides an earlier one, and bytes
  without one go to \<open>IN_ERROR\<close>. (The source has the table twice, with ranges and, for the compiler
  of Windows, byte by byte; the two are equal.)

  A token is the string, the type and the position that the lexer passes to its \<open>emit\<close> callback.
  The callback does not touch the lexer, so an operation returns the tokens it emits. Tokens are
  built from a \<open>QString\<close>, whose buffer is the subject of the theory of objects; here they are
  their bytes. Lengths and the nesting counters stay far below the limits of their C types, as the
  bounds the code checks show.
\<close>

section \<open>The automaton\<close>

datatype lex_code =
  IN_ERROR
| IN_DQ_UCODE3 | IN_DQ_UCODE2 | IN_DQ_UCODE1 | IN_DQ_UCODE0 | IN_DQ_STRING_ESCAPE | IN_DQ_STRING
| IN_SQ_UCODE3 | IN_SQ_UCODE2 | IN_SQ_UCODE1 | IN_SQ_UCODE0 | IN_SQ_STRING_ESCAPE | IN_SQ_STRING
| IN_ZERO | IN_DIGITS | IN_DIGIT | IN_EXP_E | IN_MANTISSA | IN_MANTISSA_DIGITS
| IN_NONZERO_NUMBER | IN_NEG_NONZERO_NUMBER | IN_KEYWORD
| IN_ESCAPE | IN_ESCAPE_L | IN_ESCAPE_LL | IN_ESCAPE_I | IN_ESCAPE_I6 | IN_ESCAPE_I64
| IN_WHITESPACE | IN_START
| JSON_OPERATOR | JSON_INTEGER | JSON_FLOAT | JSON_KEYWORD | JSON_STRING | JSON_ESCAPE | JSON_SKIP | JSON_ERROR

type_synonym lex_row = "(u8 \<times> u8 \<times> lex_code) list"

abbreviation at_byte :: "u8 \<Rightarrow> lex_code \<Rightarrow> u8 \<times> u8 \<times> lex_code" where "at_byte c s \<equiv> (c, c, s)"
abbreviation terminal :: "lex_code \<Rightarrow> u8 \<times> u8 \<times> lex_code" where "terminal s \<equiv> (0, 0x7f, s)"

definition hex_row :: "lex_code \<Rightarrow> lex_row" where
  "hex_row s = [(0x30, 0x39, s), (0x61, 0x66, s), (0x41, 0x46, s)]"

definition digit_row :: "lex_code \<Rightarrow> u8 \<times> u8 \<times> lex_code" where
  "digit_row s = (0x30, 0x39, s)"

definition space_row :: lex_row where
  "space_row = [at_byte 0x20 IN_WHITESPACE, at_byte 0x09 IN_WHITESPACE, at_byte 0x0d IN_WHITESPACE, at_byte 0x0a IN_WHITESPACE]"

fun lexer_row :: "lex_code \<Rightarrow> lex_row" where
  "lexer_row IN_DQ_UCODE3 = hex_row IN_DQ_STRING"
| "lexer_row IN_DQ_UCODE2 = hex_row IN_DQ_UCODE3"
| "lexer_row IN_DQ_UCODE1 = hex_row IN_DQ_UCODE2"
| "lexer_row IN_DQ_UCODE0 = hex_row IN_DQ_UCODE1"
| "lexer_row IN_DQ_STRING_ESCAPE =
     [at_byte 0x62 IN_DQ_STRING, at_byte 0x66 IN_DQ_STRING, at_byte 0x6e IN_DQ_STRING, at_byte 0x72 IN_DQ_STRING,
      at_byte 0x74 IN_DQ_STRING, at_byte 0x2f IN_DQ_STRING, at_byte 0x5c IN_DQ_STRING, at_byte 0x27 IN_DQ_STRING,
      at_byte 0x22 IN_DQ_STRING, at_byte 0x75 IN_DQ_UCODE0]"
| "lexer_row IN_DQ_STRING =
     [(1, 0xbf, IN_DQ_STRING), (0xc2, 0xf4, IN_DQ_STRING), at_byte 0x5c IN_DQ_STRING_ESCAPE, at_byte 0x22 JSON_STRING]"
| "lexer_row IN_SQ_UCODE3 = hex_row IN_SQ_STRING"
| "lexer_row IN_SQ_UCODE2 = hex_row IN_SQ_UCODE3"
| "lexer_row IN_SQ_UCODE1 = hex_row IN_SQ_UCODE2"
| "lexer_row IN_SQ_UCODE0 = hex_row IN_SQ_UCODE1"
| "lexer_row IN_SQ_STRING_ESCAPE =
     [at_byte 0x62 IN_SQ_STRING, at_byte 0x66 IN_SQ_STRING, at_byte 0x6e IN_SQ_STRING, at_byte 0x72 IN_SQ_STRING,
      at_byte 0x74 IN_SQ_STRING, at_byte 0x2f IN_DQ_STRING, at_byte 0x5c IN_DQ_STRING, at_byte 0x27 IN_SQ_STRING,
      at_byte 0x22 IN_SQ_STRING, at_byte 0x75 IN_SQ_UCODE0]"
| "lexer_row IN_SQ_STRING =
     [(1, 0xbf, IN_SQ_STRING), (0xc2, 0xf4, IN_SQ_STRING), at_byte 0x5c IN_SQ_STRING_ESCAPE, at_byte 0x27 JSON_STRING]"
| "lexer_row IN_ZERO = [terminal JSON_INTEGER, digit_row IN_ERROR, at_byte 0x2e IN_MANTISSA]"
| "lexer_row IN_DIGITS = [terminal JSON_FLOAT, digit_row IN_DIGITS]"
| "lexer_row IN_DIGIT = [digit_row IN_DIGITS]"
| "lexer_row IN_EXP_E = [at_byte 0x2d IN_DIGIT, at_byte 0x2b IN_DIGIT, digit_row IN_DIGITS]"
| "lexer_row IN_MANTISSA_DIGITS =
     [terminal JSON_FLOAT, digit_row IN_MANTISSA_DIGITS, at_byte 0x65 IN_EXP_E, at_byte 0x45 IN_EXP_E]"
| "lexer_row IN_MANTISSA = [digit_row IN_MANTISSA_DIGITS]"
| "lexer_row IN_NONZERO_NUMBER =
     [terminal JSON_INTEGER, digit_row IN_NONZERO_NUMBER, at_byte 0x65 IN_EXP_E, at_byte 0x45 IN_EXP_E,
      at_byte 0x2e IN_MANTISSA]"
| "lexer_row IN_NEG_NONZERO_NUMBER = [at_byte 0x30 IN_ZERO, (0x31, 0x39, IN_NONZERO_NUMBER)]"
| "lexer_row IN_KEYWORD = [terminal JSON_KEYWORD, (0x61, 0x7a, IN_KEYWORD)]"
| "lexer_row IN_WHITESPACE = terminal JSON_SKIP # space_row"
| "lexer_row IN_ESCAPE_LL = [at_byte 0x64 JSON_ESCAPE]"
| "lexer_row IN_ESCAPE_L = [at_byte 0x64 JSON_ESCAPE, at_byte 0x6c IN_ESCAPE_LL]"
| "lexer_row IN_ESCAPE_I64 = [at_byte 0x64 JSON_ESCAPE]"
| "lexer_row IN_ESCAPE_I6 = [at_byte 0x34 IN_ESCAPE_I64]"
| "lexer_row IN_ESCAPE_I = [at_byte 0x36 IN_ESCAPE_I6]"
| "lexer_row IN_ESCAPE =
     [at_byte 0x64 JSON_ESCAPE, at_byte 0x69 JSON_ESCAPE, at_byte 0x70 JSON_ESCAPE, at_byte 0x73 JSON_ESCAPE,
      at_byte 0x66 JSON_ESCAPE, at_byte 0x6c IN_ESCAPE_L, at_byte 0x49 IN_ESCAPE_I]"
| "lexer_row IN_START =
     [at_byte 0x22 IN_DQ_STRING, at_byte 0x27 IN_SQ_STRING, at_byte 0x30 IN_ZERO, (0x31, 0x39, IN_NONZERO_NUMBER),
      at_byte 0x2d IN_NEG_NONZERO_NUMBER, at_byte 0x7b JSON_OPERATOR, at_byte 0x7d JSON_OPERATOR,
      at_byte 0x5b JSON_OPERATOR, at_byte 0x5d JSON_OPERATOR, at_byte 0x2c JSON_OPERATOR, at_byte 0x3a JSON_OPERATOR,
      (0x61, 0x7a, IN_KEYWORD), at_byte 0x25 IN_ESCAPE] @ space_row"
| "lexer_row _ = []"

definition json_lexer :: "lex_code \<Rightarrow> u8 \<Rightarrow> lex_code" where
  "json_lexer s c = foldl (\<lambda>r (a, b, s'). if a \<le> c \<and> c \<le> b then s' else r) IN_ERROR (lexer_row s)"

definition terminal_needed_lookahead :: "lex_code \<Rightarrow> lex_code \<Rightarrow> bool" where
  "terminal_needed_lookahead old_state t \<longleftrightarrow> json_lexer old_state 0 = t"

section \<open>The lexer\<close>

record JSONLexer =
  lstate :: lex_code
  ltoken :: "u8 list"
  lx :: int
  ly :: int

record JSONToken =
  ttype :: lex_code
  tvalue :: "u8 list"
  tx :: int
  ty :: int

definition MAX_TOKEN_SIZE :: nat where "MAX_TOKEN_SIZE = 64 * 2 ^ 20"

definition json_lexer_init :: JSONLexer where
  "json_lexer_init = \<lparr>lstate = IN_START, ltoken = [], lx = 0, ly = 0\<rparr>"

definition lexer_emit :: "JSONLexer \<Rightarrow> lex_code \<Rightarrow> JSONToken" where
  "lexer_emit l t = \<lparr>ttype = t, tvalue = ltoken l, tx = lx l, ty = ly l\<rparr>"

definition lexer_reset :: "JSONLexer \<Rightarrow> JSONLexer" where
  "lexer_reset l = l\<lparr>ltoken := [], lstate := IN_START\<rparr>"

lemma json_lexer_0:
  "json_lexer s 0 =
     (case s of IN_ZERO \<Rightarrow> JSON_INTEGER | IN_NONZERO_NUMBER \<Rightarrow> JSON_INTEGER | IN_DIGITS \<Rightarrow> JSON_FLOAT
      | IN_MANTISSA_DIGITS \<Rightarrow> JSON_FLOAT | IN_KEYWORD \<Rightarrow> JSON_KEYWORD | IN_WHITESPACE \<Rightarrow> JSON_SKIP | _ \<Rightarrow> IN_ERROR)"
  by (cases s) (simp_all add: json_lexer_def hex_row_def digit_row_def space_row_def)

text \<open>The \<open>do\<close> loop of \<open>json_lexer_feed_char\<close>.\<close>

function feed_char_loop :: "JSONLexer \<Rightarrow> u8 \<Rightarrow> bool \<Rightarrow> JSONToken list \<times> JSONLexer" where
  "feed_char_loop l ch flush =
     (let new_state = json_lexer (lstate l) ch;
          char_consumed = (\<not> terminal_needed_lookahead (lstate l) new_state);
          l = (if char_consumed then l\<lparr>ltoken := ltoken l @ [ch]\<rparr> else l)
      in if new_state = IN_ERROR then ([lexer_emit l JSON_ERROR], lexer_reset l)
         else
           (let (es, l) =
              (if new_state \<in> {JSON_OPERATOR, JSON_ESCAPE, JSON_INTEGER, JSON_FLOAT, JSON_KEYWORD, JSON_STRING}
               then ([lexer_emit l new_state], lexer_reset l)
               else if new_state = JSON_SKIP then ([], lexer_reset l)
               else ([], l\<lparr>lstate := new_state\<rparr>))
            in if \<not> char_consumed \<and> \<not> flush
               then (let (es', l) = feed_char_loop l ch flush in (es @ es', l))
               else (es, l)))"
  by pat_completeness auto

termination feed_char_loop
proof (relation "measure (\<lambda>(l, ch, flush). if lstate l = IN_START then 0 else (1 :: nat))", goal_cases)
  case (2 l ch flush n c l1 p es l2)
  have z: "json_lexer (lstate l) 0 = n" using 2 by (auto simp: terminal_needed_lookahead_def)
  with 2(4) have n: "lstate l \<noteq> IN_START" "n \<in> {JSON_INTEGER, JSON_FLOAT, JSON_KEYWORD, JSON_SKIP}"
    by (cases "lstate l"; simp add: json_lexer_0)+
  have "lstate l2 = IN_START" using 2 n(2) by (auto simp: lexer_reset_def split: if_splits)
  then show ?case using n(1) by simp
qed simp

declare feed_char_loop.simps [simp del]

definition json_lexer_feed_char :: "JSONLexer \<Rightarrow> u8 \<Rightarrow> bool \<Rightarrow> JSONToken list \<times> JSONLexer" where
  "json_lexer_feed_char l ch flush =
     (let l = l\<lparr>lx := lx l + 1\<rparr>;
          l = (if ch = 0x0a then l\<lparr>lx := 0, ly := ly l + 1\<rparr> else l);
          (es, l) = feed_char_loop l ch flush
      in if length (ltoken l) > MAX_TOKEN_SIZE then (es @ [lexer_emit l (lstate l)], lexer_reset l) else (es, l))"

fun json_lexer_feed :: "JSONLexer \<Rightarrow> u8 list \<Rightarrow> JSONToken list \<times> JSONLexer" where
  "json_lexer_feed l [] = ([], l)"
| "json_lexer_feed l (c # cs) =
     (let (es, l) = json_lexer_feed_char l c False; (es', l) = json_lexer_feed l cs in (es @ es', l))"

definition json_lexer_flush :: "JSONLexer \<Rightarrow> JSONToken list \<times> JSONLexer" where
  "json_lexer_flush l = (if lstate l = IN_START then ([], l) else json_lexer_feed_char l 0 True)"

section \<open>The message splitter\<close>

definition MAX_NESTING :: int where "MAX_NESTING = 2 ^ 10"

record JSONMessageParser =
  mlexer :: JSONLexer
  brace_count :: int
  bracket_count :: int
  mtokens :: "JSONToken list"
  token_size :: nat

text \<open>
  \<open>None\<close> is the null list that stands for an error. What the parser's \<open>emit\<close> callback is given is
  returned, at most one list for a token.
\<close>

definition count_token :: "JSONToken \<Rightarrow> JSONMessageParser \<Rightarrow> JSONMessageParser" where
  "count_token t p =
     (let c = (if ttype t = JSON_OPERATOR then hd (tvalue t @ [0]) else 0)
      in if c = 0x7b then p\<lparr>brace_count := brace_count p + 1\<rparr>
         else if c = 0x7d then p\<lparr>brace_count := brace_count p - 1\<rparr>
         else if c = 0x5b then p\<lparr>bracket_count := bracket_count p + 1\<rparr>
         else if c = 0x5d then p\<lparr>bracket_count := bracket_count p - 1\<rparr>
         else p)"

definition json_message_process_token :: "JSONMessageParser \<Rightarrow> JSONToken \<Rightarrow> JSONToken list option list \<times> JSONMessageParser" where
  "json_message_process_token p t =
     (let p = count_token t p;
          p = p\<lparr>token_size := token_size p + length (tvalue t), mtokens := mtokens p @ [t]\<rparr>;
          fresh = p\<lparr>brace_count := 0, bracket_count := 0, mtokens := [], token_size := 0\<rparr>
      in if ttype t = JSON_ERROR then ([None], fresh)
         else if brace_count p < 0 \<or> bracket_count p < 0 \<or> brace_count p = 0 \<and> bracket_count p = 0
         then ([Some (mtokens p)], fresh)
         else if token_size p > MAX_TOKEN_SIZE \<or> bracket_count p > MAX_NESTING \<or> brace_count p > MAX_NESTING
         then ([Some (mtokens p)], fresh)
         else ([], p))"

fun process_tokens :: "JSONMessageParser \<Rightarrow> JSONToken list \<Rightarrow> JSONToken list option list \<times> JSONMessageParser" where
  "process_tokens p [] = ([], p)"
| "process_tokens p (t # ts) =
     (let (ms, p) = json_message_process_token p t; (ms', p) = process_tokens p ts in (ms @ ms', p))"

definition json_message_parser_init :: JSONMessageParser where
  "json_message_parser_init = \<lparr>mlexer = json_lexer_init, brace_count = 0, bracket_count = 0, mtokens = [], token_size = 0\<rparr>"

definition json_message_parser_feed :: "JSONMessageParser \<Rightarrow> u8 list \<Rightarrow> JSONToken list option list \<times> JSONMessageParser" where
  "json_message_parser_feed p s =
     (let (ts, l) = json_lexer_feed (mlexer p) s in process_tokens (p\<lparr>mlexer := l\<rparr>) ts)"

definition json_message_parser_flush :: "JSONMessageParser \<Rightarrow> JSONToken list option list \<times> JSONMessageParser" where
  "json_message_parser_flush p =
     (let (ts, l) = json_lexer_flush (mlexer p) in process_tokens (p\<lparr>mlexer := l\<rparr>) ts)"

section \<open>Lexing without positions\<close>

text \<open>Nothing depends on the positions: a lexer acts through its state and its unfinished token.\<close>

abbreviation tkey :: "JSONToken \<Rightarrow> lex_code \<times> u8 list" where "tkey t \<equiv> (ttype t, tvalue t)"

abbreviation lcore :: "JSONLexer \<Rightarrow> lex_code \<times> u8 list" where "lcore l \<equiv> (lstate l, ltoken l)"

definition core_lexer :: "lex_code \<times> u8 list \<Rightarrow> JSONLexer" where
  "core_lexer q = \<lparr>lstate = fst q, ltoken = snd q, lx = 0, ly = 0\<rparr>"

definition core :: "lex_code \<times> u8 list \<Rightarrow> u8 \<Rightarrow> (lex_code \<times> u8 list) list \<times> (lex_code \<times> u8 list)" where
  "core q c = (case feed_char_loop (core_lexer q) c False of (es, l) \<Rightarrow> (map tkey es, lcore l))"

text \<open>One pass of the loop, by the code the table gives.\<close>

abbreviation emits_token :: "lex_code \<Rightarrow> bool" where
  "emits_token n \<equiv> n \<in> {JSON_OPERATOR, JSON_ESCAPE, JSON_INTEGER, JSON_FLOAT, JSON_KEYWORD, JSON_STRING}"

lemma loop_error:
  "json_lexer (lstate l) c = IN_ERROR \<Longrightarrow> feed_char_loop l c f =
     ([lexer_emit (if json_lexer (lstate l) 0 = IN_ERROR then l else l\<lparr>ltoken := ltoken l @ [c]\<rparr>) JSON_ERROR], lexer_reset l)"
  by (subst feed_char_loop.simps) (simp add: Let_def terminal_needed_lookahead_def lexer_reset_def)

lemma loop_emit:
  "json_lexer (lstate l) c = n \<Longrightarrow> json_lexer (lstate l) 0 \<noteq> n \<Longrightarrow> emits_token n \<Longrightarrow>
     feed_char_loop l c f = ([lexer_emit (l\<lparr>ltoken := ltoken l @ [c]\<rparr>) n], lexer_reset l)"
  by (subst feed_char_loop.simps) (elim insertE; simp add: Let_def terminal_needed_lookahead_def lexer_reset_def)

lemma loop_move:
  "json_lexer (lstate l) c = n \<Longrightarrow> json_lexer (lstate l) 0 \<noteq> n \<Longrightarrow> \<not> emits_token n \<Longrightarrow> n \<noteq> IN_ERROR \<Longrightarrow> n \<noteq> JSON_SKIP \<Longrightarrow>
     feed_char_loop l c f = ([], l\<lparr>ltoken := ltoken l @ [c], lstate := n\<rparr>)"
  by (subst feed_char_loop.simps) (simp add: Let_def terminal_needed_lookahead_def)

lemma lookahead_codes: "json_lexer s 0 = n \<Longrightarrow> n \<noteq> IN_ERROR \<Longrightarrow> n = JSON_INTEGER \<or> n = JSON_FLOAT \<or> n = JSON_KEYWORD \<or> n = JSON_SKIP"
  by (cases s) (simp_all add: json_lexer_0)

lemma loop_look:
  assumes "json_lexer (lstate l) c = n" "json_lexer (lstate l) 0 = n" "n \<noteq> IN_ERROR"
  shows "feed_char_loop l c False = (case feed_char_loop (lexer_reset l) c False of (es, l') \<Rightarrow>
      ((if n = JSON_SKIP then [] else [lexer_emit l n]) @ es, l'))"
    and "feed_char_loop l c True = (if n = JSON_SKIP then [] else [lexer_emit l n], lexer_reset l)"
  using lookahead_codes [OF assms(2,3)] assms
  by (subst feed_char_loop.simps; elim disjE; simp add: Let_def terminal_needed_lookahead_def)+

lemma row_only_skip: "json_lexer s c = JSON_SKIP \<Longrightarrow> json_lexer s 0 = JSON_SKIP"
  by (cases s) (auto simp: json_lexer_def hex_row_def digit_row_def space_row_def split: if_splits)

lemma loop_cases:
  obtains (error) "json_lexer s c = IN_ERROR"
  | (emit) "json_lexer s 0 \<noteq> json_lexer s c" "emits_token (json_lexer s c)"
  | (move) "json_lexer s 0 \<noteq> json_lexer s c" "\<not> emits_token (json_lexer s c)" "json_lexer s c \<noteq> IN_ERROR" "json_lexer s c \<noteq> JSON_SKIP"
  | (look) "json_lexer s 0 = json_lexer s c" "json_lexer s c \<noteq> IN_ERROR"
  using row_only_skip [of s c] by metis

lemmas core_defs = core_def core_lexer_def lexer_emit_def lexer_reset_def

lemma core_error:
  "json_lexer s c = IN_ERROR \<Longrightarrow>
     core (s, t) c = ([(JSON_ERROR, if json_lexer s 0 = IN_ERROR then t else t @ [c])], (IN_START, []))"
  by (simp add: core_defs loop_error)

lemma core_emit:
  "json_lexer s c = n \<Longrightarrow> json_lexer s 0 \<noteq> n \<Longrightarrow> emits_token n \<Longrightarrow> core (s, t) c = ([(n, t @ [c])], (IN_START, []))"
  using loop_emit [of "core_lexer (s, t)" c n False] by (simp add: core_defs)

lemma core_move:
  "json_lexer s c = n \<Longrightarrow> json_lexer s 0 \<noteq> n \<Longrightarrow> \<not> emits_token n \<Longrightarrow> n \<noteq> IN_ERROR \<Longrightarrow> n \<noteq> JSON_SKIP \<Longrightarrow>
     core (s, t) c = ([], (n, t @ [c]))"
  using loop_move [of "core_lexer (s, t)" c n False] by (simp add: core_defs)

lemma loop_core: "map tkey (fst (feed_char_loop l c False)) = fst (core (lcore l) c)
    \<and> lcore (snd (feed_char_loop l c False)) = snd (core (lcore l) c)"
proof -
  have start: "map tkey (fst (feed_char_loop l c False)) = fst (core (lcore l) c)
    \<and> lcore (snd (feed_char_loop l c False)) = snd (core (lcore l) c)"
    if "json_lexer (lstate l) 0 \<noteq> json_lexer (lstate l) c \<or> json_lexer (lstate l) c = IN_ERROR" for l
  proof (cases "lstate l" c rule: loop_cases)
    case error
    then show ?thesis by (simp add: core_error loop_error lexer_emit_def lexer_reset_def)
  next
    case emit
    then show ?thesis using core_emit [OF refl emit] loop_emit [OF refl emit] by (simp add: lexer_emit_def lexer_reset_def)
  next
    case move
    then show ?thesis using core_move [OF refl move] loop_move [OF refl move] by simp
  qed (use that in simp)
  show ?thesis
  proof (cases "json_lexer (lstate l) 0 \<noteq> json_lexer (lstate l) c \<or> json_lexer (lstate l) c = IN_ERROR")
    case False
    then have look: "json_lexer (lstate l) 0 = json_lexer (lstate l) c" "json_lexer (lstate l) c \<noteq> IN_ERROR" by simp_all
    have r: "json_lexer (lstate (lexer_reset l')) 0 \<noteq> json_lexer (lstate (lexer_reset l')) c \<or>
        json_lexer (lstate (lexer_reset l')) c = IN_ERROR" for l'
      by (auto simp: lexer_reset_def json_lexer_0)
    note a = start [OF r, of l] and b = start [OF r, of "core_lexer (lcore l)"]
    have "core (lcore l) c = (case feed_char_loop (lexer_reset (core_lexer (lcore l))) c False of (es, l') \<Rightarrow>
      ((if json_lexer (lstate l) c = JSON_SKIP then [] else [(json_lexer (lstate l) c, ltoken l)]) @ map tkey es, lcore l'))"
      using loop_look(1) [of "core_lexer (lcore l)" c, OF refl] look
      by (simp add: core_def core_lexer_def lexer_emit_def split: prod.split)
    then show ?thesis
      using loop_look(1) [OF refl look] a b
      by (auto simp: core_lexer_def lexer_emit_def lexer_reset_def split_beta prod_eq_iff)
  qed (rule start)
qed

lemma core_look:
  assumes "json_lexer s c = n" "json_lexer s 0 = n" "n \<noteq> IN_ERROR"
  shows "core (s, t) c = (case core (IN_START, []) c of (es, q) \<Rightarrow> ((if n = JSON_SKIP then [] else [(n, t)]) @ es, q))"
  using loop_look(1) [of "core_lexer (s, t)" c n] loop_core [of "lexer_reset (core_lexer (s, t))" c] assms
  by (auto simp: core_def [of "(s, t)"] core_lexer_def lexer_emit_def lexer_reset_def split_beta prod_eq_iff)

fun core_feed :: "lex_code \<times> u8 list \<Rightarrow> u8 list \<Rightarrow> (lex_code \<times> u8 list) list \<times> (lex_code \<times> u8 list)" where
  "core_feed q [] = ([], q)"
| "core_feed q (c # cs) = (let (es, q) = core q c; (es', q) = core_feed q cs in (es @ es', q))"

lemma core_feed_append: "core_feed q (s @ s') = (let (es, q) = core_feed q s; (es', q) = core_feed q s' in (es @ es', q))"
  by (induction s arbitrary: q) (auto simp: Let_def split: prod.split)

lemma core_token: "length (snd (snd (core (s, t) c))) \<le> length t + 1"
proof -
  have start: "length (snd (snd (core (s, t) c))) \<le> length t + 1"
    if "json_lexer s 0 \<noteq> json_lexer s c \<or> json_lexer s c = IN_ERROR" for s and t :: "u8 list"
  proof (cases s c rule: loop_cases)
    case emit
    then show ?thesis using core_emit [OF refl emit] by simp
  next
    case move
    then show ?thesis using core_move [OF refl move] by simp
  qed (use that in \<open>auto simp: core_error\<close>)
  have "length (snd (snd (core (IN_START, []) c))) \<le> 1" using start [of IN_START "[]"] by (auto simp: json_lexer_0)
  then show ?thesis
    using start [of s t] core_look [of s c "json_lexer s c" t]
    by (cases "json_lexer s 0 = json_lexer s c \<and> json_lexer s c \<noteq> IN_ERROR") (auto simp: split_beta)
qed

text \<open>An input no longer than the limit never makes a token grow beyond it.\<close>

lemma feed_core:
  "length (ltoken l) + length s \<le> MAX_TOKEN_SIZE \<Longrightarrow>
     map tkey (fst (json_lexer_feed l s)) = fst (core_feed (lcore l) s) \<and>
     lcore (snd (json_lexer_feed l s)) = snd (core_feed (lcore l) s)"
proof (induction s arbitrary: l)
  case (Cons c s)
  define l0 where "l0 = (let l = l\<lparr>lx := lx l + 1\<rparr> in if c = 0x0a then l\<lparr>lx := 0, ly := ly l + 1\<rparr> else l)"
  have l0: "lcore l0 = lcore l" by (simp add: l0_def Let_def)
  obtain es l1 where f: "feed_char_loop l0 c False = (es, l1)" by fastforce
  have k: "map tkey es = fst (core (lcore l) c)" "lcore l1 = snd (core (lcore l) c)"
    using loop_core [of l0 c] f unfolding l0 by simp_all
  have t: "length (ltoken l1) \<le> length (ltoken l) + 1" using core_token [of "lstate l" "ltoken l" c] k(2) by (metis snd_conv)
  then have "json_lexer_feed_char l c False = (es, l1)"
    using Cons.prems f by (simp add: json_lexer_feed_char_def l0_def Let_def)
  moreover have "length (ltoken l1) + length s \<le> MAX_TOKEN_SIZE" using t Cons.prems by simp
  note IH = Cons.IH [OF this]
  ultimately show ?case using IH k by (auto simp: Let_def split: prod.splits)
qed simp

section \<open>Texts and their tokens\<close>

text \<open>
  Between two tokens the lexer is at the start, in white space, or in a token that only the next byte
  can end. \<open>reads a b s T\<close> says that the text \<open>s\<close> lexes to the tokens \<open>T\<close>: from a point between two
  tokens - also one with an unfinished token when \<open>a\<close> - to another one - without an unfinished token
  when \<open>b\<close>.
\<close>

definition between :: "lex_code \<times> u8 list \<Rightarrow> bool" where
  "between q \<longleftrightarrow> fst q = IN_WHITESPACE \<or> fst q = IN_ZERO \<or> fst q = IN_NONZERO_NUMBER \<or> fst q = IN_KEYWORD \<or> q = (IN_START, [])"

definition unfinished :: "lex_code \<times> u8 list \<Rightarrow> (lex_code \<times> u8 list) list" where
  "unfinished q =
     (if fst q = IN_ZERO \<or> fst q = IN_NONZERO_NUMBER then [(JSON_INTEGER, snd q)]
      else if fst q = IN_KEYWORD then [(JSON_KEYWORD, snd q)] else [])"

definition reads :: "bool \<Rightarrow> bool \<Rightarrow> u8 list \<Rightarrow> (lex_code \<times> u8 list) list \<Rightarrow> bool" where
  "reads a b s T \<longleftrightarrow> (\<forall>q. between q \<and> (a \<or> unfinished q = []) \<longrightarrow>
     between (snd (core_feed q s)) \<and> fst (core_feed q s) @ unfinished (snd (core_feed q s)) = unfinished q @ T \<and>
     (b \<longrightarrow> unfinished (snd (core_feed q s)) = []))"

lemma reads_append:
  assumes "reads a b s T" "reads a' b' s' T'" "a' \<or> b"
  shows "reads a b' (s @ s') (T @ T')"
  unfolding reads_def
proof (intro allI impI)
  fix q
  assume q: "between q \<and> (a \<or> unfinished q = [])"
  obtain es q1 where 1: "core_feed q s = (es, q1)" by (rule prod.exhaust)
  with assms(1) q have s: "between q1" "es @ unfinished q1 = unfinished q @ T" "b \<longrightarrow> unfinished q1 = []"
    unfolding reads_def by (metis fst_conv snd_conv)+
  obtain es' q2 where 2: "core_feed q1 s' = (es', q2)" by (rule prod.exhaust)
  with assms(2,3) s have s': "between q2" "es' @ unfinished q2 = unfinished q1 @ T'" "b' \<longrightarrow> unfinished q2 = []"
    unfolding reads_def by (metis fst_conv snd_conv)+
  have "(es @ es') @ unfinished q2 = unfinished q @ T @ T'" using s(2) s'(2) by (metis append.assoc)
  then show "between (snd (core_feed q (s @ s'))) \<and>
      fst (core_feed q (s @ s')) @ unfinished (snd (core_feed q (s @ s'))) = unfinished q @ T @ T' \<and>
      (b' \<longrightarrow> unfinished (snd (core_feed q (s @ s'))) = [])"
    using s' by (simp add: core_feed_append 1 2)
qed

lemma reads_Nil: "reads False True [] []"
  by (simp add: reads_def)

lemmas table_simps = json_lexer_def hex_row_def digit_row_def space_row_def

definition op_byte :: "u8 \<Rightarrow> bool" where
  "op_byte c \<longleftrightarrow> c \<in> {0x7b, 0x7d, 0x5b, 0x5d, 0x2c, 0x3a}"

lemma op_table:
  assumes "op_byte c"
  shows "json_lexer IN_START c = JSON_OPERATOR" "json_lexer IN_ZERO c = JSON_INTEGER" "json_lexer IN_NONZERO_NUMBER c = JSON_INTEGER"
    "json_lexer IN_KEYWORD c = JSON_KEYWORD" "json_lexer IN_WHITESPACE c = JSON_SKIP"
  using assms unfolding op_byte_def by (elim insertE emptyE; simp add: table_simps)+

lemma space_table:
  assumes "c = 0x20 \<or> c = 0x0a"
  shows "json_lexer IN_START c = IN_WHITESPACE" "json_lexer IN_ZERO c = JSON_INTEGER" "json_lexer IN_NONZERO_NUMBER c = JSON_INTEGER"
    "json_lexer IN_KEYWORD c = JSON_KEYWORD" "json_lexer IN_WHITESPACE c = IN_WHITESPACE"
  using assms by (elim disjE; simp add: table_simps)+

lemma between_cases:
  assumes "between q"
  obtains t where "q = (IN_WHITESPACE, t)" | t where "q = (IN_ZERO, t)" | t where "q = (IN_NONZERO_NUMBER, t)"
  | t where "q = (IN_KEYWORD, t)" | "q = (IN_START, [])"
  using assms by (cases q) (auto simp: between_def)

lemma reads_op: "op_byte c \<Longrightarrow> reads True True [c] [(JSON_OPERATOR, [c])]"
proof -
  assume c: "op_byte c"
  note t = op_table [OF c]
  have s: "core (IN_START, []) c = ([(JSON_OPERATOR, [c])], (IN_START, []))" using core_emit [OF t(1)] by (simp add: json_lexer_0)
  have "core q c = (unfinished q @ [(JSON_OPERATOR, [c])], (IN_START, []))" if "between q" for q
    using that
  proof (cases rule: between_cases)
    case 1 then show ?thesis using core_look [OF t(5)] s by (simp add: json_lexer_0 unfinished_def)
  next
    case 2 then show ?thesis using core_look [OF t(2)] s by (simp add: json_lexer_0 unfinished_def)
  next
    case 3 then show ?thesis using core_look [OF t(3)] s by (simp add: json_lexer_0 unfinished_def)
  next
    case 4 then show ?thesis using core_look [OF t(4)] s by (simp add: json_lexer_0 unfinished_def)
  qed (simp add: s unfinished_def)
  then show ?thesis by (simp add: reads_def) (simp add: between_def unfinished_def)
qed

lemma reads_space1: "c = 0x20 \<or> c = 0x0a \<Longrightarrow> reads True True [c] []"
proof -
  assume c: "c = 0x20 \<or> c = 0x0a"
  note t = space_table [OF c]
  have s: "core (IN_START, []) c = ([], (IN_WHITESPACE, [c]))" using core_move [OF t(1)] by (simp add: json_lexer_0)
  have "\<exists>t. core q c = (unfinished q, (IN_WHITESPACE, t))" if "between q" for q
    using that
  proof (cases rule: between_cases)
    case 1 then show ?thesis using core_move [OF t(5)] by (simp add: json_lexer_0 unfinished_def)
  next
    case 2 then show ?thesis using core_look [OF t(2)] s by (simp add: json_lexer_0 unfinished_def)
  next
    case 3 then show ?thesis using core_look [OF t(3)] s by (simp add: json_lexer_0 unfinished_def)
  next
    case 4 then show ?thesis using core_look [OF t(4)] s by (simp add: json_lexer_0 unfinished_def)
  qed (simp add: s unfinished_def)
  then have "core q c = (unfinished q, (IN_WHITESPACE, snd (snd (core q c))))" if "between q" for q
    using that by (metis snd_conv)
  then have "core_feed q [c] = (unfinished q, (IN_WHITESPACE, snd (snd (core q c))))" if "between q" for q
    using that by (simp add: split_beta prod_eq_iff)
  moreover have "between (IN_WHITESPACE, u)" "unfinished (IN_WHITESPACE, u) = []" for u by (simp_all add: between_def unfinished_def)
  ultimately show ?thesis unfolding reads_def by (metis append_Nil2 fst_conv snd_conv)
qed

lemma reads_spaces: "s \<noteq> [] \<Longrightarrow> list_all (\<lambda>c. c = 0x20 \<or> c = 0x0a) s \<Longrightarrow> reads True True s []"
proof (induction s)
  case (Cons c s)
  show ?case
  proof (cases "s = []")
    case True
    then show ?thesis using Cons.prems reads_space1 by simp
  next
    case False
    then have "reads True True ([c] @ s) ([] @ [])"
      using Cons reads_space1 [of c] by (intro reads_append) auto
    then show ?thesis by simp
  qed
qed simp

text \<open>Where no token is unfinished, white space does not matter.\<close>

lemma core_ready:
  assumes "between q" "unfinished q = []" "json_lexer IN_WHITESPACE c = JSON_SKIP"
  shows "core q c = core (IN_START, []) c"
  using assms(1,2) core_look [OF assms(3)]
  by (cases rule: between_cases) (simp_all add: json_lexer_0 unfinished_def split: prod.split)

text \<open>A token that starts with \<open>c\<close> and ends in state \<open>st\<close> once the rest \<open>s\<close> is read.\<close>

lemma readsI:
  assumes "json_lexer IN_WHITESPACE c = JSON_SKIP" "core_feed (IN_START, []) (c # s) = (es, q')"
    and "between q'" "es @ unfinished q' = T" "b \<longrightarrow> unfinished q' = []"
  shows "reads False b (c # s) T"
proof -
  have "core_feed q (c # s) = core_feed (IN_START, []) (c # s)" if "between q" "unfinished q = []" for q
    using core_ready [OF that assms(1)] by simp
  then show ?thesis unfolding reads_def using assms(2-5) by simp
qed

lemma core_moves:
  assumes "\<And>c. c \<in> set s \<Longrightarrow> json_lexer st c = st" "json_lexer st 0 \<noteq> st" "\<not> emits_token st" "st \<noteq> IN_ERROR" "st \<noteq> JSON_SKIP"
  shows "core_feed (st, t) s = ([], (st, t @ s))"
  using assms(1)
proof (induction s arbitrary: t)
  case (Cons c s)
  have "core (st, t) c = ([], (st, t @ [c]))" using Cons.prems assms(2-5) by (intro core_move) auto
  with Cons show ?case by simp
qed simp

lemma byte_range:
  fixes c :: u8
  assumes "of_nat a \<le> c" "c \<le> of_nat b" "a < 256" "b < 256"
  shows "c \<in> of_nat ` {a..b}"
  using assms by (intro image_eqI [of _ _ "unat c"]) (simp_all add: word_le_nat_alt unat_of_nat)

lemma digit_enum:
  fixes c :: u8
  assumes "0x30 \<le> c" "c \<le> 0x39"
  shows "c \<in> {0x30, 0x31, 0x32, 0x33, 0x34, 0x35, 0x36, 0x37, 0x38, 0x39}"
proof -
  have "c \<in> of_nat ` {48..57}" using byte_range [of 48 c 57] assms by simp
  moreover have "{48..57} = set [48..<58]"
    unfolding set_upt by (rule set_eqI) (simp only: atLeastAtMost_iff atLeastLessThan_iff, arith)
  ultimately have "c \<in> of_nat ` set [48..<58]" by (simp only:)
  then show ?thesis by (simp add: upt_rec)
qed

definition digit :: "u8 \<Rightarrow> bool" where "digit c \<longleftrightarrow> 0x30 \<le> c \<and> c \<le> 0x39"

lemma digit_table:
  assumes "digit c"
  shows "json_lexer IN_NONZERO_NUMBER c = IN_NONZERO_NUMBER" "json_lexer IN_WHITESPACE c = JSON_SKIP"
    "c \<noteq> 0x30 \<Longrightarrow> json_lexer IN_START c = IN_NONZERO_NUMBER" "c \<noteq> 0x30 \<Longrightarrow> json_lexer IN_NEG_NONZERO_NUMBER c = IN_NONZERO_NUMBER"
proof -
  have "c \<in> {0x30, 0x31, 0x32, 0x33, 0x34, 0x35, 0x36, 0x37, 0x38, 0x39}" using assms digit_enum unfolding digit_def by blast
  then show "json_lexer IN_NONZERO_NUMBER c = IN_NONZERO_NUMBER" "json_lexer IN_WHITESPACE c = JSON_SKIP"
    "c \<noteq> 0x30 \<Longrightarrow> json_lexer IN_START c = IN_NONZERO_NUMBER" "c \<noteq> 0x30 \<Longrightarrow> json_lexer IN_NEG_NONZERO_NUMBER c = IN_NONZERO_NUMBER"
    by (elim insertE emptyE; simp add: table_simps)+
qed

lemma reads_number:
  assumes "s = [0x30] \<or> s \<noteq> [] \<and> list_all digit s \<and> hd s \<noteq> 0x30"
  shows "reads False False s [(JSON_INTEGER, s)]" "reads False False (0x2d # s) [(JSON_INTEGER, 0x2d # s)]"
proof -
  have neg: "core (IN_START, []) 0x2d = ([], (IN_NEG_NONZERO_NUMBER, [0x2d]))"
    "json_lexer IN_WHITESPACE 0x2d = JSON_SKIP"
    by (auto intro!: core_move [THEN trans]) (simp_all add: table_simps)
  have "\<exists>st. (st = IN_ZERO \<or> st = IN_NONZERO_NUMBER) \<and> core_feed (IN_START, []) s = ([], (st, s)) \<and>
      core_feed (IN_NEG_NONZERO_NUMBER, [0x2d]) s = ([], (st, 0x2d # s)) \<and> json_lexer IN_WHITESPACE (hd s) = JSON_SKIP \<and> s \<noteq> []"
    using assms
  proof
    assume s: "s = [0x30]"
    have "core (IN_START, []) 0x30 = ([], (IN_ZERO, [0x30]))" "core (IN_NEG_NONZERO_NUMBER, [0x2d]) 0x30 = ([], (IN_ZERO, [0x2d, 0x30]))"
      "json_lexer IN_WHITESPACE 0x30 = JSON_SKIP"
      by (auto intro!: core_move [THEN trans]) (simp_all add: table_simps)
    then show ?thesis by (intro exI [of _ IN_ZERO]) (simp add: s)
  next
    assume s: "s \<noteq> [] \<and> list_all digit s \<and> hd s \<noteq> 0x30"
    then obtain c r where c: "s = c # r" "digit c" "list_all digit r" "c \<noteq> 0x30" by (cases s) auto
    note t = digit_table [OF c(2)]
    have "core (IN_START, []) c = ([], (IN_NONZERO_NUMBER, [c]))" using core_move [OF t(3)] c(4) by (simp add: json_lexer_0)
    moreover have "core (IN_NEG_NONZERO_NUMBER, [0x2d]) c = ([], (IN_NONZERO_NUMBER, [0x2d, c]))"
      using core_move [OF t(4)] c(4) by (simp add: json_lexer_0)
    moreover have "core_feed (IN_NONZERO_NUMBER, u) r = ([], (IN_NONZERO_NUMBER, u @ r))" for u
      using c(3) digit_table(1) by (intro core_moves) (auto simp: list_all_iff json_lexer_0)
    ultimately show ?thesis using t(2) by (intro exI [of _ IN_NONZERO_NUMBER]) (simp add: c(1))
  qed
  then obtain st where st: "st = IN_ZERO \<or> st = IN_NONZERO_NUMBER" "core_feed (IN_START, []) s = ([], (st, s))"
    "core_feed (IN_NEG_NONZERO_NUMBER, [0x2d]) s = ([], (st, 0x2d # s))" "json_lexer IN_WHITESPACE (hd s) = JSON_SKIP" "s \<noteq> []"
    by blast
  have q: "between (st, u)" "unfinished (st, u) = [(JSON_INTEGER, u)]" for u using st(1) by (auto simp: between_def unfinished_def)
  have "reads False False (hd s # tl s) [(JSON_INTEGER, s)]"
    by (rule readsI [OF st(4), of "tl s" "[]" "(st, s)"]) (use st q in simp_all)
  then show "reads False False s [(JSON_INTEGER, s)]" using st(5) by simp
  show "reads False False (0x2d # s) [(JSON_INTEGER, 0x2d # s)]"
    by (rule readsI [OF neg(2), of s "[]" "(st, 0x2d # s)"]) (use st q neg in simp_all)
qed

lemma reads_keyword:
  "reads False False [0x74, 0x72, 0x75, 0x65] [(JSON_KEYWORD, [0x74, 0x72, 0x75, 0x65])]"
  "reads False False [0x66, 0x61, 0x6c, 0x73, 0x65] [(JSON_KEYWORD, [0x66, 0x61, 0x6c, 0x73, 0x65])]"
proof -
  have k: "json_lexer IN_KEYWORD c = IN_KEYWORD" if "c \<in> {0x72, 0x75, 0x65, 0x61, 0x6c, 0x73}" for c
    using that by (elim insertE emptyE; simp add: table_simps)
  have s: "core (IN_START, []) c = ([], (IN_KEYWORD, [c]))" "json_lexer IN_WHITESPACE c = JSON_SKIP" if "c \<in> {0x74, 0x66}" for c
  proof -
    have "json_lexer IN_START c = IN_KEYWORD" using that by (elim insertE emptyE; simp add: table_simps)
    then show "core (IN_START, []) c = ([], (IN_KEYWORD, [c]))" using core_move [of IN_START c IN_KEYWORD "[]"] by (simp add: json_lexer_0)
    show "json_lexer IN_WHITESPACE c = JSON_SKIP" using that by (elim insertE emptyE; simp add: table_simps)
  qed
  have r: "reads False False (c # r) [(JSON_KEYWORD, c # r)]"
    if "c \<in> {0x74, 0x66}" "set r \<subseteq> {0x72, 0x75, 0x65, 0x61, 0x6c, 0x73}" for c r
  proof -
    have "core_feed (IN_KEYWORD, [c]) r = ([], (IN_KEYWORD, [c] @ r))" using that(2) k by (intro core_moves) (auto simp: json_lexer_0)
    then show ?thesis
      using s [OF that(1)] by (intro readsI [of c r "[]" "(IN_KEYWORD, c # r)"]) (simp_all add: between_def unfinished_def)
  qed
  show "reads False False [0x74, 0x72, 0x75, 0x65] [(JSON_KEYWORD, [0x74, 0x72, 0x75, 0x65])]"
    "reads False False [0x66, 0x61, 0x6c, 0x73, 0x65] [(JSON_KEYWORD, [0x66, 0x61, 0x6c, 0x73, 0x65])]"
    by (rule r; simp)+
qed

text \<open>The inside of a double-quoted string.\<close>

definition dq_text :: "u8 list \<Rightarrow> bool" where
  "dq_text s \<longleftrightarrow> (\<forall>t. core_feed (IN_DQ_STRING, t) s = ([], (IN_DQ_STRING, t @ s)))"

lemma dq_Nil [simp]: "dq_text []"
  by (simp add: dq_text_def)

lemma dq_append: "dq_text s \<Longrightarrow> dq_text s' \<Longrightarrow> dq_text (s @ s')"
  by (simp add: dq_text_def core_feed_append)

lemma dq_plain:
  assumes "1 \<le> c" "c \<le> 0xbf" "c \<noteq> 0x5c" "c \<noteq> 0x22"
  shows "dq_text [c]"
proof -
  have "json_lexer IN_DQ_STRING c = IN_DQ_STRING" using assms by (auto simp: json_lexer_def)
  then show ?thesis using core_move [of IN_DQ_STRING c IN_DQ_STRING] by (simp add: dq_text_def json_lexer_0)
qed

lemma dq_backslash: "core (IN_DQ_STRING, t) 0x5c = ([], (IN_DQ_STRING_ESCAPE, t @ [0x5c]))"
  by (rule core_move) (simp_all add: table_simps)

lemma dq_escape:
  assumes "c \<in> {0x62, 0x66, 0x6e, 0x72, 0x74, 0x2f, 0x5c, 0x27, 0x22}"
  shows "dq_text [0x5c, c]"
proof -
  have "json_lexer IN_DQ_STRING_ESCAPE c = IN_DQ_STRING" using assms by (elim insertE emptyE; simp add: table_simps)
  then show ?thesis
    using core_move [of IN_DQ_STRING_ESCAPE c IN_DQ_STRING] dq_backslash by (simp add: dq_text_def json_lexer_0)
qed

definition xdigit :: "u8 \<Rightarrow> bool" where
  "xdigit c \<longleftrightarrow> 0x30 \<le> c \<and> c \<le> 0x39 \<or> 0x61 \<le> c \<and> c \<le> 0x66 \<or> 0x41 \<le> c \<and> c \<le> 0x46"

lemma hex_lookup: "lexer_row s = hex_row s' \<Longrightarrow> xdigit c \<Longrightarrow> json_lexer s c = s'"
  by (auto simp: json_lexer_def hex_row_def xdigit_def)

lemma dq_unicode:
  assumes "xdigit a" "xdigit b" "xdigit c" "xdigit d"
  shows "dq_text [0x5c, 0x75, a, b, c, d]"
proof -
  have u: "core (IN_DQ_STRING_ESCAPE, t) 0x75 = ([], (IN_DQ_UCODE0, t @ [0x75]))" for t
    by (rule core_move) (simp_all add: table_simps)
  have "core (IN_DQ_UCODE0, t) a = ([], (IN_DQ_UCODE1, t @ [a]))" "core (IN_DQ_UCODE1, t) b = ([], (IN_DQ_UCODE2, t @ [b]))"
    "core (IN_DQ_UCODE2, t) c = ([], (IN_DQ_UCODE3, t @ [c]))" "core (IN_DQ_UCODE3, t) d = ([], (IN_DQ_STRING, t @ [d]))" for t
    using assms by (auto intro!: core_move hex_lookup simp: json_lexer_0)
  then show ?thesis using dq_backslash u by (simp add: dq_text_def)
qed

lemma reads_string:
  assumes "dq_text s"
  shows "reads False True (0x22 # s @ [0x22]) [(JSON_STRING, 0x22 # s @ [0x22])]"
proof -
  have o: "core (IN_START, []) 0x22 = ([], (IN_DQ_STRING, [0x22]))" "json_lexer IN_WHITESPACE 0x22 = JSON_SKIP"
    by (auto intro!: core_move [THEN trans]) (simp_all add: table_simps)
  have c: "core (IN_DQ_STRING, t) 0x22 = ([(JSON_STRING, t @ [0x22])], (IN_START, []))" for t
    by (rule core_emit) (simp_all add: table_simps)
  have "core_feed (IN_START, []) (0x22 # s @ [0x22]) = ([(JSON_STRING, 0x22 # s @ [0x22])], (IN_START, []))"
    using assms o(1) c by (simp add: dq_text_def core_feed_append)
  then show ?thesis by (rule readsI [OF o(2)]) (simp_all add: between_def unfinished_def)
qed

section \<open>Messages\<close>

abbreviation msg_keys :: "JSONToken list option list \<Rightarrow> (lex_code \<times> u8 list) list option list" where
  "msg_keys ms \<equiv> map (map_option (map tkey)) ms"

lemma feed_char_cong:
  assumes "lcore l = lcore l'"
  shows "map tkey (fst (json_lexer_feed_char l c False)) = map tkey (fst (json_lexer_feed_char l' c False)) \<and>
    lcore (snd (json_lexer_feed_char l c False)) = lcore (snd (json_lexer_feed_char l' c False))"
proof -
  let ?p = "\<lambda>l. if c = 0x0a then l\<lparr>lx := 0, ly := ly l + 1\<rparr> else l\<lparr>lx := lx l + 1\<rparr>"
  have e: "json_lexer_feed_char l c False = (let (es, l) = feed_char_loop (?p l) c False in
      if length (ltoken l) > MAX_TOKEN_SIZE then (es @ [lexer_emit l (lstate l)], lexer_reset l) else (es, l))" for l
    by (simp add: json_lexer_feed_char_def Let_def)
  have k: "lcore (?p l) = lcore (?p l')" using assms by simp
  obtain es m es' m' where f: "feed_char_loop (?p l) c False = (es, m)" "feed_char_loop (?p l') c False = (es', m')"
    by (meson surj_pair)
  have "map tkey es = map tkey es'" "lcore m = lcore m'"
    using loop_core [of "?p l" c] loop_core [of "?p l'" c] unfolding f k by simp_all
  then show ?thesis unfolding e f by (simp add: lexer_emit_def lexer_reset_def)
qed

lemma feed_cong:
  "lcore l = lcore l' \<Longrightarrow> map tkey (fst (json_lexer_feed l s)) = map tkey (fst (json_lexer_feed l' s))"
proof (induction s arbitrary: l l')
  case (Cons c s)
  obtain es m es' m' where f: "json_lexer_feed_char l c False = (es, m)" "json_lexer_feed_char l' c False = (es', m')"
    by (meson surj_pair)
  then have k: "map tkey es = map tkey es'" "lcore m = lcore m'" using feed_char_cong [OF Cons.prems, of c] by simp_all
  from Cons.IH [OF k(2)] k(1) show ?case by (simp add: f split_beta)
qed simp

definition same_parser :: "JSONMessageParser \<Rightarrow> JSONMessageParser \<Rightarrow> bool" where
  "same_parser p p' \<longleftrightarrow> brace_count p = brace_count p' \<and> bracket_count p = bracket_count p' \<and>
     map tkey (mtokens p) = map tkey (mtokens p') \<and> token_size p = token_size p'"

lemma process_token_cong:
  assumes "same_parser p p'" "tkey t = tkey t'"
  shows "msg_keys (fst (json_message_process_token p t)) = msg_keys (fst (json_message_process_token p' t'))"
    "same_parser (snd (json_message_process_token p t)) (snd (json_message_process_token p' t'))"
proof -
  have t: "ttype t' = ttype t" "tvalue t' = tvalue t" using assms(2) by simp_all
  have "count_token t' q = count_token t q" for q unfolding count_token_def t ..
  moreover have "same_parser (count_token t p) (count_token t p')"
    using assms(1) unfolding count_token_def Let_def same_parser_def by (simp split: if_split)
  ultimately show "msg_keys (fst (json_message_process_token p t)) = msg_keys (fst (json_message_process_token p' t'))"
    "same_parser (snd (json_message_process_token p t)) (snd (json_message_process_token p' t'))"
    unfolding same_parser_def json_message_process_token_def Let_def t by (simp_all add: t)
qed

lemma process_cong:
  "same_parser p p' \<Longrightarrow> map tkey ts = map tkey ts' \<Longrightarrow> msg_keys (fst (process_tokens p ts)) = msg_keys (fst (process_tokens p' ts'))"
proof (induction ts arbitrary: ts' p p')
  case (Cons t ts)
  then obtain t' r where ts': "ts' = t' # r" "tkey t = tkey t'" "map tkey ts = map tkey r" by (cases ts') auto
  note c = process_token_cong [OF Cons.prems(1) ts'(2)]
  from Cons.IH [OF c(2) ts'(3)] c(1) show ?case by (simp add: ts'(1) split_beta)
qed simp

lemma no_row_ff: "json_lexer s 0xff = IN_ERROR"
  by (cases s) (simp_all add: table_simps)

text \<open>
  C14: the byte \<open>0xff\<close> resynchronises the stream. Whatever the lexer and the message splitter have
  read, complete or not, after this byte one error is reported and what follows is read exactly as
  at the beginning of a connection.
\<close>

theorem json_resync:
  "msg_keys (fst (json_message_parser_feed p (0xff # s))) =
     None # msg_keys (fst (json_message_parser_feed json_message_parser_init s))"
proof -
  define l where "l = (mlexer p)\<lparr>lx := lx (mlexer p) + 1\<rparr>"
  have "\<exists>t. json_lexer_feed_char (mlexer p) 0xff False = ([t], lexer_reset l) \<and> ttype t = JSON_ERROR"
    by (simp add: json_lexer_feed_char_def l_def loop_error no_row_ff Let_def) (simp add: lexer_reset_def lexer_emit_def)
  then obtain t where t: "json_lexer_feed_char (mlexer p) 0xff False = ([t], lexer_reset l)" "ttype t = JSON_ERROR" by blast
  obtain es m where f: "json_lexer_feed (lexer_reset l) s = (es, m)" by (rule prod.exhaust)
  let ?p = "p\<lparr>mlexer := m, brace_count := 0, bracket_count := 0, mtokens := [], token_size := 0\<rparr>"
  have "json_message_process_token (p\<lparr>mlexer := m\<rparr>) t = ([None], ?p)"
    using t(2) by (simp add: json_message_process_token_def count_token_def Let_def)
  then have 1: "fst (json_message_parser_feed p (0xff # s)) = None # fst (process_tokens ?p es)"
    by (simp add: json_message_parser_feed_def t(1) f split_beta)
  obtain es' m' where f': "json_lexer_feed json_lexer_init s = (es', m')" by (rule prod.exhaust)
  have "lcore (lexer_reset l) = lcore json_lexer_init" by (simp add: lexer_reset_def json_lexer_init_def)
  from feed_cong [OF this, of s] have k: "map tkey es = map tkey es'" by (simp add: f f')
  have "same_parser ?p (json_message_parser_init\<lparr>mlexer := m'\<rparr>)" by (simp add: same_parser_def json_message_parser_init_def)
  from process_cong [OF this k] show ?thesis
    unfolding 1 by (simp add: json_message_parser_feed_def json_message_parser_init_def f')
qed

text \<open>The nesting of a list of tokens, and the memory it holds.\<close>

definition op_count :: "u8 \<Rightarrow> JSONToken list \<Rightarrow> int" where
  "op_count c ts = int (length (filter (\<lambda>t. ttype t = JSON_OPERATOR \<and> hd (tvalue t @ [0]) = c) ts))"

abbreviation braces :: "JSONToken list \<Rightarrow> int" where "braces ts \<equiv> op_count 0x7b ts - op_count 0x7d ts"
abbreviation brackets :: "JSONToken list \<Rightarrow> int" where "brackets ts \<equiv> op_count 0x5b ts - op_count 0x5d ts"

definition tokens_size :: "JSONToken list \<Rightarrow> nat" where
  "tokens_size ts = sum_list (map (\<lambda>t. length (tvalue t)) ts)"

definition shallow :: "int \<Rightarrow> JSONToken list \<Rightarrow> bool" where
  "shallow n ts \<longleftrightarrow> list_all (\<lambda>k. braces (take k ts) \<le> n \<and> brackets (take k ts) \<le> n) [0..<Suc (length ts)]"

lemma op_count_snoc: "op_count c (ts @ [t]) = op_count c ts + of_bool (ttype t = JSON_OPERATOR \<and> hd (tvalue t @ [0]) = c)"
  by (simp add: op_count_def)

lemma shallow_snoc: "shallow n (ts @ [t]) \<longleftrightarrow> shallow n ts \<and> braces (ts @ [t]) \<le> n \<and> brackets (ts @ [t]) \<le> n"
  by (auto simp: shallow_def list_all_iff less_Suc_eq_le le_Suc_eq)

lemma shallow_mono: "shallow n ts \<Longrightarrow> n \<le> n' \<Longrightarrow> shallow n' ts"
  by (force simp: shallow_def list_all_iff)

definition splitter_ok :: "JSONMessageParser \<Rightarrow> bool" where
  "splitter_ok p \<longleftrightarrow> brace_count p = braces (mtokens p) \<and> bracket_count p = brackets (mtokens p) \<and>
     token_size p = tokens_size (mtokens p) \<and> shallow MAX_NESTING (mtokens p) \<and> token_size p \<le> MAX_TOKEN_SIZE"

definition message_ok :: "JSONToken list option \<Rightarrow> bool" where
  "message_ok m = (case m of None \<Rightarrow> True | Some ts \<Rightarrow> shallow (MAX_NESTING + 1) ts \<and> tokens_size ts \<le> 2 * MAX_TOKEN_SIZE + 1)"

lemma count_token_counts:
  "brace_count (count_token t p) = brace_count p + of_bool (ttype t = JSON_OPERATOR \<and> hd (tvalue t @ [0]) = 0x7b)
     - of_bool (ttype t = JSON_OPERATOR \<and> hd (tvalue t @ [0]) = 0x7d)"
  "bracket_count (count_token t p) = bracket_count p + of_bool (ttype t = JSON_OPERATOR \<and> hd (tvalue t @ [0]) = 0x5b)
     - of_bool (ttype t = JSON_OPERATOR \<and> hd (tvalue t @ [0]) = 0x5d)"
  "mtokens (count_token t p) = mtokens p" "token_size (count_token t p) = token_size p" "mlexer (count_token t p) = mlexer p"
  by (simp_all add: count_token_def Let_def)

lemma process_token_ok:
  assumes "splitter_ok p" "length (tvalue t) \<le> MAX_TOKEN_SIZE + 1"
  shows "list_all message_ok (fst (json_message_process_token p t)) \<and> splitter_ok (snd (json_message_process_token p t))"
proof -
  let ?q = "count_token t p" and ?ts = "mtokens p @ [t]"
  have n: "brace_count ?q = braces ?ts" "bracket_count ?q = brackets ?ts" "token_size ?q + length (tvalue t) = tokens_size ?ts"
    using assms(1) by (simp_all add: splitter_ok_def count_token_counts op_count_snoc tokens_size_def)
  have old: "braces (mtokens p) \<le> MAX_NESTING \<and> brackets (mtokens p) \<le> MAX_NESTING"
    using assms(1) by (simp add: splitter_ok_def shallow_def)
  then have "shallow (MAX_NESTING + 1) ?ts"
    using assms(1) shallow_mono [of MAX_NESTING "mtokens p" "MAX_NESTING + 1"]
    by (auto simp: splitter_ok_def shallow_snoc op_count_snoc)
  moreover have "tokens_size ?ts \<le> 2 * MAX_TOKEN_SIZE + 1" using assms by (simp add: splitter_ok_def tokens_size_def)
  ultimately have m: "message_ok (Some ?ts)" by (simp add: message_ok_def)
  have e: "splitter_ok (q\<lparr>brace_count := 0, bracket_count := 0, mtokens := [], token_size := 0\<rparr>)" for q
    by (simp add: splitter_ok_def op_count_def tokens_size_def shallow_def MAX_NESTING_def)
  have s: "splitter_ok (?q\<lparr>token_size := token_size ?q + length (tvalue t), mtokens := ?ts\<rparr>)"
    if "\<not> token_size ?q + length (tvalue t) > MAX_TOKEN_SIZE" "\<not> bracket_count ?q > MAX_NESTING" "\<not> brace_count ?q > MAX_NESTING"
    using that n assms(1) by (simp add: splitter_ok_def shallow_snoc)
  show ?thesis
    unfolding json_message_process_token_def Let_def
    using m e s by (simp add: message_ok_def [of None] count_token_counts(3))
qed

lemma process_ok:
  "splitter_ok p \<Longrightarrow> list_all (\<lambda>t. length (tvalue t) \<le> MAX_TOKEN_SIZE + 1) ts \<Longrightarrow>
     list_all message_ok (fst (process_tokens p ts)) \<and> splitter_ok (snd (process_tokens p ts))"
proof (induction ts arbitrary: p)
  case (Cons t ts)
  then have "list_all message_ok (fst (json_message_process_token p t)) \<and> splitter_ok (snd (json_message_process_token p t))"
    using process_token_ok [of p t] by simp
  with Cons show ?case by (simp add: split_beta)
qed simp

lemma loop_lengths:
  "list_all (\<lambda>t. length (tvalue t) \<le> length (ltoken l) + 1) (fst (feed_char_loop l c False)) \<and>
     length (ltoken (snd (feed_char_loop l c False))) \<le> length (ltoken l) + 1"
proof -
  have start: "list_all (\<lambda>t. length (tvalue t) \<le> length (ltoken l) + 1) (fst (feed_char_loop l c False)) \<and>
     length (ltoken (snd (feed_char_loop l c False))) \<le> length (ltoken l) + 1"
    if "json_lexer (lstate l) 0 \<noteq> json_lexer (lstate l) c \<or> json_lexer (lstate l) c = IN_ERROR" for l
  proof (cases "lstate l" c rule: loop_cases)
    case error
    then show ?thesis by (simp add: loop_error lexer_emit_def lexer_reset_def)
  next
    case emit
    then show ?thesis using loop_emit [OF refl emit] by (simp add: lexer_emit_def lexer_reset_def)
  next
    case move
    then show ?thesis using loop_move [OF refl move] by simp
  qed (use that in simp)
  have r: "list_all (\<lambda>t. length (tvalue t) \<le> 1) (fst (feed_char_loop (lexer_reset l) c False)) \<and>
     length (ltoken (snd (feed_char_loop (lexer_reset l) c False))) \<le> 1"
    using start [of "lexer_reset l"] by (auto simp: lexer_reset_def json_lexer_0)
  then have "list_all (\<lambda>t. length (tvalue t) \<le> length (ltoken l) + 1) (fst (feed_char_loop (lexer_reset l) c False))"
    by (auto simp: list_all_iff)
  with r show ?thesis
    using start [of l] loop_look(1) [of l c, OF refl]
    by (cases "json_lexer (lstate l) 0 = json_lexer (lstate l) c \<and> json_lexer (lstate l) c \<noteq> IN_ERROR")
      (auto simp: split_beta lexer_emit_def)
qed

lemma feed_char_lengths:
  assumes "length (ltoken l) \<le> MAX_TOKEN_SIZE"
  shows "list_all (\<lambda>t. length (tvalue t) \<le> MAX_TOKEN_SIZE + 1) (fst (json_lexer_feed_char l c False)) \<and>
    length (ltoken (snd (json_lexer_feed_char l c False))) \<le> MAX_TOKEN_SIZE"
proof -
  define l0 where "l0 = (let l = l\<lparr>lx := lx l + 1\<rparr> in if c = 0x0a then l\<lparr>lx := 0, ly := ly l + 1\<rparr> else l)"
  have l0: "ltoken l0 = ltoken l" by (simp add: l0_def Let_def)
  obtain es l1 where f: "feed_char_loop l0 c False = (es, l1)" by (rule prod.exhaust)
  have "list_all (\<lambda>t. length (tvalue t) \<le> MAX_TOKEN_SIZE + 1) es" "length (ltoken l1) \<le> MAX_TOKEN_SIZE + 1"
    using loop_lengths [of l0 c] assms unfolding f l0 by (auto simp: list_all_iff intro: le_trans)
  moreover have "json_lexer_feed_char l c False =
      (if length (ltoken l1) > MAX_TOKEN_SIZE then (es @ [lexer_emit l1 (lstate l1)], lexer_reset l1) else (es, l1))"
    using f by (simp add: json_lexer_feed_char_def l0_def Let_def)
  ultimately show ?thesis by (simp add: lexer_emit_def lexer_reset_def)
qed

lemma feed_lengths:
  "length (ltoken l) \<le> MAX_TOKEN_SIZE \<Longrightarrow>
     list_all (\<lambda>t. length (tvalue t) \<le> MAX_TOKEN_SIZE + 1) (fst (json_lexer_feed l s))"
proof (induction s arbitrary: l)
  case (Cons c s)
  then show ?case using feed_char_lengths [of l c] by (simp add: split_beta)
qed simp

lemma feed_append:
  "json_lexer_feed l (s @ s') = (let (es, l) = json_lexer_feed l s; (es', l) = json_lexer_feed l s' in (es @ es', l))"
  by (induction s arbitrary: l) (auto simp: Let_def split: prod.split)

lemma process_append:
  "process_tokens p (ts @ ts') = (let (ms, p) = process_tokens p ts; (ms', p) = process_tokens p ts' in (ms @ ms', p))"
  by (induction ts arbitrary: p) (auto simp: Let_def split: prod.split)

lemma process_lexer:
  "process_tokens (p\<lparr>mlexer := l\<rparr>) ts = (let (ms, p) = process_tokens p ts in (ms, p\<lparr>mlexer := l\<rparr>))"
proof (induction ts arbitrary: p)
  case (Cons t ts)
  have "count_token t (p\<lparr>mlexer := l\<rparr>) = (count_token t p)\<lparr>mlexer := l\<rparr>" for p by (simp add: count_token_def Let_def)
  then have "json_message_process_token (p\<lparr>mlexer := l\<rparr>) t = (let (ms, p) = json_message_process_token p t in (ms, p\<lparr>mlexer := l\<rparr>))" for p
    by (simp add: json_message_process_token_def Let_def)
  with Cons show ?case by (simp add: split_beta Let_def)
qed simp

lemma message_feed_append:
  "json_message_parser_feed p (s @ s') =
     (let (ms, p) = json_message_parser_feed p s; (ms', p) = json_message_parser_feed p s' in (ms @ ms', p))"
  by (simp add: json_message_parser_feed_def feed_append split_beta Let_def process_lexer process_append)

fun feed_chunks :: "JSONMessageParser \<Rightarrow> u8 list list \<Rightarrow> JSONToken list option list \<times> JSONMessageParser" where
  "feed_chunks p [] = ([], p)"
| "feed_chunks p (s # ss) = (let (ms, p) = json_message_parser_feed p s; (ms', p) = feed_chunks p ss in (ms @ ms', p))"

text \<open>
  C21: the stream of messages depends on the bytes only, not on the pieces they arrive in, and no
  input makes the parser work on more than the limits allow: in every message handed to it the
  braces and the brackets are each nested at most 1025 deep, which bounds its recursion, and the
  tokens hold at most 128 megabytes and one byte.
\<close>

theorem json_stream_bounded:
  "feed_chunks json_message_parser_init cs = json_message_parser_feed json_message_parser_init (concat cs) \<and>
   list_all message_ok (fst (feed_chunks json_message_parser_init cs))"
proof -
  have nil: "json_message_parser_feed p [] = ([], p)" for p by (simp add: json_message_parser_feed_def)
  have c: "feed_chunks p cs = json_message_parser_feed p (concat cs)" for p cs
    by (induction cs arbitrary: p) (simp_all add: nil message_feed_append)
  have "splitter_ok (json_message_parser_init\<lparr>mlexer := l\<rparr>)" for l
    by (simp add: splitter_ok_def json_message_parser_init_def op_count_def tokens_size_def shallow_def MAX_NESTING_def)
  moreover have "list_all (\<lambda>t. length (tvalue t) \<le> MAX_TOKEN_SIZE + 1) (fst (json_lexer_feed (mlexer json_message_parser_init) s))" for s
    by (rule feed_lengths) (simp add: json_message_parser_init_def json_lexer_init_def)
  ultimately have "list_all message_ok (fst (json_message_parser_feed json_message_parser_init s))" for s
    using process_ok by (simp add: json_message_parser_feed_def split_beta)
  then show ?thesis using c by simp
qed

text \<open>
  In a single-quoted string the escapes of the backslash and of the slash continue as a
  double-quoted one: the closing quote is taken as a character, and the string goes on.
\<close>

lemma json_single_quote_defect:
  "core_feed (IN_START, []) [0x27, 0x5c, 0x5c, 0x27] = ([], (IN_DQ_STRING, [0x27, 0x5c, 0x5c, 0x27]))"
proof -
  have "core (IN_START, t) 0x27 = ([], (IN_SQ_STRING, t @ [0x27]))" "core (IN_SQ_STRING, t) 0x5c = ([], (IN_SQ_STRING_ESCAPE, t @ [0x5c]))"
    "core (IN_SQ_STRING_ESCAPE, t) 0x5c = ([], (IN_DQ_STRING, t @ [0x5c]))" "core (IN_DQ_STRING, t) 0x27 = ([], (IN_DQ_STRING, t @ [0x27]))" for t
    by (rule core_move; simp add: table_simps)+
  then show ?thesis by simp
qed

end
