(* ===== verification/Json.thy ===== *)
theory Json
  imports QObject JsonLexer "HOL-Library.Finite_Map"
begin

text \<open>
  Objects as JSON text: the parser \<open>json-parser.c\<close> and the two directions of \<open>qjson.c\<close>.

  Here an object is its value, a tree. Its memory and its references are the subject of the theory
  of objects; the entries of a dictionary are in the order in which \<open>qdict_iter\<close> visits them, which
  \<open>qdict_put_obj\<close> determines (\<open>dict_put_entries\<close> relates the two). A \<open>char\<close> is signed, as on the
  hosts the program is built for. The C type \<open>double\<close> is the type variable \<open>'d\<close>; the conversions of
  the C library between doubles and text, \<open>strtod\<close> and the format \<open>%f\<close>, are parameters. The
  message of a parse error is its format and the bytes it is given.

  The recursive descent has a recursion bound; \<open>json_parser_fuel\<close> shows that the bound chosen is
  never reached. \<open>json_error_reported\<close> is about the error a caller is given. That printing and
  parsing are inverse is the subject of the next theory.
\<close>

section \<open>Values\<close>

datatype 'd jvalue =
  JInt u64 | JBool int | JStr cstr | JFloat 'd | JList "'d jvalue list" | JDict "(cstr \<times> 'd jvalue) list" | JErr

definition c_str :: "u8 list \<Rightarrow> cstr" where
  "c_str s = takeWhile (\<lambda>b. b \<noteq> 0) s"

definition dict_put :: "cstr \<Rightarrow> 'v \<Rightarrow> (cstr \<times> 'v) list \<Rightarrow> (cstr \<times> 'v) list" where
  "dict_put k v d =
     (if k \<in> set (map fst d) then map (\<lambda>(k', v'). (k', if k' = k then v else v')) d
      else takeWhile (\<lambda>e. bucket_of (fst e) < bucket_of k) d @ (k, v) # dropWhile (\<lambda>e. bucket_of (fst e) < bucket_of k) d)"

section \<open>Printing\<close>

definition hexdigit :: "nat \<Rightarrow> u8" where
  "hexdigit n = (if n < 10 then of_nat (48 + n) else of_nat (55 + n))"

fun hex_nat :: "nat \<Rightarrow> cstr" where
  "hex_nat n = (if n < 16 then [hexdigit n] else hex_nat (n div 16) @ [hexdigit (n mod 16)])"

declare hex_nat.simps [simp del]

text \<open>\<open>snprintf(escape, 7, "\u%04X", w)\<close>: at most six characters are stored.\<close>

definition unicode_escape :: "u32 \<Rightarrow> cstr" where
  "unicode_escape w = (let h = hex_nat (unat w) in take 6 ([0x5c, 0x75] @ replicate (4 - length h) 0x30 @ h))"

definition byte_at :: "u8 list \<Rightarrow> nat \<Rightarrow> u8" where
  "byte_at s i = (if i < length s then s ! i else 0)"

definition escape_char :: "u8 \<Rightarrow> cstr" where
  "escape_char c =
     (if c = 0x22 then [0x5c, 0x22]
      else if c = 0x5c then [0x5c, 0x5c]
      else if c = 0x08 then [0x5c, 0x62]
      else if c = 0x0c then [0x5c, 0x66]
      else if c = 0x0a then [0x5c, 0x6e]
      else if c = 0x0d then [0x5c, 0x72]
      else if c = 0x09 then [0x5c, 0x74]
      else if sint c \<le> 0x1f then unicode_escape (scast c)
      else [c])"

function escape_str :: "cstr \<Rightarrow> cstr" where
  "escape_str [] = []"
| "escape_str (a # r) =
     (if a AND 0xe0 = 0xe0 \<and> byte_at r 0 AND 0x80 \<noteq> 0 \<and> byte_at r 1 AND 0x80 \<noteq> 0 then
        unicode_escape (ucast (push_bit 12 (ucast (a AND 0x0f)) OR push_bit 6 (ucast (byte_at r 0 AND 0x3f)) OR
          ucast (byte_at r 1 AND 0x3f) :: u16)) @ escape_str (drop 2 r)
      else if a AND 0xe0 = 0xc0 \<and> byte_at r 0 AND 0x80 \<noteq> 0 then
        unicode_escape (ucast (push_bit 6 (ucast (a AND 0x1f)) OR ucast (byte_at r 0 AND 0x3f) :: u16)) @ escape_str (drop 1 r)
      else escape_char a @ escape_str r)"
  by pat_completeness auto
termination escape_str
  by (relation "measure length") auto

definition json_string :: "cstr \<Rightarrow> cstr" where
  "json_string s = [0x22] @ escape_str (c_str s) @ [0x22]"

definition json_int :: "u64 \<Rightarrow> cstr" where
  "json_int v = (if sint v < 0 then 0x2d # dec_nat (nat (- sint v)) else dec_nat (nat (sint v)))"

definition json_float :: "cstr \<Rightarrow> cstr" where
  "json_float buffer =
     (let b = rev (dropWhile (\<lambda>c. c = 0x30) (rev buffer))
      in if b \<noteq> [] \<and> last b = 0x2e then butlast b else b)"

definition json_newline :: "bool \<Rightarrow> nat \<Rightarrow> cstr" where
  "json_newline pretty n = (if pretty then 0x0a # concat (replicate n [0x20, 0x20, 0x20, 0x20]) else [])"

definition json_join :: "cstr list \<Rightarrow> cstr" where
  "json_join items = (case items of [] \<Rightarrow> [] | x # xs \<Rightarrow> x @ concat (map (\<lambda>i. [0x2c, 0x20] @ i) xs))"

fun to_json :: "('d \<Rightarrow> cstr) \<Rightarrow> bool \<Rightarrow> nat \<Rightarrow> 'd jvalue \<Rightarrow> cstr" where
  "to_json fmt pretty ind (JInt v) = json_int v"
| "to_json fmt pretty ind (JStr s) = json_string s"
| "to_json fmt pretty ind (JDict d) =
     [0x7b] @ json_join (map (\<lambda>(k, v). json_newline pretty (ind + 1) @ json_string k @ [0x3a, 0x20] @ to_json fmt pretty (ind + 1) v) d)
       @ json_newline pretty ind @ [0x7d]"
| "to_json fmt pretty ind (JList l) =
     [0x5b] @ json_join (map (\<lambda>v. json_newline pretty (ind + 1) @ to_json fmt pretty (ind + 1) v) l) @ json_newline pretty ind @ [0x5d]"
| "to_json fmt pretty ind (JFloat x) = json_float (fmt x)"
| "to_json fmt pretty ind (JBool b) = (if b \<noteq> 0 then [0x74, 0x72, 0x75, 0x65] else [0x66, 0x61, 0x6c, 0x73, 0x65])"
| "to_json fmt pretty ind JErr = []"

definition qobject_to_json :: "('d \<Rightarrow> cstr) \<Rightarrow> 'd jvalue \<Rightarrow> cstr" where
  "qobject_to_json fmt obj = to_json fmt False 0 obj"

definition qobject_to_json_pretty :: "('d \<Rightarrow> cstr) \<Rightarrow> 'd jvalue \<Rightarrow> cstr" where
  "qobject_to_json_pretty fmt obj = to_json fmt True 0 obj"

section \<open>Parsing\<close>

datatype 'd varg = VObj "'d jvalue" | VInt int | VLong int | VLongLong int | VStr cstr | VDouble 'd

record 'd pctx =
  perr :: "(string \<times> cstr) option"
  pva :: "'d varg list option"

definition parse_error :: "'d pctx \<Rightarrow> string \<Rightarrow> cstr \<Rightarrow> 'd pctx" where
  "parse_error c msg arg = c\<lparr>perr := Some (msg, arg)\<rparr>"

definition token_get_value :: "JSONToken \<Rightarrow> cstr" where
  "token_get_value t = c_str (tvalue t)"

definition token_get_type :: "JSONToken \<Rightarrow> lex_code" where
  "token_get_type t = ttype t"

definition token_is_operator :: "JSONToken \<Rightarrow> u8 \<Rightarrow> bool" where
  "token_is_operator t op \<longleftrightarrow> token_get_type t = JSON_OPERATOR \<and> token_get_value t = [op]"

definition token_is_keyword :: "JSONToken \<Rightarrow> cstr \<Rightarrow> bool" where
  "token_is_keyword t w \<longleftrightarrow> token_get_type t = JSON_KEYWORD \<and> token_get_value t = w"

definition token_is_escape :: "JSONToken \<Rightarrow> cstr \<Rightarrow> bool" where
  "token_is_escape t w \<longleftrightarrow> token_get_type t = JSON_ESCAPE \<and> token_get_value t = w"

definition wchar_to_utf8 :: "u16 \<Rightarrow> cstr" where
  "wchar_to_utf8 w =
     (if w \<le> 0x007f then c_str [ucast (w AND 0x7f)]
      else if w \<le> 0x07ff then [0xc0 OR ucast (drop_bit 6 w AND 0x1f), 0x80 OR ucast (w AND 0x3f)]
      else [0xe0 OR ucast (drop_bit 12 w AND 0x0f), 0x80 OR ucast (drop_bit 6 w AND 0x3f), 0x80 OR ucast (w AND 0x3f)])"

definition hex2decimal :: "u8 \<Rightarrow> int" where
  "hex2decimal ch =
     (if 0x30 \<le> ch \<and> ch \<le> 0x39 then uint ch - 0x30
      else if 0x61 \<le> ch \<and> ch \<le> 0x66 then 10 + (uint ch - 0x61)
      else if 0x41 \<le> ch \<and> ch \<le> 0x46 then 10 + (uint ch - 0x41)
      else -1)"

text \<open>The four digits of a \<open>\u\<close> escape.\<close>

definition hex_escape :: "u8 list \<Rightarrow> u16 option" where
  "hex_escape s =
     (if length s \<ge> 4 \<and> list_all xdigit (take 4 s)
      then Some (word_of_int (push_bit 12 (hex2decimal (s ! 0)) OR push_bit 8 (hex2decimal (s ! 1)) OR
             push_bit 4 (hex2decimal (s ! 2)) OR hex2decimal (s ! 3)))
      else None)"

definition simple_escape :: "u8 \<Rightarrow> u8 option" where
  "simple_escape c =
     (if c = 0x22 then Some 0x22
      else if c = 0x27 then Some 0x27
      else if c = 0x5c then Some 0x5c
      else if c = 0x2f then Some 0x2f
      else if c = 0x62 then Some 0x08
      else if c = 0x66 then Some 0x0c
      else if c = 0x6e then Some 0x0a
      else if c = 0x72 then Some 0x0d
      else if c = 0x74 then Some 0x09
      else None)"

text \<open>The loop of \<open>qstring_from_escaped_str\<close>, up to the quote \<open>q\<close> or the end.\<close>

function unescape :: "u8 \<Rightarrow> cstr \<Rightarrow> string + cstr" where
  "unescape q [] = Inr []"
| "unescape q (c # s) =
     (if c = q then Inr []
      else if c = 0x5c then
        (case s of
           [] \<Rightarrow> Inl ''invalid escape sequence in string''
         | e # r \<Rightarrow>
             (case simple_escape e of
                Some b \<Rightarrow> ebind (unescape q r) (\<lambda>t. Inr (b # t))
              | None \<Rightarrow>
                  if e = 0x75 then
                    (case hex_escape r of
                       None \<Rightarrow> Inl ''invalid hex escape sequence in string''
                     | Some w \<Rightarrow> ebind (unescape q (drop 4 r)) (\<lambda>t. Inr (wchar_to_utf8 w @ t)))
                  else Inl ''invalid escape sequence in string''))
      else ebind (unescape q s) (\<lambda>t. Inr (c # t)))"
  by pat_completeness auto
termination unescape
  by (relation "measure (\<lambda>(q, s). length s)") auto

definition qstring_from_escaped_str :: "JSONToken \<Rightarrow> string + cstr" where
  "qstring_from_escaped_str t =
     (let s = token_get_value t
      in unescape (if s \<noteq> [] \<and> hd s = 0x22 then 0x22 else 0x27) (tl s))"

definition isspace :: "u8 \<Rightarrow> bool" where
  "isspace c \<longleftrightarrow> c = 0x20 \<or> 0x09 \<le> c \<and> c \<le> 0x0d"

text \<open>\<open>strtoll(s, NULL, 10)\<close> of the C library: values out of range become the nearest limit.\<close>

definition strtoll :: "cstr \<Rightarrow> u64" where
  "strtoll s =
     (let s = dropWhile isspace s;
          neg = (s \<noteq> [] \<and> hd s = 0x2d);
          s = (if s \<noteq> [] \<and> (hd s = 0x2d \<or> hd s = 0x2b) then tl s else s);
          v = foldl (\<lambda>a d. a * 10 + (uint d - 48)) 0 (takeWhile digit s);
          v = (if neg then - v else v)
      in word_of_int (max (- (2 ^ 63)) (min (2 ^ 63 - 1) v)))"

type_synonym 'd parsed = "('d jvalue \<times> JSONToken list) option \<times> 'd pctx"

definition parse_keyword :: "'d pctx \<Rightarrow> JSONToken list \<Rightarrow> 'd parsed" where
  "parse_keyword c ts =
     (case ts of
        [] \<Rightarrow> (None, c)
      | t # r \<Rightarrow>
          if token_get_type t \<noteq> JSON_KEYWORD then (None, c)
          else if token_is_keyword t [0x74, 0x72, 0x75, 0x65] then (Some (JBool 1, r), c)
          else if token_is_keyword t [0x66, 0x61, 0x6c, 0x73, 0x65] then (Some (JBool 0, r), c)
          else (None, parse_error c ''invalid keyword'' (token_get_value t)))"

text \<open>
  The next argument, as the escape asks for it. (In C the behaviour is undefined when the
  arguments do not fit the escapes, or a null object is passed; the model then fails.)
\<close>

definition va_object :: "JSONToken \<Rightarrow> 'd varg \<Rightarrow> 'd jvalue option" where
  "va_object t a =
     (if token_is_escape t [0x25, 0x70] then (case a of VObj v \<Rightarrow> Some v | _ \<Rightarrow> None)
      else if token_is_escape t [0x25, 0x69] then (case a of VInt i \<Rightarrow> Some (JBool i) | _ \<Rightarrow> None)
      else if token_is_escape t [0x25, 0x64] then (case a of VInt i \<Rightarrow> Some (JInt (word_of_int i)) | _ \<Rightarrow> None)
      else if token_is_escape t [0x25, 0x6c, 0x64] then (case a of VLong i \<Rightarrow> Some (JInt (word_of_int i)) | _ \<Rightarrow> None)
      else if token_is_escape t [0x25, 0x6c, 0x6c, 0x64] \<or> token_is_escape t [0x25, 0x49, 0x36, 0x34, 0x64]
      then (case a of VLongLong i \<Rightarrow> Some (JInt (word_of_int i)) | _ \<Rightarrow> None)
      else if token_is_escape t [0x25, 0x73] then (case a of VStr s \<Rightarrow> Some (JStr s) | _ \<Rightarrow> None)
      else if token_is_escape t [0x25, 0x66] then (case a of VDouble x \<Rightarrow> Some (JFloat x) | _ \<Rightarrow> None)
      else None)"

definition parse_escape :: "'d pctx \<Rightarrow> JSONToken list \<Rightarrow> 'd parsed" where
  "parse_escape c ts =
     (case pva c of
        None \<Rightarrow> (None, c)
      | Some args \<Rightarrow>
          (case ts of
             [] \<Rightarrow> (None, c)
           | t # r \<Rightarrow>
               if token_get_type t \<noteq> JSON_ESCAPE then (None, c)
               else (case args of
                       [] \<Rightarrow> (None, c)
                     | a # as \<Rightarrow>
                         (case va_object t a of
                            None \<Rightarrow> (None, c)
                          | Some v \<Rightarrow> (Some (v, r), c\<lparr>pva := Some as\<rparr>)))))"

text \<open>
  (After an invalid string the code drops the token although it returns nothing; every caller gives
  up its copy of the tokens then.)
\<close>

definition parse_literal :: "(cstr \<Rightarrow> 'd) \<Rightarrow> 'd pctx \<Rightarrow> JSONToken list \<Rightarrow> 'd parsed" where
  "parse_literal strtod c ts =
     (case ts of
        [] \<Rightarrow> (None, c)
      | t # r \<Rightarrow>
          if token_get_type t = JSON_STRING then
            (case qstring_from_escaped_str t of Inl msg \<Rightarrow> (None, parse_error c msg []) | Inr s \<Rightarrow> (Some (JStr s, r), c))
          else if token_get_type t = JSON_INTEGER then (Some (JInt (strtoll (token_get_value t)), r), c)
          else if token_get_type t = JSON_FLOAT then (Some (JFloat (strtod (token_get_value t)), r), c)
          else (None, c))"

text \<open>
  Sequencing of two parsers, and the attempt of a second one after the first has failed. What the
  first attempt did to the error and to the arguments remains.
\<close>

fun pbind :: "('a \<times> JSONToken list) option \<times> 'd pctx \<Rightarrow> ('a \<Rightarrow> JSONToken list \<Rightarrow> 'd pctx \<Rightarrow> 'b option \<times> 'd pctx) \<Rightarrow> 'b option \<times> 'd pctx" where
  "pbind (None, c) f = (None, c)"
| "pbind (Some (a, w), c) f = f a w c"

fun por :: "'a option \<times> 'd pctx \<Rightarrow> ('d pctx \<Rightarrow> 'a option \<times> 'd pctx) \<Rightarrow> 'a option \<times> 'd pctx" where
  "por (Some a, c) f = (Some a, c)"
| "por (None, c) f = f c"

definition otherwise :: "string \<Rightarrow> 'a option \<times> 'd pctx \<Rightarrow> 'a option \<times> 'd pctx" where
  "otherwise msg r = por r (\<lambda>c. (None, parse_error c msg []))"

definition premature :: "'d pctx \<Rightarrow> 'a option \<times> 'd pctx" where
  "premature c = (None, parse_error c ''premature EOI'' [])"

text \<open>
  The rules for pairs, objects and arrays are given the rule for values they call, \<open>pv\<close>. The two
  loops and the recursion of \<open>parse_value\<close> have a bound; \<open>parse_fuel\<close> is the one chosen.
\<close>

definition parse_pair :: "('d pctx \<Rightarrow> JSONToken list \<Rightarrow> 'd parsed) \<Rightarrow> (cstr \<times> 'd jvalue) list \<Rightarrow> 'd pctx \<Rightarrow> JSONToken list \<Rightarrow>
    ((cstr \<times> 'd jvalue) list \<times> JSONToken list) option \<times> 'd pctx" where
  "parse_pair pv d c ts =
     (if ts = [] then premature c
      else pbind (otherwise ''key is not a string in object'' (pv c ts)) (\<lambda>key w c.
             case key of
               JStr k \<Rightarrow>
                 (case w of
                    [] \<Rightarrow> premature c
                  | t # w \<Rightarrow>
                      if \<not> token_is_operator t 0x3a then (None, parse_error c ''missing : in object pair'' [])
                      else pbind (otherwise ''Missing value in dict'' (pv c w)) (\<lambda>v w c.
                             (Some (dict_put (c_str k) v d, w), c)))
             | _ \<Rightarrow> (None, parse_error c ''key is not a string in object'' [])))"

primrec parse_members :: "nat \<Rightarrow> ('d pctx \<Rightarrow> JSONToken list \<Rightarrow> 'd parsed) \<Rightarrow> (cstr \<times> 'd jvalue) list \<Rightarrow> 'd pctx \<Rightarrow> JSONToken list \<Rightarrow> 'd parsed" where
  "parse_members 0 pv d c ts = (None, c)"
| "parse_members (Suc n) pv d c ts =
     (case ts of
        [] \<Rightarrow> premature c
      | t # w \<Rightarrow>
          if token_is_operator t 0x7d then (Some (JDict d, w), c)
          else if \<not> token_is_operator t 0x2c then (None, parse_error c ''expected separator in dict'' [])
          else pbind (parse_pair pv d c w) (\<lambda>d w c. parse_members n pv d c w))"

definition parse_object :: "nat \<Rightarrow> ('d pctx \<Rightarrow> JSONToken list \<Rightarrow> 'd parsed) \<Rightarrow> 'd pctx \<Rightarrow> JSONToken list \<Rightarrow> 'd parsed" where
  "parse_object n pv c ts =
     (case ts of
        [] \<Rightarrow> (None, c)
      | t # w \<Rightarrow>
          if \<not> token_is_operator t 0x7b then (None, c)
          else (case w of
                  [] \<Rightarrow> premature c
                | peek # w' \<Rightarrow>
                    if token_is_operator peek 0x7d then (Some (JDict [], w'), c)
                    else pbind (parse_pair pv [] c w) (\<lambda>d w c. parse_members n pv d c w)))"

primrec parse_items :: "nat \<Rightarrow> ('d pctx \<Rightarrow> JSONToken list \<Rightarrow> 'd parsed) \<Rightarrow> 'd jvalue list \<Rightarrow> 'd pctx \<Rightarrow> JSONToken list \<Rightarrow> 'd parsed" where
  "parse_items 0 pv l c ts = (None, c)"
| "parse_items (Suc n) pv l c ts =
     (case ts of
        [] \<Rightarrow> premature c
      | t # w \<Rightarrow>
          if token_is_operator t 0x5d then (Some (JList l, w), c)
          else if \<not> token_is_operator t 0x2c then (None, parse_error c ''expected separator in list'' [])
          else pbind (otherwise ''expecting value'' (pv c w)) (\<lambda>v w c. parse_items n pv (l @ [v]) c w))"

definition parse_array :: "nat \<Rightarrow> ('d pctx \<Rightarrow> JSONToken list \<Rightarrow> 'd parsed) \<Rightarrow> 'd pctx \<Rightarrow> JSONToken list \<Rightarrow> 'd parsed" where
  "parse_array n pv c ts =
     (case ts of
        [] \<Rightarrow> (None, c)
      | t # w \<Rightarrow>
          if \<not> token_is_operator t 0x5b then (None, c)
          else (case w of
                  [] \<Rightarrow> premature c
                | peek # w' \<Rightarrow>
                    if token_is_operator peek 0x5d then (Some (JList [], w'), c)
                    else pbind (otherwise ''expecting value'' (pv c w)) (\<lambda>v w c. parse_items n pv [v] c w)))"

primrec parse_value :: "nat \<Rightarrow> (cstr \<Rightarrow> 'd) \<Rightarrow> 'd pctx \<Rightarrow> JSONToken list \<Rightarrow> 'd parsed" where
  "parse_value 0 strtod c ts = (None, c)"
| "parse_value (Suc n) strtod c ts =
     por (parse_object n (parse_value n strtod) c ts) (\<lambda>c.
       por (parse_array n (parse_value n strtod) c ts) (\<lambda>c.
         por (parse_escape c ts) (\<lambda>c.
           por (parse_keyword c ts) (\<lambda>c. parse_literal strtod c ts))))"

definition parse_fuel :: "JSONToken list \<Rightarrow> nat" where
  "parse_fuel ts = length ts + 1"

definition json_parser_parse_err :: "(cstr \<Rightarrow> 'd) \<Rightarrow> JSONToken list \<Rightarrow> 'd varg list option \<Rightarrow> 'd jvalue option \<times> 'd pctx" where
  "json_parser_parse_err strtod ts ap =
     (let (r, c) = parse_value (parse_fuel ts) strtod \<lparr>perr = None, pva = ap\<rparr> ts in (map_option fst r, c))"

text \<open>
  The callback \<open>parse_json\<close> of the message parser, with the state \<open>JSONParsingState\<close>: the arguments
  left and the result so far. A message the parser gives up has no tokens to parse and no result.
\<close>

definition parse_json :: "(cstr \<Rightarrow> 'd) \<Rightarrow> 'd varg list option \<times> 'd jvalue option \<Rightarrow> JSONToken list option \<Rightarrow> 'd varg list option \<times> 'd jvalue option" where
  "parse_json strtod s m =
     (case m of
        None \<Rightarrow> (fst s, None)
      | Some ts \<Rightarrow> (let (r, c) = json_parser_parse_err strtod ts (fst s) in (pva c, r)))"

definition qobject_from_jsonv :: "(cstr \<Rightarrow> 'd) \<Rightarrow> u8 list \<Rightarrow> 'd varg list option \<Rightarrow> 'd jvalue option" where
  "qobject_from_jsonv strtod s ap =
     (let (ms, p) = json_message_parser_feed json_message_parser_init (c_str s);
          (ms', p) = json_message_parser_flush p
      in snd (foldl (parse_json strtod) (ap, None) (ms @ ms')))"

definition qobject_from_json :: "(cstr \<Rightarrow> 'd) \<Rightarrow> u8 list \<Rightarrow> 'd jvalue option" where
  "qobject_from_json strtod s = qobject_from_jsonv strtod s None"

text \<open>The assertion of \<open>qobject_from_jsonf\<close> is the left value.\<close>

definition qobject_from_jsonf :: "(cstr \<Rightarrow> 'd) \<Rightarrow> u8 list \<Rightarrow> 'd varg list \<Rightarrow> unit + 'd jvalue" where
  "qobject_from_jsonf strtod s args =
     (case qobject_from_jsonv strtod s (Some args) of None \<Rightarrow> Inl () | Some v \<Rightarrow> Inr v)"

section \<open>The recursion bound\<close>

definition shrinks :: "('d pctx \<Rightarrow> JSONToken list \<Rightarrow> ('a \<times> JSONToken list) option \<times> 'd pctx) \<Rightarrow> bool" where
  "shrinks f \<longleftrightarrow> (\<forall>c ts a w c'. f c ts = (Some (a, w), c') \<longrightarrow> length w < length ts)"

lemma pbind_Some: "pbind r f = (Some b, c') \<longleftrightarrow> (\<exists>a w c. r = (Some (a, w), c) \<and> f a w c = (Some b, c'))"
  by (cases "(r, f)" rule: pbind.cases) auto

lemma otherwise_Some: "otherwise msg r = (Some b, c') \<longleftrightarrow> r = (Some b, c')"
  by (cases r; cases "fst r") (auto simp: otherwise_def)

lemma por_Some: "por r f = (Some b, c') \<longleftrightarrow> r = (Some b, c') \<or> (\<exists>c. r = (None, c) \<and> f c = (Some b, c'))"
  by (cases r; cases "fst r") auto


lemma shrinksD: "shrinks f \<Longrightarrow> f c ts = (Some (a, w), c') \<Longrightarrow> length w < length ts"
  unfolding shrinks_def by blast

lemma parse_pair_shrinks:
  assumes "shrinks pv"
  shows "shrinks (parse_pair pv d)"
  unfolding shrinks_def
proof (intro allI impI)
  fix c ts a w c'
  assume p: "parse_pair pv d c ts = (Some (a, w), c')"
  then obtain key w1 c1 where k: "pv c ts = (Some (key, w1), c1)"
    by (auto simp: parse_pair_def pbind_Some otherwise_Some premature_def split: if_splits)
  with p obtain t w2 v c2 where "w1 = t # w2" "pv c1 w2 = (Some (v, w), c2)"
    by (cases key) (auto simp: parse_pair_def pbind_Some otherwise_Some premature_def split: if_splits list.splits)
  then show "length w < length ts" using shrinksD [OF assms k] shrinksD [OF assms, of c1 w2] by simp
qed

lemma parse_members_shrinks:
  assumes "shrinks pv"
  shows "parse_members n pv d c ts = (Some (a, w), c') \<Longrightarrow> length w < length ts"
proof (induction n arbitrary: d c ts)
  case (Suc n)
  from Suc.prems show ?case
    by (auto simp: pbind_Some premature_def split: if_splits list.splits
        dest!: Suc.IH shrinksD [OF parse_pair_shrinks, OF assms])
qed simp

lemma parse_items_shrinks:
  assumes "shrinks pv"
  shows "parse_items n pv l c ts = (Some (a, w), c') \<Longrightarrow> length w < length ts"
proof (induction n arbitrary: l c ts)
  case (Suc n)
  from Suc.prems show ?case
    by (auto simp: pbind_Some otherwise_Some premature_def split: if_splits list.splits dest!: Suc.IH shrinksD [OF assms])
qed simp

lemma parse_object_shrinks:
  assumes "shrinks pv"
  shows "shrinks (parse_object n pv)"
  unfolding shrinks_def
  by (auto simp: parse_object_def pbind_Some premature_def split: if_splits list.splits
      dest!: parse_members_shrinks [OF assms] shrinksD [OF parse_pair_shrinks, OF assms])

lemma parse_array_shrinks:
  assumes "shrinks pv"
  shows "shrinks (parse_array n pv)"
  unfolding shrinks_def
  by (auto simp: parse_array_def pbind_Some otherwise_Some premature_def split: if_splits list.splits
      dest!: parse_items_shrinks [OF assms] shrinksD [OF assms])

lemma parse_token_shrinks:
  "parse_escape c ts = (Some (a, w), c') \<Longrightarrow> length w < length ts"
  "parse_keyword c ts = (Some (a, w), c') \<Longrightarrow> length w < length ts"
  "parse_literal strtod c ts = (Some (a, w), c') \<Longrightarrow> length w < length ts"
  by (auto simp: parse_escape_def parse_keyword_def parse_literal_def split: if_splits list.splits option.splits sum.splits)

lemma parse_value_shrinks: "shrinks (parse_value n strtod)"
proof (induction n)
  case (Suc n)
  then show ?case unfolding shrinks_def [of "parse_value (Suc n) strtod"]
    by (auto simp: por_Some dest: parse_token_shrinks shrinksD [OF parse_object_shrinks] shrinksD [OF parse_array_shrinks])
qed (simp add: shrinks_def)










section \<open>Errors\<close>

definition clean :: "('d pctx \<Rightarrow> JSONToken list \<Rightarrow> 'a option \<times> 'd pctx) \<Rightarrow> bool" where
  "clean f \<longleftrightarrow> (\<forall>c ts a c'. f c ts = (Some a, c') \<longrightarrow> perr c' = perr c)"

lemma cleanD: "clean f \<Longrightarrow> f c ts = (Some a, c') \<Longrightarrow> perr c' = perr c"
  unfolding clean_def by blast

lemma parse_pair_clean:
  assumes "clean pv"
  shows "clean (parse_pair pv d)"
  unfolding clean_def
proof (intro allI impI)
  fix c ts a c'
  assume p: "parse_pair pv d c ts = (Some a, c')"
  then obtain key w1 c1 where k: "pv c ts = (Some (key, w1), c1)"
    by (auto simp: parse_pair_def pbind_Some otherwise_Some premature_def split: if_splits)
  with p obtain t w2 v w where "w1 = t # w2" "pv c1 w2 = (Some (v, w), c')"
    by (cases key) (auto simp: parse_pair_def pbind_Some otherwise_Some premature_def split: if_splits list.splits)
  then have "perr c' = perr c1" by (intro cleanD [OF assms])
  with cleanD [OF assms k] show "perr c' = perr c" by simp
qed

lemma parse_members_clean:
  assumes "clean pv"
  shows "parse_members n pv d c ts = (Some a, c') \<Longrightarrow> perr c' = perr c"
proof (induction n arbitrary: d c ts)
  case (Suc n)
  from Suc.prems show ?case
    by (auto simp: pbind_Some premature_def split: if_splits list.splits dest!: Suc.IH cleanD [OF parse_pair_clean, OF assms])
qed simp

lemma parse_items_clean:
  assumes "clean pv"
  shows "parse_items n pv l c ts = (Some a, c') \<Longrightarrow> perr c' = perr c"
proof (induction n arbitrary: l c ts)
  case (Suc n)
  from Suc.prems show ?case
    by (auto simp: pbind_Some otherwise_Some premature_def split: if_splits list.splits dest!: Suc.IH cleanD [OF assms])
qed simp

lemma parse_object_clean:
  assumes "clean pv"
  shows "clean (parse_object n pv)"
  unfolding clean_def
  by (auto simp: parse_object_def pbind_Some premature_def split: if_splits list.splits
      dest!: parse_members_clean [OF assms] cleanD [OF parse_pair_clean, OF assms])

lemma parse_array_clean:
  assumes "clean pv"
  shows "clean (parse_array n pv)"
  unfolding clean_def
  by (auto simp: parse_array_def pbind_Some otherwise_Some premature_def split: if_splits list.splits
      dest!: parse_items_clean [OF assms] cleanD [OF assms])

text \<open>At most one alternative of \<open>parse_value\<close> looks beyond the first token.\<close>

lemma operator_unique: "token_is_operator t a \<Longrightarrow> token_is_operator t b \<longleftrightarrow> a = b"
  by (auto simp: token_is_operator_def)

lemma token_rules_operator:
  assumes "token_is_operator t a"
  shows "parse_escape c (t # w) = (None, c)" "parse_keyword c (t # w) = (None, c)" "parse_literal strtod c (t # w) = (None, c)"
  using assms by (simp_all add: parse_escape_def parse_keyword_def parse_literal_def token_is_operator_def split: option.split)

lemma parse_value_object:
  "token_is_operator t 0x7b \<Longrightarrow> parse_value (Suc n) strtod c (t # w) = parse_object n (parse_value n strtod) c (t # w)"
  by (cases "parse_object n (parse_value n strtod) c (t # w)"; cases "fst (parse_object n (parse_value n strtod) c (t # w))")
    (auto simp: token_rules_operator parse_array_def operator_unique)

lemma parse_value_array:
  assumes "token_is_operator t 0x5b"
  shows "parse_value (Suc n) strtod c (t # w) = parse_array n (parse_value n strtod) c (t # w)"
proof -
  have "parse_object n pv c (t # w) = (None, c)" for pv and c :: "'a pctx"
    using assms by (simp add: parse_object_def operator_unique)
  then show ?thesis
    by (cases "parse_array n (parse_value n strtod) c (t # w)"; cases "fst (parse_array n (parse_value n strtod) c (t # w))")
      (auto simp: token_rules_operator [OF assms])
qed

lemma parse_value_token:
  assumes "\<not> token_is_operator t 0x7b" "\<not> token_is_operator t 0x5b"
  shows "parse_value (Suc n) strtod c (t # w) =
    por (parse_escape c (t # w)) (\<lambda>c. por (parse_keyword c (t # w)) (\<lambda>c. parse_literal strtod c (t # w)))"
  using assms by (simp add: parse_object_def parse_array_def)

lemma parse_value_clean: "clean (parse_value n strtod)"
proof (induction n)
  case (Suc n)
  show ?case unfolding clean_def
  proof (intro allI impI)
    fix c c' :: "'a pctx" and ts a
    assume p: "parse_value (Suc n) strtod c ts = (Some a, c')"
    show "perr c' = perr c"
    proof (cases ts)
      case Nil
      then show ?thesis using p by (auto simp: parse_object_def parse_array_def parse_escape_def parse_keyword_def parse_literal_def split: option.splits)
    next
      case (Cons t w)
      consider "token_is_operator t 0x7b" | "token_is_operator t 0x5b" | "\<not> token_is_operator t 0x7b" "\<not> token_is_operator t 0x5b" by blast
      then show ?thesis
      proof cases
        case 1
        then show ?thesis using p Cons cleanD [OF parse_object_clean, OF Suc.IH] by (auto simp: parse_value_object simp del: parse_value.simps)
      next
        case 2
        then show ?thesis using p Cons cleanD [OF parse_array_clean, OF Suc.IH] by (auto simp: parse_value_array simp del: parse_value.simps)
      next
        case 3
        then show ?thesis using p unfolding Cons parse_value_token [OF 3]
          by (auto simp: por_Some parse_escape_def parse_keyword_def parse_literal_def split: option.splits list.splits if_splits sum.splits)
      qed
    qed
  qed
qed (simp add: clean_def)

lemma pbind_None: "pbind r f = (None, c') \<longleftrightarrow> r = (None, c') \<or> (\<exists>a w c. r = (Some (a, w), c) \<and> f a w c = (None, c'))"
  by (cases "(r, f)" rule: pbind.cases) auto

lemma otherwise_fails: "otherwise msg r = (None, c') \<Longrightarrow> perr c' \<noteq> None"
  by (cases r; cases "fst r") (auto simp: otherwise_def parse_error_def)

lemma premature_fails: "premature c = (None, c') \<Longrightarrow> perr c' \<noteq> None"
  by (auto simp: premature_def parse_error_def)

lemma parse_pair_fails:
  assumes "parse_pair pv d c ts = (None, c')"
  shows "perr c' \<noteq> None"
proof (cases "ts = [] \<or> fst (pv c ts) = None")
  case True
  then show ?thesis using assms unfolding parse_pair_def by (auto simp: pbind_None split: if_splits dest!: premature_fails otherwise_fails) (auto simp: otherwise_Some)
next
  case False
  then obtain key w c1 where k: "pv c ts = (Some (key, w), c1)" by (cases "pv c ts") auto
  have p: "(case key of
       JStr k \<Rightarrow>
         (case w of
            [] \<Rightarrow> premature c1
          | t # w \<Rightarrow>
              if \<not> token_is_operator t 0x3a then (None, parse_error c1 ''missing : in object pair'' [])
              else pbind (otherwise ''Missing value in dict'' (pv c1 w)) (\<lambda>v w c. (Some (dict_put (c_str k) v d, w), c)))
     | _ \<Rightarrow> (None, parse_error c1 ''key is not a string in object'' [])) = (None, c')"
    using assms False k by (simp add: parse_pair_def otherwise_def)
  show ?thesis
  proof (cases key)
    case (JStr k)
    then show ?thesis using p
      by (auto simp: pbind_None parse_error_def split: list.splits if_splits dest: premature_fails otherwise_fails)
  qed (use p in \<open>auto simp: parse_error_def\<close>)
qed

lemma parse_members_fails:
  assumes "shrinks pv"
  shows "length ts < n \<Longrightarrow> parse_members n pv d c ts = (None, c') \<Longrightarrow> perr c' \<noteq> None"
proof (induction n arbitrary: d c ts)
  case (Suc n)
  show ?case
  proof (cases ts)
    case Nil
    then show ?thesis using Suc.prems(2) by (auto dest: premature_fails)
  next
    case (Cons t w)
    have m: "perr c' \<noteq> None" if "parse_pair pv d c w = (Some (d', w'), c1)" "parse_members n pv d' c1 w' = (None, c')" for d' w' c1
      using Suc.IH [OF _ that(2)] shrinksD [OF parse_pair_shrinks [OF assms] that(1)] Suc.prems(1) Cons by simp
    show ?thesis using Suc.prems(2) m
      by (auto simp: Cons pbind_None parse_error_def split: if_splits dest: parse_pair_fails)
  qed
qed simp

lemma parse_items_fails:
  assumes "shrinks pv"
  shows "length ts < n \<Longrightarrow> parse_items n pv l c ts = (None, c') \<Longrightarrow> perr c' \<noteq> None"
proof (induction n arbitrary: l c ts)
  case (Suc n)
  show ?case
  proof (cases ts)
    case Nil
    then show ?thesis using Suc.prems(2) by (auto dest: premature_fails)
  next
    case (Cons t w)
    have m: "perr c' \<noteq> None" if "pv c w = (Some (v, w'), c1)" "parse_items n pv (l @ [v]) c1 w' = (None, c')" for v w' c1
      using Suc.IH [OF _ that(2)] shrinksD [OF assms that(1)] Suc.prems(1) Cons by simp
    show ?thesis using Suc.prems(2) m
      by (auto simp: Cons pbind_None otherwise_Some parse_error_def split: if_splits dest: otherwise_fails)
  qed
qed simp

lemma parse_object_fails:
  assumes "shrinks pv" "token_is_operator t 0x7b" "length w < n" "parse_object n pv c (t # w) = (None, c')"
  shows "perr c' \<noteq> None"
proof -
  have m: "perr c' \<noteq> None" if "parse_pair pv [] c w = (Some (d, w'), c1)" "parse_members n pv d c1 w' = (None, c')" for d w' c1
    using parse_members_fails [OF assms(1) _ that(2)] shrinksD [OF parse_pair_shrinks [OF assms(1)] that(1)] assms(3) by simp
  show ?thesis using assms(2,4) m
    by (auto simp: parse_object_def pbind_None split: if_splits list.splits dest: parse_pair_fails premature_fails)
qed

lemma parse_array_fails:
  assumes "shrinks pv" "token_is_operator t 0x5b" "length w < n" "parse_array n pv c (t # w) = (None, c')"
  shows "perr c' \<noteq> None"
proof -
  have m: "perr c' \<noteq> None" if "pv c w = (Some (v, w'), c1)" "parse_items n pv [v] c1 w' = (None, c')" for v w' c1
    using parse_items_fails [OF assms(1) _ that(2)] shrinksD [OF assms(1) that(1)] assms(3) by simp
  show ?thesis using assms(2,4) m
    by (auto simp: parse_array_def pbind_None otherwise_Some split: if_splits list.splits dest: otherwise_fails premature_fails)
qed

text \<open>
  C16: \<open>json_parser_parse_err\<close> reports an error exactly when it fails: for every message that starts
  with a brace or a bracket, however it is malformed or cut off, either a value is returned and no
  error is set, also none left over from an alternative the descent has tried in vain, or no value is
  returned and an error is set.
\<close>

theorem json_error_reported:
  assumes "token_is_operator t 0x7b \<or> token_is_operator t 0x5b"
  shows "fst (json_parser_parse_err strtod (t # w) ap) = None \<longleftrightarrow> perr (snd (json_parser_parse_err strtod (t # w) ap)) \<noteq> None"
proof -
  let ?n = "length (t # w)" and ?c = "\<lparr>perr = None, pva = ap\<rparr>"
  obtain r c' where r: "parse_value (Suc ?n) strtod ?c (t # w) = (r, c')" by (rule prod.exhaust)
  then have j: "json_parser_parse_err strtod (t # w) ap = (map_option fst r, c')"
    by (simp add: json_parser_parse_err_def parse_fuel_def del: parse_value.simps)
  have "perr c' \<noteq> None" if "r = None"
    using assms
  proof
    assume t: "token_is_operator t 0x7b"
    have "parse_object ?n (parse_value ?n strtod) ?c (t # w) = (None, c')" using r unfolding parse_value_object [OF t] that .
    then show ?thesis by (rule parse_object_fails [OF parse_value_shrinks t, rotated]) simp
  next
    assume t: "token_is_operator t 0x5b"
    have "parse_array ?n (parse_value ?n strtod) ?c (t # w) = (None, c')" using r unfolding parse_value_array [OF t] that .
    then show ?thesis by (rule parse_array_fails [OF parse_value_shrinks t, rotated]) simp
  qed
  moreover have "perr c' = None" if "r = Some a" for a
    using cleanD [OF parse_value_clean r [unfolded that]] by simp
  ultimately show ?thesis unfolding j by (cases r) auto
qed

theorem json_error_reported_witness:
  "perr (snd (json_parser_parse_err (\<lambda>_. ()) [\<lparr>ttype = JSON_OPERATOR, tvalue = [0x7b], tx = 1, ty = 0\<rparr>] None)) \<noteq> None"
proof -
  let ?t = "\<lparr>ttype = JSON_OPERATOR, tvalue = [0x7b], tx = 1, ty = 0\<rparr>"
  have "token_is_operator ?t 0x7b" by code_simp
  moreover have "fst (json_parser_parse_err (\<lambda>_. ()) [?t] None) = None" by code_simp
  ultimately show ?thesis using json_error_reported [of ?t "\<lambda>_. ()" "[]" None] by simp
qed

section \<open>Dictionaries\<close>

text \<open>
  \<open>dict_put\<close> on the pairs a dictionary's iteration visits is what \<open>qdict_put_obj\<close> does to the table
  of buckets (\<open>set_entry\<close> and \<open>insert_entry\<close> are its two branches).
\<close>

definition dict_pairs :: "QDict \<Rightarrow> (cstr \<times> ptr) list" where
  "dict_pairs d = map (\<lambda>e. (dkey e, dvalue e)) (dict_entries d)"

lemma dict_entries_split:
  assumes "dict_ok d" "b < QDICT_BUCKET_MAX"
  shows "dict_entries d = concat (take b (dtable d)) @ dtable d ! b @ concat (drop (Suc b) (dtable d))"
proof -
  have l: "length (dtable d) = QDICT_BUCKET_MAX" using assms(1) by (simp add: dict_ok_def)
  have "dict_entries d = concat (dtable d)" unfolding dict_entries_def l [symmetric] map_nth ..
  also have "\<dots> = concat (take b (dtable d) @ dtable d ! b # drop (Suc b) (dtable d))"
    using assms(2) l by (metis id_take_nth_drop)
  finally show ?thesis by simp
qed

lemma dict_sides:
  assumes "dict_ok d" "b < QDICT_BUCKET_MAX"
  shows "e \<in> set (concat (take b (dtable d))) \<Longrightarrow> bucket_of (dkey e) < b"
    and "e \<in> set (concat (drop (Suc b) (dtable d))) \<Longrightarrow> b < bucket_of (dkey e)"
proof -
  have k: "bucket_of (dkey e) = i" if "e \<in> set (dtable d ! i)" "i < length (dtable d)" for i
    using that assms(1) by (simp add: dict_ok_def)
  show "e \<in> set (concat (take b (dtable d))) \<Longrightarrow> bucket_of (dkey e) < b"
    using k by (auto simp: in_set_conv_nth [of _ "take b (dtable d)"])
  show "e \<in> set (concat (drop (Suc b) (dtable d))) \<Longrightarrow> b < bucket_of (dkey e)"
    using k by (auto simp: in_set_conv_nth [of _ "drop (Suc b) (dtable d)"])
qed

lemma dict_put_insert:
  assumes "\<forall>e\<in>set A. bucket_of (fst e) < bucket_of k" "\<forall>e\<in>set B. bucket_of (fst e) = bucket_of k"
    and "\<forall>e\<in>set C. bucket_of k < bucket_of (fst e)" "k \<notin> fst ` set B"
  shows "dict_put k v (A @ B @ C) = A @ (k, v) # B @ C"
proof -
  have "k \<notin> fst ` set A" "k \<notin> fst ` set B" "k \<notin> fst ` set C" using assms by auto
  moreover have "takeWhile (\<lambda>e. bucket_of (fst e) < bucket_of k) (B @ C) = []" "dropWhile (\<lambda>e. bucket_of (fst e) < bucket_of k) (B @ C) = B @ C"
    using assms(2,3) by (cases B; cases C; auto)+
  ultimately show ?thesis using assms(1) by (simp add: dict_put_def takeWhile_append2 dropWhile_append2)
qed

lemma update_pairs:
  "distinct (map dkey es) \<Longrightarrow> j < length es \<Longrightarrow>
     map (\<lambda>e. (dkey e, dvalue e)) (es[j := (es ! j)\<lparr>dvalue := v\<rparr>]) =
     map (\<lambda>(k', v'). (k', if k' = dkey (es ! j) then v else v')) (map (\<lambda>e. (dkey e, dvalue e)) es)"
  by (rule nth_equalityI) (auto simp: nth_list_update distinct_conv_nth)

lemma dict_put_update:
  assumes "k \<in> fst ` set B" "k \<notin> fst ` set A" "k \<notin> fst ` set C"
  shows "dict_put k v (A @ B @ C) = A @ map (\<lambda>(k', v'). (k', if k' = k then v else v')) B @ C"
proof -
  have "map (\<lambda>(k', v'). (k', if k' = k then v else v')) A = A" "map (\<lambda>(k', v'). (k', if k' = k then v else v')) C = C"
    using assms(2,3) by (force intro!: map_idI)+
  then show ?thesis using assms(1) by (simp add: dict_put_def)
qed

lemma dict_put_entries:
  assumes "dict_ok d"
  shows "dict_pairs (case qdict_find d k (bucket_of k) of Some e \<Rightarrow> set_entry d e v
      | None \<Rightarrow> insert_entry d (bucket_of k) (alloc_entry k v)) = dict_put k v (dict_pairs d)"
proof -
  let ?b = "bucket_of k" and ?p = "\<lambda>e. (dkey e, dvalue e)"
  let ?A = "map ?p (concat (take ?b (dtable d)))" and ?B = "map ?p (dtable d ! ?b)" and ?C = "map ?p (concat (drop (Suc ?b) (dtable d)))"
  note b = bucket_less [of k] and db = dict_bucket [OF assms bucket_less, of k]
  have d: "dict_pairs d = ?A @ ?B @ ?C" using dict_entries_split [OF assms b] by (simp add: dict_pairs_def)
  have s: "\<forall>e\<in>set ?A. bucket_of (fst e) < ?b" "\<forall>e\<in>set ?B. bucket_of (fst e) = ?b" "\<forall>e\<in>set ?C. ?b < bucket_of (fst e)"
    using dict_sides [OF assms b] db(2) by auto
  show ?thesis
  proof (cases "qdict_find d k ?b")
    case None
    have "dict_pairs (insert_entry d ?b (alloc_entry k v)) = ?A @ (k, v) # ?B @ ?C"
      using dict_entries_split [OF insert_entry_ok(1) [OF assms None] b] db(3)
      by (simp add: dict_pairs_def insert_entry_def alloc_entry_def)
    moreover have "k \<notin> fst ` set ?B" using None by (auto simp: qdict_find_def find_index_None)
    ultimately show ?thesis using dict_put_insert [OF s] None d by simp
  next
    case (Some e)
    note f = qdict_find_Some [OF Some]
    have k: "dkey (dtable d ! ?b ! snd e) = k" using f(1,3) by (simp add: entry_at_def)
    have "dict_pairs (set_entry d e v) = ?A @ map (\<lambda>(k', v'). (k', if k' = k then v else v')) ?B @ ?C"
      using dict_entries_split [OF set_entry_ok(1) [OF assms Some] b] db(3) update_pairs [OF db(1) f(2), of v] k f(1)
      by (simp add: dict_pairs_def set_entry_def entry_at_def)
    moreover have "k \<in> fst ` set ?B" using f(2) k by (force simp: in_set_conv_nth)
    moreover have "k \<notin> fst ` set ?A" "k \<notin> fst ` set ?C" using s by fastforce+
    ultimately show ?thesis using dict_put_update [of k ?B ?A ?C v] Some d by simp
  qed
qed

lemma dict_put_keys: "fst ` set (dict_put k v d) = insert k (fst ` set d)"
proof (cases "k \<in> fst ` set d")
  case False
  have "set (takeWhile P d) \<union> set (dropWhile P d) = set d" for P by (metis set_append takeWhile_dropWhile_id)
  with False show ?thesis by (auto simp: dict_put_def image_Un simp flip: image_Un)
qed (force simp: dict_put_def)

lemma dict_put_lookup: "map_of (dict_put k v d) = (map_of d)(k \<mapsto> v)"
proof (cases "k \<in> fst ` set d")
  case True
  have "map_of (map (\<lambda>(k', v'). (k', if k' = k then v else v')) d) = (\<lambda>k'. if k' = k then map_option (\<lambda>_. v) (map_of d k) else map_of d k')"
    by (induction d) (auto simp: fun_eq_iff)
  with True show ?thesis by (auto simp: dict_put_def fun_eq_iff weak_map_of_SomeI map_of_eq_None_iff)
next
  case False
  let ?P = "\<lambda>e. bucket_of (fst e) < bucket_of k"
  have "map_of d = map_of (dropWhile ?P d) ++ map_of (takeWhile ?P d)" by (metis map_of_append takeWhile_dropWhile_id)
  moreover have "map_of (takeWhile ?P d) k = None" using False by (auto simp: map_of_eq_None_iff dest: set_takeWhileD)
  ultimately show ?thesis using False by (auto simp: dict_put_def fun_eq_iff map_add_def split: option.split)
qed

end
