(* ===== verification/JsonRoundtrip.thy ===== *)
theory JsonRoundtrip
  imports Json
begin

text \<open>
  Printing and parsing: what \<open>qobject_to_json\<close> prints, \<open>qobject_from_json\<close> reads back as the same
  value. The proof follows the text through the lexer, the message splitter and the parser: the
  printed text lexes to the tokens \<open>toks\<close> of the value, the splitter hands them to the parser as one
  message, and the parser rebuilds the value from them.

  The conditions are those the code needs. A string is text in UTF-8 without code points beyond the
  basic plane (\<open>bmp_utf8\<close>): the printer takes the first byte of a four-byte sequence for that of a
  three-byte one. There are no floats, which lose their type when they are printed without a fraction.
  The nesting and the length stay within the limits of the message splitter.
\<close>

section \<open>Text\<close>

text \<open>
  One or two continuation bytes (two top bits 10) after a first byte with the top bits 110 or 1110,
  and no longer sequence than needed.
\<close>

function bmp_utf8 :: "cstr \<Rightarrow> bool" where
  "bmp_utf8 [] \<longleftrightarrow> True"
| "bmp_utf8 (a # r) \<longleftrightarrow>
     (if a AND 0x80 = 0 then a \<noteq> 0 \<and> bmp_utf8 r
      else if a AND 0xe0 = 0xc0 then
        a AND 0x1e \<noteq> 0 \<and> byte_at r 0 AND 0xc0 = 0x80 \<and> bmp_utf8 (drop 1 r)
      else
        a AND 0xf0 = 0xe0 \<and> byte_at r 0 AND 0xc0 = 0x80 \<and> byte_at r 1 AND 0xc0 = 0x80 \<and>
        (a AND 0x0f \<noteq> 0 \<or> byte_at r 0 AND 0x20 \<noteq> 0) \<and> bmp_utf8 (drop 2 r))"
  by pat_completeness auto
termination bmp_utf8
  by (relation "measure length") auto

lemma all_less_8: "(\<forall>n < (8 :: nat). P n) \<longleftrightarrow> P 0 \<and> P 1 \<and> P 2 \<and> P 3 \<and> P 4 \<and> P 5 \<and> P 6 \<and> P 7"
  by (simp add: All_less_Suc numeral_eq_Suc conj_ac)

lemma all_less_16: "(\<forall>n < (16 :: nat). P n) \<longleftrightarrow> P 0 \<and> P 1 \<and> P 2 \<and> P 3 \<and> P 4 \<and> P 5 \<and> P 6 \<and> P 7 \<and>
    P 8 \<and> P 9 \<and> P 10 \<and> P 11 \<and> P 12 \<and> P 13 \<and> P 14 \<and> P 15"
  by (simp add: All_less_Suc numeral_eq_Suc conj_ac)

lemma u8_bits: "x = y \<longleftrightarrow> (\<forall>n<8. bit x n \<longleftrightarrow> bit (y :: u8) n)"
  using word_eq_bits [of x y] by simp

lemma u16_bits: "x = y \<longleftrightarrow> (\<forall>n<16. bit x n \<longleftrightarrow> bit (y :: u16) n)"
  using word_eq_bits [of x y] by simp

lemmas byte_bits = u8_bits all_less_8 bit_and_iff bit_or_iff
lemmas wide_bits = u16_bits all_less_16 bit_and_iff bit_or_iff bit_push_bit_iff bit_drop_bit_eq bit_ucast_iff

lemma u16_le_mask: "(w :: u16) \<le> 0x7f \<longleftrightarrow> drop_bit 7 w = 0" "(w :: u16) \<le> 0x7ff \<longleftrightarrow> drop_bit 11 w = 0"
proof -
  have d: "drop_bit k w = 0 \<longleftrightarrow> unat w div 2 ^ k = 0" for k
    unfolding word_unat_eq_iff unat_drop_bit_eq by (simp add: drop_bit_eq_div)
  show "w \<le> 0x7f \<longleftrightarrow> drop_bit 7 w = 0" "w \<le> 0x7ff \<longleftrightarrow> drop_bit 11 w = 0"
    unfolding d word_le_nat_alt by (simp_all add: div_eq_0_iff less_Suc_eq_le [symmetric])
qed

lemma two_bytes:
  fixes a b :: u8
  assumes "a AND 0xe0 = 0xc0" "a AND 0x1e \<noteq> 0" "b AND 0xc0 = 0x80"
  defines "w \<equiv> push_bit 6 (ucast (a AND 0x1f)) OR ucast (b AND 0x3f) :: u16"
  shows "wchar_to_utf8 w = [a, b]"
proof -
  have a: "bit a 7" "bit a 6" "\<not> bit a 5" "bit a 1 \<or> bit a 2 \<or> bit a 3 \<or> bit a 4" and b: "bit b 7" "\<not> bit b 6"
    using assms(1-3) by (simp_all add: byte_bits bit_numeral_rec)
  have "drop_bit 7 w \<noteq> 0" "drop_bit 11 w = 0"
    using a(4) by (simp_all add: w_def wide_bits bit_numeral_rec) (auto simp: eval_nat_numeral)
  moreover have "0xc0 OR ucast (drop_bit 6 w AND 0x1f) = a" "0x80 OR ucast (w AND 0x3f) = b"
    using a(1-3) b by (simp_all add: w_def byte_bits bit_push_bit_iff bit_drop_bit_eq bit_ucast_iff bit_numeral_rec)
  ultimately show ?thesis by (simp add: wchar_to_utf8_def u16_le_mask)
qed

lemma three_bytes:
  fixes a b c :: u8
  assumes "a AND 0xf0 = 0xe0" "b AND 0xc0 = 0x80" "c AND 0xc0 = 0x80" "a AND 0x0f \<noteq> 0 \<or> b AND 0x20 \<noteq> 0"
  defines "w \<equiv> push_bit 12 (ucast (a AND 0x0f)) OR push_bit 6 (ucast (b AND 0x3f)) OR ucast (c AND 0x3f) :: u16"
  shows "wchar_to_utf8 w = [a, b, c]"
proof -
  have a: "bit a 7" "bit a 6" "bit a 5" "\<not> bit a 4" and b: "bit b 7" "\<not> bit b 6" and c: "bit c 7" "\<not> bit c 6"
    using assms(1-3) by (simp_all add: byte_bits bit_numeral_rec)
  have ab: "bit a 0 \<or> bit a 1 \<or> bit a 2 \<or> bit a 3 \<or> bit b 5"
    using assms(4) by (auto simp: byte_bits bit_numeral_rec)
  have "drop_bit 11 w \<noteq> 0"
    using ab by (auto simp: w_def wide_bits bit_numeral_rec)
  then have "\<not> w \<le> 0x7ff" by (simp add: u16_le_mask)
  then have "\<not> w \<le> 0x7f" using order.trans [of w "0x7f" "0x7ff"] by auto
  moreover have "0xe0 OR ucast (drop_bit 12 w AND 0x0f) = a" "0x80 OR ucast (drop_bit 6 w AND 0x3f) = b" "0x80 OR ucast (w AND 0x3f) = c"
    using a b c by (simp_all add: w_def byte_bits bit_push_bit_iff bit_drop_bit_eq bit_ucast_iff bit_numeral_rec)
  ultimately show ?thesis using \<open>\<not> w \<le> 0x7ff\<close> by (simp add: wchar_to_utf8_def)
qed
text \<open>Four hexadecimal digits.\<close>

lemma hexdigit_ok:
  assumes "n < 16"
  shows "xdigit (hexdigit n)" "hex2decimal (hexdigit n) = int n" "hexdigit n \<noteq> 0"
proof -
  have "\<forall>n<16. xdigit (hexdigit n) \<and> hex2decimal (hexdigit n) = int n \<and> hexdigit n \<noteq> 0"
    unfolding all_less_16 by (simp add: hexdigit_def xdigit_def hex2decimal_def)
  with assms show "xdigit (hexdigit n)" "hex2decimal (hexdigit n) = int n" "hexdigit n \<noteq> 0" by auto
qed

lemma hex_nat_digits:
  assumes "n < 65536"
  shows "replicate (4 - length (hex_nat n)) 0x30 @ hex_nat n =
    [hexdigit (n div 4096), hexdigit (n div 256 mod 16), hexdigit (n div 16 mod 16), hexdigit (n mod 16)]"
proof -
  have z: "(0x30 :: u8) = hexdigit 0" by (simp add: hexdigit_def)
  note step = hex_nat.simps [of n] hex_nat.simps [of "n div 16"] hex_nat.simps [of "n div 256"] hex_nat.simps [of "n div 4096"]
  have d: "n div 16 < 16 \<longleftrightarrow> n < 256" "n div 256 < 16 \<longleftrightarrow> n < 4096" "n div 4096 < 16" "n div 16 div 16 = n div 256" "n div 256 div 16 = n div 4096"
    using assms by (simp_all add: div_less_iff_less_mult div_mult2_eq [symmetric])
  consider "n < 16" | "16 \<le> n" "n < 256" | "256 \<le> n" "n < 4096" | "4096 \<le> n" by linarith
  then show ?thesis
    by cases (simp_all add: step d z numeral_2_eq_2 numeral_3_eq_3)
qed

lemma or_digits:
  assumes "0 \<le> y" "y < 2 ^ k"
  shows "push_bit k x OR y = x * 2 ^ k + (y :: int)"
  using concat_bit_eq [of k y x] assms
  by (simp add: concat_bit_def take_bit_int_eq_self push_bit_eq_mult ac_simps)

lemma hex_escape_u16:
  fixes w :: u16
  obtains d where "unicode_escape (ucast w) = [0x5c, 0x75] @ d" "length d = 4" "list_all xdigit d" "list_all (\<lambda>c. c \<noteq> 0) d"
    "\<And>r. hex_escape (d @ r) = Some w"
proof -
  let ?n = "unat w"
  let ?d = "[hexdigit (?n div 4096), hexdigit (?n div 256 mod 16), hexdigit (?n div 16 mod 16), hexdigit (?n mod 16)]"
  have n: "?n < 65536" using unsigned_less [of w, where ?'a = nat] by simp
  have lt: "?n div 4096 < 16" "?n div 256 mod 16 < 16" "?n div 16 mod 16 < 16" "?n mod 16 < 16"
    using n by (simp_all add: div_less_iff_less_mult)
  note d = lt [THEN hexdigit_ok(1)] lt [THEN hexdigit_ok(2)] lt [THEN hexdigit_ok(3)]
  have u: "unat (ucast w :: u32) = ?n" using n by (simp only: unsigned_ucast_eq) (simp add: take_bit_nat_eq_self_iff)
  have "unicode_escape (ucast w) = [0x5c, 0x75] @ ?d"
    unfolding unicode_escape_def u Let_def hex_nat_digits [OF n] by simp
  moreover have "hex_escape (?d @ r) = Some w" for r
  proof -
    have o: "push_bit 12 (int a) OR push_bit 8 (int b) OR push_bit 4 (int c) OR int d = int (a * 4096 + b * 256 + c * 16 + d)"
      if "b < 16" "c < 16" "d < 16" for a b c d
      using that by (simp add: or_digits)
    have "?n div 4096 * 4096 + ?n div 256 mod 16 * 256 + ?n div 16 mod 16 * 16 + ?n mod 16 = ?n"
    proof -
      have "?n div 16 div 16 = ?n div 256" "?n div 256 div 16 = ?n div 4096" by (simp_all add: div_mult2_eq [symmetric])
      then show ?thesis
        using div_mult_mod_eq [of ?n 16] div_mult_mod_eq [of "?n div 16" 16] div_mult_mod_eq [of "?n div 256" 16] by linarith
    qed
    then have e: "push_bit 12 (int (?n div 4096)) OR push_bit 8 (int (?n div 256 mod 16)) OR push_bit 4 (int (?n div 16 mod 16)) OR
        int (?n mod 16) = int ?n" using o [OF lt(2-4)] by (simp only:)
    have "hex_escape (?d @ r) = Some (word_of_int (push_bit 12 (hex2decimal (?d ! 0)) OR push_bit 8 (hex2decimal (?d ! 1)) OR
        push_bit 4 (hex2decimal (?d ! 2)) OR hex2decimal (?d ! 3)))" using d(1-4) by (simp add: hex_escape_def)
    also have "\<dots> = Some (word_of_int (int ?n))" unfolding e [symmetric] d(5-8) [symmetric] by simp
    finally show ?thesis by simp
  qed
  moreover have "length ?d = 4" "list_all xdigit ?d" "list_all (\<lambda>c. c \<noteq> 0) ?d" using d by simp_all
  ultimately show ?thesis by (intro that [of ?d])
qed

text \<open>A piece of text that stands for \<open>s\<close> inside a double-quoted string.\<close>

definition quoted :: "cstr \<Rightarrow> cstr \<Rightarrow> bool" where
  "quoted e s \<longleftrightarrow> dq_text e \<and> list_all (\<lambda>c. c \<noteq> 0) e \<and> (\<forall>r. unescape 0x22 (e @ r) = ebind (unescape 0x22 r) (\<lambda>t. Inr (s @ t)))"

declare unescape.simps [simp del]

lemma ebind_id: "ebind r (\<lambda>t. Inr t) = r"
  by (cases r) simp_all

lemma ebind_assoc: "ebind (ebind r f) g = ebind r (\<lambda>x. ebind (f x) g)"
  by (cases r) simp_all

lemma quoted_Nil: "quoted [] []"
  by (simp add: quoted_def ebind_id)

lemma quoted_append: "quoted e s \<Longrightarrow> quoted e' s' \<Longrightarrow> quoted (e @ e') (s @ s')"
  by (simp add: quoted_def dq_append ebind_assoc)

lemma quoted_plain:
  assumes "1 \<le> c" "c \<le> 0xbf" "c \<noteq> 0x5c" "c \<noteq> 0x22"
  shows "quoted [c] [c]"
proof -
  have "c \<noteq> 0" using assms(1) by auto
  then show ?thesis using assms dq_plain [OF assms] by (simp add: quoted_def unescape.simps(2))
qed

lemma quoted_escape:
  assumes "c \<in> {0x62, 0x66, 0x6e, 0x72, 0x74, 0x2f, 0x5c, 0x27, 0x22}" "simple_escape c = Some b"
  shows "quoted [0x5c, c] [b]"
proof -
  have "dq_text [0x5c, c]" by (rule dq_escape [OF assms(1)])
  moreover have "c \<noteq> 0" using assms(1) by auto
  ultimately show ?thesis using assms(2) by (simp add: quoted_def unescape.simps(2))
qed

lemma quoted_unicode:
  fixes w :: u16
  shows "quoted (unicode_escape (ucast w)) (wchar_to_utf8 w)"
proof -
  obtain d where d: "unicode_escape (ucast w) = [0x5c, 0x75] @ d" "length d = 4" "list_all xdigit d" "list_all (\<lambda>c. c \<noteq> 0) d"
    "\<And>r. hex_escape (d @ r) = Some w" using hex_escape_u16 [of w] by blast
  then obtain a b c e where "d = [a, b, c, e]" by (auto simp: length_Suc_conv eval_nat_numeral)
  then have "dq_text (unicode_escape (ucast w))" using d(1,3) dq_unicode [of a b c e] by simp
  moreover have "simple_escape 0x75 = None" by (simp add: simple_escape_def)
  ultimately show ?thesis using d by (simp add: quoted_def unescape.simps(2))
qed

lemma ascii_bit: "(a :: u8) AND 0x80 = 0 \<longleftrightarrow> \<not> bit a 7"
  by (simp add: byte_bits bit_numeral_rec)

lemma ascii_high: "\<not> bit (a :: u8) 7 \<Longrightarrow> 7 \<le> n \<Longrightarrow> \<not> bit a n"
  using bit_imp_le_length [of a n] by (cases "n = 7") auto

lemma ascii_unicode:
  fixes a :: u8
  assumes "\<not> bit a 7" "a \<noteq> 0"
  shows "scast a = (ucast (ucast a :: u16) :: u32)" "wchar_to_utf8 (ucast a) = [a]"
proof -
  show "scast a = (ucast (ucast a :: u16) :: u32)"
  proof (rule bit_word_eqI)
    fix n assume "n < LENGTH(32)"
    moreover have "bit a n \<longleftrightarrow> bit a (min 7 n)" using ascii_high [OF assms(1)] by (auto simp: min_def)
    ultimately show "bit (scast a :: u32) n = bit (ucast (ucast a :: u16) :: u32) n"
      using bit_imp_le_length [of a n] by (auto simp: bit_signed_iff bit_ucast_iff)
  qed
  have "drop_bit 7 (ucast a :: u16) = 0"
    using ascii_high [OF assms(1)] by (simp add: wide_bits)
  moreover have "ucast (ucast a AND 0x7f :: u16) = a"
    using assms(1) by (simp add: byte_bits bit_ucast_iff bit_numeral_rec)
  ultimately show "wchar_to_utf8 (ucast a) = [a]" using assms(2) by (simp add: wchar_to_utf8_def u16_le_mask c_str_def)
qed

lemma quoted_ascii:
  fixes a :: u8
  assumes "\<not> bit a 7" "a \<noteq> 0"
  shows "quoted (escape_char a) [a]"
proof -
  have e: "quoted [0x5c, 0x22] [0x22]" "quoted [0x5c, 0x5c] [0x5c]" "quoted [0x5c, 0x62] [0x08]" "quoted [0x5c, 0x66] [0x0c]"
    "quoted [0x5c, 0x6e] [0x0a]" "quoted [0x5c, 0x72] [0x0d]" "quoted [0x5c, 0x74] [0x09]"
    by (rule quoted_escape; simp add: simple_escape_def)+
  have "quoted [a] [a]" if "a \<noteq> 0x5c" "a \<noteq> 0x22"
  proof (rule quoted_plain [OF _ _ that])
    show "1 \<le> a" using assms(2) by (simp add: word_le_nat_alt unat_eq_0 Suc_leI unat_gt_0)
    have "drop_bit 7 a = 0" using ascii_high [OF assms(1)] by (simp add: byte_bits bit_drop_bit_eq)
    then have "drop_bit 7 (unat a) = 0" unfolding unat_drop_bit_eq [symmetric] by simp
    then have "unat a div 128 = 0" by (simp add: drop_bit_eq_div)
    then show "a \<le> 0xbf" by (simp add: word_le_nat_alt div_eq_0_iff)
  qed
  moreover have "quoted (unicode_escape (scast a)) [a]"
    using quoted_unicode [of "ucast a"] ascii_unicode [OF assms] by simp
  ultimately show ?thesis
    unfolding escape_char_def by (simp add: e)
qed

lemma continuation:
  assumes "byte_at r i AND 0xc0 = 0x80"
  shows "i < length r" "byte_at r i AND 0x80 \<noteq> 0"
proof -
  show "i < length r" using assms by (cases "i < length r") (simp_all add: byte_at_def)
  show "byte_at r i AND 0x80 \<noteq> 0" using assms by (simp add: ascii_bit) (simp add: byte_bits bit_numeral_rec)
qed

lemma lead_bytes:
  fixes a :: u8
  shows "a AND 0x80 = 0 \<Longrightarrow> a AND 0xe0 \<noteq> 0xe0 \<and> a AND 0xe0 \<noteq> 0xc0" "a AND 0xf0 = 0xe0 \<Longrightarrow> a AND 0xe0 = 0xe0"
  by (simp_all add: byte_bits bit_numeral_rec)

lemma quoted_escape_str: "bmp_utf8 s \<Longrightarrow> quoted (escape_str s) s"
proof (induction s rule: bmp_utf8.induct)
  case 1
  then show ?case by (simp add: quoted_Nil)
next
  case (2 a r)
  consider (one) "a AND 0x80 = 0" | (two) "a AND 0x80 \<noteq> 0" "a AND 0xe0 = 0xc0" | (three) "a AND 0x80 \<noteq> 0" "a AND 0xe0 \<noteq> 0xc0" by blast
  then show ?case
  proof cases
    case one
    then have "quoted (escape_char a @ escape_str r) ([a] @ r)"
      using 2 by (intro quoted_append quoted_ascii) (simp_all add: ascii_bit)
    then show ?thesis using lead_bytes(1) [OF one] by simp
  next
    case two
    then have p: "a AND 0x1e \<noteq> 0" "byte_at r 0 AND 0xc0 = 0x80" "bmp_utf8 (drop 1 r)" using "2.prems" by simp_all
    then obtain b r' where r: "r = b # r'" using continuation(1) [of r 0] by (cases r) auto
    let ?w = "push_bit 6 (ucast (a AND 0x1f)) OR ucast (b AND 0x3f) :: u16"
    have b: "b AND 0xc0 = 0x80" using p(2) by (simp add: r byte_at_def)
    have "quoted (unicode_escape (ucast ?w) @ escape_str r') (wchar_to_utf8 ?w @ r')"
      using "2.IH"(2) [OF two p(3)] by (intro quoted_append quoted_unicode) (simp add: r)
    then show ?thesis
      using two continuation(2) [OF p(2)] two_bytes [OF two(2) p(1) b] by (simp add: r byte_at_def)
  next
    case three
    then have p: "a AND 0xf0 = 0xe0" "byte_at r 0 AND 0xc0 = 0x80" "byte_at r 1 AND 0xc0 = 0x80" "a AND 0x0f \<noteq> 0 \<or> byte_at r 0 AND 0x20 \<noteq> 0"
      "bmp_utf8 (drop 2 r)" using "2.prems" by simp_all
    obtain b r1 where r1: "r = b # r1" using continuation(1) [OF p(2)] by (cases r) auto
    moreover obtain c r' where "r1 = c # r'" using continuation(1) [OF p(3)] r1 by (cases r1) auto
    ultimately have r: "r = b # c # r'" by simp
    let ?w = "push_bit 12 (ucast (a AND 0x0f)) OR push_bit 6 (ucast (b AND 0x3f)) OR ucast (c AND 0x3f) :: u16"
    have b: "b AND 0xc0 = 0x80" "c AND 0xc0 = 0x80" "a AND 0x0f \<noteq> 0 \<or> b AND 0x20 \<noteq> 0" using p(2-4) by (simp_all add: r byte_at_def)
    have "quoted (unicode_escape (ucast ?w) @ escape_str r') (wchar_to_utf8 ?w @ r')"
      using "2.IH"(3) [OF three p(5)] by (intro quoted_append quoted_unicode) (simp add: r)
    then show ?thesis
      using lead_bytes(2) [OF p(1)] continuation(2) [OF p(2)] continuation(2) [OF p(3)] three_bytes [OF p(1) b] by (simp add: r byte_at_def)
  qed
qed

lemma c_str_id: "list_all (\<lambda>c. c \<noteq> 0) s \<Longrightarrow> c_str s = s"
  by (simp add: c_str_def list_all_iff takeWhile_eq_all_conv)

lemma string_token:
  assumes "bmp_utf8 (c_str s)"
  shows "reads False True (json_string s) [(JSON_STRING, json_string s)]" "list_all (\<lambda>c. c \<noteq> 0) (json_string s)"
    "tvalue t = json_string s \<Longrightarrow> qstring_from_escaped_str t = Inr (c_str s)"
proof -
  note q = quoted_escape_str [OF assms, unfolded quoted_def]
  show "reads False True (json_string s) [(JSON_STRING, json_string s)]"
    unfolding json_string_def using reads_string q by simp
  show z: "list_all (\<lambda>c. c \<noteq> 0) (json_string s)" unfolding json_string_def using q by simp
  show "qstring_from_escaped_str t = Inr (c_str s)" if "tvalue t = json_string s"
    using q c_str_id [OF z] that by (simp add: qstring_from_escaped_str_def token_get_value_def json_string_def unescape.simps(2))
qed

section \<open>Numbers\<close>

definition dec_value :: "u8 list \<Rightarrow> int" where
  "dec_value s = foldl (\<lambda>a d. a * 10 + (uint d - 48)) 0 s"

lemma dec_digit:
  assumes "n < 10"
  shows "digit (of_nat (48 + n))" "uint (of_nat (48 + n) :: u8) = 48 + int n"
proof -
  have "unat (of_nat (48 + n) :: u8) = 48 + n" using assms by (simp only: unat_of_nat) simp
  then show "digit (of_nat (48 + n))" "uint (of_nat (48 + n) :: u8) = 48 + int n"
    using assms by (simp_all only: digit_def word_le_nat_alt uint_nat) simp_all
qed

lemma dec_nat_ok: "list_all digit (dec_nat n) \<and> dec_nat n \<noteq> [] \<and> dec_value (dec_nat n) = int n \<and> (n \<noteq> 0 \<longrightarrow> hd (dec_nat n) \<noteq> 0x30)"
proof (induction n rule: dec_nat.induct)
  case (1 n)
  show ?case
  proof (cases "n < 10")
    case True
    have "n \<noteq> 0 \<Longrightarrow> (of_nat (48 + n) :: u8) \<noteq> 0x30" using dec_digit(2) [OF True] by auto
    then show ?thesis using dec_digit [OF True] True by (simp del: of_nat_add add: dec_nat.simps [of n] dec_value_def)
  next
    case False
    then have "dec_nat n = dec_nat (n div 10) @ [of_nat (48 + n mod 10)]" by (subst dec_nat.simps) (simp only: if_False)
    moreover have "n div 10 \<noteq> 0" using False by (simp add: div_eq_0_iff)
    ultimately show ?thesis using 1 [OF False] dec_digit [of "n mod 10"]
      by (simp del: of_nat_add add: dec_value_def zdiv_int zmod_int)
  qed
qed

lemma digit_not: "digit c \<Longrightarrow> c \<noteq> 0 \<and> \<not> isspace c \<and> c \<noteq> 0x2d \<and> c \<noteq> 0x2b"
  using digit_enum [of c] unfolding digit_def by (elim conjE) (auto simp: isspace_def)

lemma strtoll_digits:
  assumes "list_all digit s" "s \<noteq> []"
  shows "strtoll s = word_of_int (min (2 ^ 63 - 1) (max (- (2 ^ 63)) (dec_value s)))"
    "strtoll (0x2d # s) = word_of_int (min (2 ^ 63 - 1) (max (- (2 ^ 63)) (- dec_value s)))"
proof -
  obtain c r where c: "s = c # r" using assms(2) by (cases s) auto
  then have d: "digit c" using assms(1) by simp
  have "takeWhile digit s = s" using assms(1) by (simp add: takeWhile_eq_all_conv list_all_iff)
  moreover have "\<not> isspace 0x2d" by (simp add: isspace_def)
  then have "dropWhile isspace s = s" "dropWhile isspace (0x2d # s) = 0x2d # s" using digit_not [OF d] c by simp_all
  ultimately show "strtoll s = word_of_int (min (2 ^ 63 - 1) (max (- (2 ^ 63)) (dec_value s)))"
    "strtoll (0x2d # s) = word_of_int (min (2 ^ 63 - 1) (max (- (2 ^ 63)) (- dec_value s)))"
    using digit_not [OF d] c by (auto simp: strtoll_def Let_def dec_value_def min_def max_def)
qed

lemma int_token:
  shows "reads False False (json_int v) [(JSON_INTEGER, json_int v)]" "list_all (\<lambda>c. c \<noteq> 0) (json_int v)" "strtoll (json_int v) = v"
proof -
  have v: "- (2 ^ 63) \<le> sint v" "sint v \<le> 2 ^ 63 - 1" using sint_greater_eq [of v] sint_less [of v] by simp_all
  define s where "s = dec_nat (nat \<bar>sint v\<bar>)"
  have d: "list_all digit s" "s \<noteq> []" "dec_value s = \<bar>sint v\<bar>" "sint v \<noteq> 0 \<Longrightarrow> hd s \<noteq> 0x30"
    using dec_nat_ok [of "nat \<bar>sint v\<bar>"] by (simp_all add: s_def)
  have j: "json_int v = (if sint v < 0 then 0x2d # s else s)" by (simp add: json_int_def s_def)
  have "s = [0x30]" if "sint v = 0" by (simp add: s_def that dec_nat.simps)
  then have n: "s = [0x30] \<or> s \<noteq> [] \<and> list_all digit s \<and> hd s \<noteq> 0x30" using d by blast
  show "reads False False (json_int v) [(JSON_INTEGER, json_int v)]" unfolding j using reads_number [OF n] by simp
  show "list_all (\<lambda>c. c \<noteq> 0) (json_int v)" unfolding j using d(1) digit_not by (auto simp: list_all_iff)
  have m: "min (2 ^ 63 - 1) (max (- (2 ^ 63)) (sint v)) = sint v" using v by linarith
  show "strtoll (json_int v) = v"
  proof (cases "sint v < 0")
    case True
    then have "- dec_value s = sint v" by (simp add: d(3))
    with True show ?thesis unfolding j by (simp only: m if_True strtoll_digits [OF d(1,2)]) simp
  next
    case False
    then have "dec_value s = sint v" by (simp add: d(3))
    with False show ?thesis unfolding j by (simp only: m if_False strtoll_digits [OF d(1,2)]) simp
  qed
qed

section \<open>The tokens of a value\<close>

abbreviation op_token :: "u8 \<Rightarrow> lex_code \<times> u8 list" where "op_token c \<equiv> (JSON_OPERATOR, [c])"

definition separated :: "(lex_code \<times> u8 list) list list \<Rightarrow> (lex_code \<times> u8 list) list" where
  "separated T = (case T of [] \<Rightarrow> [] | x # xs \<Rightarrow> x @ concat (map (\<lambda>i. op_token 0x2c # i) xs))"

fun toks :: "'d jvalue \<Rightarrow> (lex_code \<times> u8 list) list" where
  "toks (JInt v) = [(JSON_INTEGER, json_int v)]"
| "toks (JStr s) = [(JSON_STRING, json_string s)]"
| "toks (JDict d) = op_token 0x7b # separated (map (\<lambda>(k, v). (JSON_STRING, json_string k) # op_token 0x3a # toks v) d) @ [op_token 0x7d]"
| "toks (JList l) = op_token 0x5b # separated (map toks l) @ [op_token 0x5d]"
| "toks (JBool b) = [(JSON_KEYWORD, if b \<noteq> 0 then [0x74, 0x72, 0x75, 0x65] else [0x66, 0x61, 0x6c, 0x73, 0x65])]"
| "toks (JFloat x) = []"
| "toks JErr = []"

text \<open>The values that can be printed and read back, and how deep they are nested.\<close>

fun json_ok :: "'d jvalue \<Rightarrow> bool" where
  "json_ok (JInt v) \<longleftrightarrow> True"
| "json_ok (JStr s) \<longleftrightarrow> bmp_utf8 (c_str s)"
| "json_ok (JDict d) \<longleftrightarrow> distinct (map fst d) \<and> (\<forall>(k, v)\<in>set d. c_str k = k \<and> bmp_utf8 k \<and> json_ok v)"
| "json_ok (JList l) \<longleftrightarrow> (\<forall>v\<in>set l. json_ok v)"
| "json_ok (JBool b) \<longleftrightarrow> True"
| "json_ok (JFloat x) \<longleftrightarrow> False"
| "json_ok JErr \<longleftrightarrow> False"

fun height :: "'d jvalue \<Rightarrow> nat" where
  "height (JList l) = 1 + foldr max (map height l) 0"
| "height (JDict d) = 1 + foldr max (map (\<lambda>(k, v). height v) d) 0"
| "height _ = 0"

lemma json_ok_entry:
  assumes "json_ok (JDict d)" "(k, v) \<in> set d"
  shows "c_str k = k" "bmp_utf8 (c_str k)" "json_ok v"
  using assms by auto

lemma reads_mono: "reads a b s T \<Longrightarrow> (a' \<Longrightarrow> a) \<Longrightarrow> (b' \<Longrightarrow> b) \<Longrightarrow> reads a' b' s T"
  unfolding reads_def by blast

lemma reads_empty: "reads True False [] []"
  by (simp add: reads_def)

lemma reads_newline: "reads False True (json_newline pretty n) []" "reads True False (json_newline pretty n) []"
proof -
  have "list_all (\<lambda>c. c = 0x20 \<or> c = 0x0a) (json_newline True n)"
    by (auto simp: json_newline_def list_all_iff)
  then have "reads True True (json_newline True n) []" by (intro reads_spaces) (simp_all add: json_newline_def)
  then show "reads False True (json_newline pretty n) []" "reads True False (json_newline pretty n) []"
    by (cases pretty; auto intro: reads_mono simp: json_newline_def reads_Nil reads_empty)+
qed

lemma reads_tail: "\<forall>(s, T)\<in>set l. reads False False s T \<Longrightarrow>
    reads True False (concat (map (\<lambda>(s, T). [0x2c, 0x20] @ s) l)) (concat (map (\<lambda>(s, T). op_token 0x2c # T) l))"
proof (induction l)
  case (Cons a l)
  obtain s T where a: "a = (s, T)" by (cases a)
  have "reads True False (([0x2c] @ [0x20] @ s) @ concat (map (\<lambda>(s, T). [0x2c, 0x20] @ s) l))
      (([op_token 0x2c] @ [] @ T) @ concat (map (\<lambda>(s, T). op_token 0x2c # T) l))"
    using Cons a by (intro reads_append [where a' = True] reads_append [where a' = True and b = True] reads_append [where a' = False and b = True]
        reads_op reads_spaces) (auto simp: op_byte_def)
  then show ?case by (simp add: a)
qed (simp add: reads_empty)

lemma reads_join:
  assumes "\<forall>(s, T)\<in>set l. reads False False s T"
  shows "reads False False (json_join (map fst l)) (separated (map snd l))"
proof (cases l)
  case (Cons a l')
  then have "reads False False (fst a @ concat (map (\<lambda>(s, T). [0x2c, 0x20] @ s) l')) (snd a @ concat (map (\<lambda>(s, T). op_token 0x2c # T) l'))"
    using assms reads_tail [of l'] by (intro reads_append [where a' = True]) auto
  then show ?thesis by (simp add: Cons json_join_def separated_def comp_def case_prod_unfold)
qed (simp add: json_join_def separated_def reads_mono [OF reads_empty])

lemma reads_brackets:
  assumes "reads False False s T" "op_byte a" "op_byte b"
  shows "reads False False ([a] @ s @ json_newline pretty n @ [b]) ([op_token a] @ T @ [] @ [op_token b])"
  by (rule reads_mono [where a = True and b = True],
      intro reads_append [where a' = False and b = True] reads_append [where a' = True and b = False] reads_op assms reads_newline(2))
    simp_all

lemma reads_value: "json_ok v \<Longrightarrow> reads False False (to_json fmt pretty n v) (toks v)"
proof (induction v arbitrary: n)
  case (JInt v)
  show ?case by (simp add: int_token)
next
  case (JBool b)
  show ?case by (simp add: reads_keyword)
next
  case (JStr s)
  then show ?case using string_token(1) [of s] by (simp add: reads_mono)
next
  case (JList l)
  let ?l = "map (\<lambda>v. (json_newline pretty (n + 1) @ to_json fmt pretty (n + 1) v, [] @ toks v)) l"
  have "reads False False (json_newline pretty (n + 1) @ to_json fmt pretty (n + 1) v) ([] @ toks v)" if "v \<in> set l" for v
    using JList that by (intro reads_append [OF reads_newline(1)]) auto
  then have "reads False False (json_join (map fst ?l)) (separated (map snd ?l))" by (intro reads_join) auto
  from reads_brackets [OF this, of "0x5b" "0x5d" pretty n] show ?case by (simp add: op_byte_def comp_def)
next
  case (JDict d)
  let ?t = "\<lambda>(k, v). json_newline pretty (n + 1) @ json_string k @ [0x3a] @ [0x20] @ to_json fmt pretty (n + 1) v"
  let ?T = "\<lambda>(k, v). [] @ [(JSON_STRING, json_string k)] @ [op_token 0x3a] @ [] @ toks v"
  let ?l = "map (\<lambda>e. (?t e, ?T e)) d"
  have "reads False False (?t (k, v)) (?T (k, v))" if "(k, v) \<in> set d" for k v
  proof -
    note e = json_ok_entry [OF JDict.prems that]
    then have v: "reads False False (to_json fmt pretty (n + 1) v) (toks v)" and k: "reads False True (json_string k) [(JSON_STRING, json_string k)]"
      using JDict.IH [OF that] string_token(1) by auto
    have "reads True True [0x3a] [op_token 0x3a]" "reads True True [0x20] []" by (simp_all add: reads_op op_byte_def reads_spaces)
    from reads_append [OF this(1) reads_append [OF this(2) v]]
    have "reads True False ([0x3a] @ [0x20] @ to_json fmt pretty (n + 1) v) ([op_token 0x3a] @ [] @ toks v)" by blast
    from reads_append [OF reads_newline(1) reads_append [OF k this]] show ?thesis unfolding prod.case by blast
  qed
  then have "reads False False (json_join (map fst ?l)) (separated (map snd ?l))" by (intro reads_join) auto
  from reads_brackets [OF this, of "0x7b" "0x7d" pretty n] show ?case by (simp add: op_byte_def comp_def case_prod_unfold)
qed simp_all

lemma text_value: "json_ok v \<Longrightarrow> list_all (\<lambda>c. c \<noteq> 0) (to_json fmt pretty n v)"
proof (induction v arbitrary: n)
  case (JList l)
  then show ?case by (fastforce simp: json_join_def json_newline_def list_all_iff split: list.split)
next
  case (JDict d)
  have k: "c \<noteq> 0" if "(k, v) \<in> set d" "c \<in> set (json_string k)" for k v c
    using string_token(2) [OF json_ok_entry(2) [OF JDict.prems that(1)]] that(2) by (auto simp: list_all_iff)
  have v: "c \<noteq> 0" if "(k, v) \<in> set d" "c \<in> set (to_json fmt pretty (n + 1) v)" for k v c
    using JDict.IH [OF that(1) _ json_ok_entry(3) [OF JDict.prems that(1)], of "n + 1"] that(2) by (auto simp: list_all_iff)
  show ?case using k v by (fastforce simp: json_join_def json_newline_def list_all_iff split: list.split)
qed (simp_all add: int_token string_token)

section \<open>One message\<close>

definition keys_size :: "(lex_code \<times> u8 list) list \<Rightarrow> nat" where
  "keys_size T = sum_list (map (\<lambda>t. length (snd t)) T)"

lemma keys_size_simps [simp]:
  "keys_size [] = 0" "keys_size (t # T) = length (snd t) + keys_size T" "keys_size (T @ T') = keys_size T + keys_size T'"
  by (simp_all add: keys_size_def)

lemma keys_append:
  assumes "map tkey ts = A @ B"
  obtains u u' where "ts = u @ u'" "map tkey u = A" "map tkey u' = B"
  using assms unfolding map_eq_append_conv by blast

lemma keys_Cons:
  assumes "map tkey ts = a # B"
  obtains t u where "ts = t # u" "tkey t = a" "map tkey u = B"
  using assms unfolding map_eq_Cons_conv by blast

definition collect :: "JSONToken list \<Rightarrow> JSONMessageParser \<Rightarrow> JSONMessageParser" where
  "collect ts p = p\<lparr>mtokens := mtokens p @ ts, token_size := token_size p + keys_size (map tkey ts)\<rparr>"

text \<open>
  \<open>calm b k T\<close>: within \<open>b\<close> braces and \<open>k\<close> brackets the tokens \<open>T\<close> are collected, no message ends,
  and the braces and brackets are as many afterwards.
\<close>

definition calm :: "int \<Rightarrow> int \<Rightarrow> (lex_code \<times> u8 list) list \<Rightarrow> bool" where
  "calm b k T \<longleftrightarrow> (\<forall>p ts. brace_count p = b \<and> bracket_count p = k \<and> map tkey ts = T \<and> token_size p + keys_size T \<le> MAX_TOKEN_SIZE \<longrightarrow>
     process_tokens p ts = ([], collect ts p))"

lemma calmD: "calm b k (map tkey ts) \<Longrightarrow> brace_count p = b \<Longrightarrow> bracket_count p = k \<Longrightarrow>
    token_size p + keys_size (map tkey ts) \<le> MAX_TOKEN_SIZE \<Longrightarrow> process_tokens p ts = ([], collect ts p)"
  unfolding calm_def by blast

lemma collect_collect: "collect ts' (collect ts p) = collect (ts @ ts') p"
  by (simp add: collect_def)

lemma calm_Nil: "calm b k []"
  by (simp add: calm_def collect_def)

lemma calm_append:
  assumes "calm b k T" "calm b k T'"
  shows "calm b k (T @ T')"
  unfolding calm_def
proof (intro allI impI)
  fix p :: JSONMessageParser and ts
  assume a: "brace_count p = b \<and> bracket_count p = k \<and> map tkey ts = T @ T' \<and> token_size p + keys_size (T @ T') \<le> MAX_TOKEN_SIZE"
  then obtain u u' where u: "ts = u @ u'" "map tkey u = T" "map tkey u' = T'"
    unfolding map_eq_append_conv by blast
  have "process_tokens p u = ([], collect u p)"
    using assms(1) a u by (intro calmD [of b k]) simp_all
  moreover have "process_tokens (collect u p) u' = ([], collect u' (collect u p))"
    using assms(2) a u by (intro calmD [of b k]) (simp_all add: collect_def)
  ultimately show "process_tokens p ts = ([], collect ts p)" by (simp add: u(1) process_append collect_collect)
qed

text \<open>The braces and brackets after a token.\<close>

definition key_counts :: "lex_code \<times> u8 list \<Rightarrow> int \<times> int" where
  "key_counts t =
     (if t = op_token 0x7b then (1, 0) else if t = op_token 0x7d then (-1, 0)
      else if t = op_token 0x5b then (0, 1) else if t = op_token 0x5d then (0, -1) else (0, 0))"

definition simple_key :: "lex_code \<times> u8 list \<Rightarrow> bool" where
  "simple_key t \<longleftrightarrow> fst t \<noteq> JSON_ERROR \<and> (fst t = JSON_OPERATOR \<longrightarrow> length (snd t) = 1)"

lemma process_simple:
  assumes "simple_key (tkey t)" "brace_count p + fst (key_counts (tkey t)) = b" "bracket_count p + snd (key_counts (tkey t)) = k"
    and "0 \<le> b" "b \<le> MAX_NESTING" "0 \<le> k" "k \<le> MAX_NESTING" "token_size p + length (tvalue t) \<le> MAX_TOKEN_SIZE"
  shows "json_message_process_token p t =
    (if b = 0 \<and> k = 0 then ([Some (mtokens p @ [t])], p\<lparr>brace_count := 0, bracket_count := 0, mtokens := [], token_size := 0\<rparr>)
     else ([], (collect [t] p)\<lparr>brace_count := b, bracket_count := k\<rparr>))"
proof -
  have "count_token t p = p\<lparr>brace_count := b, bracket_count := k\<rparr>"
    using assms(1-3) by (auto simp: count_token_def key_counts_def simple_key_def length_Suc_conv split: if_splits)
  then show ?thesis
    using assms by (simp add: json_message_process_token_def Let_def simple_key_def collect_def ac_simps)
qed

lemma calm_token:
  assumes "simple_key t" "key_counts t = (0, 0)" "0 \<le> b" "0 \<le> k" "0 < b + k" "b \<le> MAX_NESTING" "k \<le> MAX_NESTING"
  shows "calm b k [t]"
  unfolding calm_def
proof (intro allI impI)
  fix p :: JSONMessageParser and ts
  assume a: "brace_count p = b \<and> bracket_count p = k \<and> map tkey ts = [t] \<and> token_size p + keys_size [t] \<le> MAX_TOKEN_SIZE"
  then obtain u where u: "ts = [u]" "tkey u = t" by auto
  have "json_message_process_token p u = ([], (collect [u] p)\<lparr>brace_count := b, bracket_count := k\<rparr>)"
    using process_simple [of u p b k] assms a by (simp add: u(2)) (use u(2) in auto)
  then show "process_tokens p ts = ([], collect ts p)" using a by (cases p) (auto simp: u(1) collect_def)
qed

lemma calm_nested:
  assumes "simple_key o1" "simple_key o2" "key_counts o1 = (db, dk)" "key_counts o2 = (- db, - dk)" "calm (b + db) (k + dk) T"
    and "0 \<le> b" "0 \<le> k" "0 < b + k" "0 \<le> db" "0 \<le> dk" "b + db \<le> MAX_NESTING" "k + dk \<le> MAX_NESTING"
  shows "calm b k (o1 # T @ [o2])"
  unfolding calm_def
proof (intro allI impI)
  fix p :: JSONMessageParser and ts
  assume a: "brace_count p = b \<and> bracket_count p = k \<and> map tkey ts = o1 # T @ [o2] \<and> token_size p + keys_size (o1 # T @ [o2]) \<le> MAX_TOKEN_SIZE"
  then obtain t r where r: "ts = t # r" "tkey t = o1" "map tkey r = T @ [o2]" by (auto simp: Cons_eq_map_conv)
  then obtain us u where u: "r = us @ [u]" "map tkey us = T" "tkey u = o2" unfolding map_eq_append_conv by auto
  let ?p1 = "(collect [t] p)\<lparr>brace_count := b + db, bracket_count := k + dk\<rparr>"
  have s: "length (tvalue t) = length (snd o1)" "length (tvalue u) = length (snd o2)" using r(2) u(3) by auto
  have 1: "json_message_process_token p t = ([], ?p1)"
    using process_simple [of t p "b + db" "k + dk"] assms a s by (simp add: r(2))
  have 2: "process_tokens ?p1 us = ([], collect us ?p1)"
    using assms(5) a s u(2) r(2) by (intro calmD [of "b + db" "k + dk"]) (simp_all add: collect_def)
  have 3: "json_message_process_token (collect us ?p1) u = ([], (collect [u] (collect us ?p1))\<lparr>brace_count := b, bracket_count := k\<rparr>)"
    using process_simple [of u "collect us ?p1" b k] assms a s by (simp add: u(2,3) r(2) collect_def)
  show "process_tokens p ts = ([], collect ts p)" using a
    by (simp add: r(1) u(1) 1 2 3 process_append) (cases p; simp add: collect_def)
qed

lemma calm_separated:
  assumes "\<forall>T\<in>set Ts. calm b k T" "calm b k [op_token 0x2c]"
  shows "calm b k (separated Ts)"
proof -
  have "calm b k (concat (map (\<lambda>i. op_token 0x2c # i) Us))" if "\<forall>T\<in>set Us. calm b k T" for Us
    using that
  proof (induction Us)
    case (Cons T Us)
    then have "calm b k ([op_token 0x2c] @ T @ concat (map (\<lambda>i. op_token 0x2c # i) Us))" using assms(2) by (intro calm_append) auto
    then show ?case by simp
  qed (simp add: calm_Nil)
  with assms(1) show ?thesis by (cases Ts) (auto simp: separated_def calm_Nil intro!: calm_append)
qed

lemma foldr_max: "x \<in> set xs \<Longrightarrow> (x :: nat) \<le> foldr max xs 0"
  by (induction xs) auto

lemma separated_value_calm:
  assumes "\<And>T. T \<in> set Ts \<Longrightarrow> calm b k T" "0 \<le> b" "0 \<le> k" "0 < b + k" "b \<le> MAX_NESTING" "k \<le> MAX_NESTING"
  shows "calm b k (separated Ts)"
  using assms by (intro calm_separated calm_token) (simp_all add: simple_key_def key_counts_def)

text \<open>The tokens between the braces or the brackets, within one more of them.\<close>

fun inner :: "'d jvalue \<Rightarrow> (lex_code \<times> u8 list) list" where
  "inner (JDict d) = separated (map (\<lambda>(k, v). (JSON_STRING, json_string k) # op_token 0x3a # toks v) d)"
| "inner (JList l) = separated (map toks l)"
| "inner v = []"

lemma calm_value:
  "json_ok v \<Longrightarrow> 0 \<le> b \<Longrightarrow> 0 \<le> k \<Longrightarrow> b + int (height v) \<le> MAX_NESTING \<Longrightarrow> k + int (height v) \<le> MAX_NESTING \<Longrightarrow>
     (0 < b + k \<longrightarrow> calm b k (toks v)) \<and> (\<forall>l. v = JList l \<longrightarrow> calm b (k + 1) (inner v)) \<and> (\<forall>d. v = JDict d \<longrightarrow> calm (b + 1) k (inner v))"
proof (induction v arbitrary: b k)
  case (JList l)
  have h: "int (height v) \<le> int (height (JList l)) - 1" if "v \<in> set l" for v
    using foldr_max [of "height v" "map height l"] that by simp
  have "calm b (k + 1) (toks v)" if "v \<in> set l" for v
    using JList.IH [OF that, of b "k + 1"] JList.prems h [OF that] that by auto
  then have i: "calm b (k + 1) (inner (JList l))"
    using JList.prems unfolding inner.simps by (intro separated_value_calm) auto
  moreover have "calm b k (op_token 0x5b # inner (JList l) @ [op_token 0x5d])" if "0 < b + k"
    using JList.prems i that by (intro calm_nested [where db = 0 and dk = 1]) (simp_all add: simple_key_def key_counts_def)
  ultimately show ?case by simp
next
  case (JDict d)
  have h: "int (height v) \<le> int (height (JDict d)) - 1" if "(k', v) \<in> set d" for k' v
    using foldr_max [of "height v" "map (\<lambda>(k, v). height v) d"] that by force
  have "calm (b + 1) k ([(JSON_STRING, json_string k')] @ [op_token 0x3a] @ toks v)" if "(k', v) \<in> set d" for k' v
    using JDict.IH [OF that _ json_ok_entry(3) [OF JDict.prems(1) that], of "b + 1" k] JDict.prems h [OF that]
    by (intro calm_append calm_token) (simp_all add: simple_key_def key_counts_def)
  then have i: "calm (b + 1) k (inner (JDict d))"
    using JDict.prems unfolding inner.simps by (intro separated_value_calm) auto
  moreover have "calm b k (op_token 0x7b # inner (JDict d) @ [op_token 0x7d])" if "0 < b + k"
    using JDict.prems i that by (intro calm_nested [where db = 1 and dk = 0]) (simp_all add: simple_key_def key_counts_def)
  ultimately show ?case by simp
qed (auto intro!: calm_token simp: simple_key_def key_counts_def)

lemma message_nested:
  assumes "simple_key o1" "simple_key o2" "key_counts o1 = (db, dk)" "key_counts o2 = (- db, - dk)" "calm db dk T"
    and "0 < db + dk" "0 \<le> db" "0 \<le> dk" "db \<le> 1" "dk \<le> 1" "map tkey ts = o1 # T @ [o2]" "keys_size (map tkey ts) \<le> MAX_TOKEN_SIZE"
  shows "fst (process_tokens json_message_parser_init ts) = [Some ts]"
proof -
  let ?p = json_message_parser_init
  obtain t r where r: "ts = t # r" "tkey t = o1" "map tkey r = T @ [o2]" using assms(11) by (auto simp: Cons_eq_map_conv)
  then obtain us u where u: "r = us @ [u]" "map tkey us = T" "tkey u = o2" unfolding map_eq_append_conv by auto
  let ?p1 = "(collect [t] ?p)\<lparr>brace_count := db, bracket_count := dk\<rparr>"
  have s: "length (tvalue t) = length (snd o1)" "length (tvalue u) = length (snd o2)" using r(2) u(3) by auto
  have z: "length (snd o1) + keys_size T + length (snd o2) \<le> MAX_TOKEN_SIZE" using assms(12) unfolding assms(11) by simp
  have n: "db \<le> MAX_NESTING" "dk \<le> MAX_NESTING" using assms(9,10) by (simp_all add: MAX_NESTING_def)
  have 1: "json_message_process_token ?p t = ([], ?p1)"
    using process_simple [of t ?p db dk] assms(1-10) n z s by (simp add: r(2) json_message_parser_init_def)
  have 2: "process_tokens ?p1 us = ([], collect us ?p1)"
    using assms(5) z s u(2) r(2) by (intro calmD [of db dk]) (simp_all add: collect_def json_message_parser_init_def)
  have 3: "fst (json_message_process_token (collect us ?p1) u) = [Some ([t] @ us @ [u])]"
    using process_simple [of u "collect us ?p1" 0 0] assms z s
    by (simp add: u(2,3) r(2) collect_def json_message_parser_init_def MAX_NESTING_def)
  show ?thesis using 3 by (simp add: r(1) u(1) 1 2 process_append split_beta)
qed

lemma message_token:
  assumes "simple_key t" "key_counts t = (0, 0)" "map tkey ts = [t]" "keys_size [t] \<le> MAX_TOKEN_SIZE"
  shows "fst (process_tokens json_message_parser_init ts) = [Some ts]"
proof -
  obtain u where u: "ts = [u]" "tkey u = t" using assms(3) by auto
  then have "length (tvalue u) = length (snd t)" by auto
  then show ?thesis
    using process_simple [of u json_message_parser_init 0 0] assms u by (simp add: json_message_parser_init_def MAX_NESTING_def)
qed

lemma one_message:
  assumes "json_ok v" "height v \<le> 1024" "map tkey ts = toks v" "keys_size (toks v) \<le> MAX_TOKEN_SIZE"
  shows "fst (process_tokens json_message_parser_init ts) = [Some ts]"
proof (cases v)
  case (JList l)
  have "calm 0 1 (inner v)" using calm_value [OF assms(1), of 0 0] assms(2) JList by (simp add: MAX_NESTING_def)
  then show ?thesis
    using assms(3,4) JList by (intro message_nested [where db = 0 and dk = 1 and T = "inner v"]) (simp_all add: simple_key_def key_counts_def)
next
  case (JDict d)
  have "calm 1 0 (inner v)" using calm_value [OF assms(1), of 0 0] assms(2) JDict by (simp add: MAX_NESTING_def)
  then show ?thesis
    using assms(3,4) JDict by (intro message_nested [where db = 1 and dk = 0 and T = "inner v"]) (simp_all add: simple_key_def key_counts_def)
qed (use assms message_token [of "hd (toks v)" ts] in \<open>simp_all add: simple_key_def key_counts_def\<close>)

text \<open>The end of the input completes an unfinished token.\<close>

lemma flush_unfinished:
  assumes "between (lcore l)"
  shows "map tkey (fst (json_lexer_flush l)) = unfinished (lcore l)"
proof -
  have f: "map tkey (fst (json_lexer_feed_char l 0 True)) = (if json_lexer (lstate l) 0 = JSON_SKIP then [] else [(json_lexer (lstate l) 0, ltoken l)])"
    if "json_lexer (lstate l) 0 \<noteq> IN_ERROR"
  proof -
    let ?l = "l\<lparr>lx := lx l + 1\<rparr>"
    have "feed_char_loop ?l 0 True = (if json_lexer (lstate l) 0 = JSON_SKIP then [] else [lexer_emit ?l (json_lexer (lstate l) 0)], lexer_reset ?l)"
      using loop_look(2) [of ?l 0] that by simp
    then show ?thesis by (simp add: json_lexer_feed_char_def lexer_emit_def lexer_reset_def MAX_TOKEN_SIZE_def)
  qed
  show ?thesis
    using assms f by (cases rule: between_cases) (auto simp: json_lexer_flush_def json_lexer_0 unfinished_def)
qed

lemma read_tokens:
  assumes "reads False b s T" "length s \<le> MAX_TOKEN_SIZE"
  shows "\<exists>ts. map tkey ts = T \<and> (\<exists>ms p ms' p'. json_message_parser_feed json_message_parser_init s = (ms, p) \<and>
    json_message_parser_flush p = (ms', p') \<and> ms @ ms' = fst (process_tokens json_message_parser_init ts))"
proof -
  obtain es l where f: "json_lexer_feed json_lexer_init s = (es, l)" by (rule prod.exhaust)
  obtain es' l' where f': "json_lexer_flush l = (es', l')" by (rule prod.exhaust)
  have init: "lcore json_lexer_init = (IN_START, [])" by (simp add: json_lexer_init_def)
  have k: "map tkey es = fst (core_feed (IN_START, []) s)" "lcore l = snd (core_feed (IN_START, []) s)"
    using feed_core [of json_lexer_init s] assms(2) f init by (simp_all add: json_lexer_init_def)
  have "between (IN_START, [])" "unfinished (IN_START, []) = []" by (simp_all add: between_def unfinished_def)
  then have r: "between (lcore l)" "map tkey es @ unfinished (lcore l) = T"
    using assms(1) unfolding reads_def k by auto
  have "map tkey (es @ es') = T" using flush_unfinished [OF r(1)] f' r(2) by simp
  moreover have "mlexer (snd (process_tokens (json_message_parser_init\<lparr>mlexer := l\<rparr>) es)) = l"
    by (simp add: process_lexer split_beta)
  ultimately show ?thesis
    by (intro exI [of _ "es @ es'"])
      (simp add: json_message_parser_feed_def json_message_parser_flush_def json_message_parser_init_def [THEN arg_cong [of _ _ mlexer]]
        f f' process_lexer process_append split_beta Let_def)
qed

section \<open>Parsing the tokens\<close>

text \<open>What the parser makes of the tokens of a value.\<close>

fun rebuild :: "'d jvalue \<Rightarrow> 'd jvalue" where
  "rebuild (JInt v) = JInt v"
| "rebuild (JStr s) = JStr (c_str s)"
| "rebuild (JDict d) = JDict (foldl (\<lambda>d (k, v). dict_put k v d) [] (map (\<lambda>(k, v). (k, rebuild v)) d))"
| "rebuild (JList l) = JList (map rebuild l)"
| "rebuild (JBool b) = JBool (if b \<noteq> 0 then 1 else 0)"
| "rebuild (JFloat x) = JFloat x"
| "rebuild JErr = JErr"

definition parses :: "('d pctx \<Rightarrow> JSONToken list \<Rightarrow> 'd parsed) \<Rightarrow> 'd jvalue \<Rightarrow> bool" where
  "parses pv v \<longleftrightarrow> (\<forall>c ts r. map tkey ts = toks v \<longrightarrow> pv c (ts @ r) = (Some (rebuild v, r), c))"

lemma parsesD: "parses pv v \<Longrightarrow> map tkey ts = toks v \<Longrightarrow> pv c (ts @ r) = (Some (rebuild v, r), c)"
  unfolding parses_def by blast

lemma is_operator: "ttype t = JSON_OPERATOR \<Longrightarrow> tvalue t = [a] \<Longrightarrow> a \<noteq> 0 \<Longrightarrow> token_is_operator t b \<longleftrightarrow> b = a"
  by (auto simp: token_is_operator_def token_get_type_def token_get_value_def c_str_def)

lemma not_operator: "ttype t \<noteq> JSON_OPERATOR \<Longrightarrow> \<not> token_is_operator t b"
  by (simp add: token_is_operator_def token_get_type_def)

lemma toks_first:
  assumes "json_ok v"
  obtains t T where "toks v = t # T" "t \<noteq> op_token 0x5d"
  using assms by (cases v) auto

lemma otherwise_Some_eq [simp]: "otherwise msg (Some a, c) = (Some a, c)"
  by (simp add: otherwise_def)

lemma parse_items_ok:
  "\<forall>v\<in>set vs. parses pv v \<Longrightarrow> length vs < n \<Longrightarrow> map tkey ts = concat (map (\<lambda>v. op_token 0x2c # toks v) vs) @ [op_token 0x5d] \<Longrightarrow>
     parse_items n pv l c (ts @ r) = (Some (JList (l @ map rebuild vs), r), c)"
proof (induction vs arbitrary: n l ts)
  case Nil
  then obtain t m where "ts = [t]" "tkey t = op_token 0x5d" "n = Suc m" by (cases n) auto
  then show ?case by (simp add: is_operator)
next
  case (Cons v vs)
  then obtain m where n: "n = Suc m" by (cases n) auto
  have "map tkey ts = op_token 0x2c # toks v @ (concat (map (\<lambda>v. op_token 0x2c # toks v) vs) @ [op_token 0x5d])"
    using Cons.prems(3) by simp
  then obtain t us where t: "ts = t # us" "tkey t = op_token 0x2c"
    "map tkey us = toks v @ (concat (map (\<lambda>v. op_token 0x2c # toks v) vs) @ [op_token 0x5d])"
    by (rule keys_Cons)
  obtain ws ws' where w: "us = ws @ ws'" "map tkey ws = toks v"
    "map tkey ws' = concat (map (\<lambda>v. op_token 0x2c # toks v) vs) @ [op_token 0x5d]" using t(3) by (rule keys_append)
  have "pv c (ws @ ws' @ r) = (Some (rebuild v, ws' @ r), c)" using Cons.prems(1) w(2) by (intro parsesD) simp_all
  moreover have "parse_items m pv (l @ [rebuild v]) c (ws' @ r) = (Some (JList ((l @ [rebuild v]) @ map rebuild vs), r), c)"
    using Cons.prems n w(3) by (intro Cons.IH) simp_all
  ultimately show ?case using t w(1) n by (simp add: is_operator)
qed

lemma parse_array_ok:
  assumes "\<forall>v\<in>set vs. parses pv v \<and> json_ok v" "length vs < n + 1" "map tkey ts = toks (JList vs)"
  shows "parse_array n pv c (ts @ r) = (Some (rebuild (JList vs), r), c)"
proof -
  from assms(3) obtain t us where t: "ts = t # us" "tkey t = op_token 0x5b" "map tkey us = separated (map toks vs) @ [op_token 0x5d]"
    unfolding toks.simps by (rule keys_Cons)
  show ?thesis
  proof (cases vs)
    case Nil
    then obtain u where "us = [u]" "tkey u = op_token 0x5d" using t(3) by (auto simp: separated_def)
    then show ?thesis using t Nil by (simp add: parse_array_def is_operator)
  next
    case (Cons v ws)
    have "map tkey us = toks v @ (concat (map (\<lambda>v. op_token 0x2c # toks v) ws) @ [op_token 0x5d])"
      using t(3) Cons by (simp add: separated_def comp_def)
    then obtain u u' where u: "us = u @ u'" "map tkey u = toks v" "map tkey u' = concat (map (\<lambda>v. op_token 0x2c # toks v) ws) @ [op_token 0x5d]"
      by (rule keys_append)
    obtain k T where k: "toks v = k # T" "k \<noteq> op_token 0x5d" using assms(1) Cons toks_first [of v] by auto
    then obtain p p' where p: "u = p # p'" "tkey p \<noteq> op_token 0x5d" using u(2) by (auto simp: Cons_eq_map_conv)
    have "\<not> token_is_operator p 0x5d"
      using k p u(2) assms(1) Cons
      by (cases v) (auto simp: is_operator not_operator)
    moreover have "pv c (u @ u' @ r) = (Some (rebuild v, u' @ r), c)" using assms(1) Cons u(2) by (intro parsesD) simp_all
    moreover have "parse_items n pv [rebuild v] c (u' @ r) = (Some (JList ([rebuild v] @ map rebuild ws), r), c)"
      using assms(1,2) Cons u(3) by (intro parse_items_ok) simp_all
    ultimately show ?thesis using t u(1) Cons p(1) by (simp add: parse_array_def is_operator)
  qed
qed

abbreviation pair_toks :: "cstr \<times> 'd jvalue \<Rightarrow> (lex_code \<times> u8 list) list" where
  "pair_toks \<equiv> \<lambda>(k, v). (JSON_STRING, json_string k) # op_token 0x3a # toks v"

definition pair_ok :: "('d pctx \<Rightarrow> JSONToken list \<Rightarrow> 'd parsed) \<Rightarrow> cstr \<times> 'd jvalue \<Rightarrow> bool" where
  "pair_ok pv e \<longleftrightarrow> c_str (fst e) = fst e \<and> parses pv (JStr (fst e)) \<and> parses pv (snd e)"

abbreviation put_pair :: "(cstr \<times> 'd jvalue) list \<Rightarrow> cstr \<times> 'd jvalue \<Rightarrow> (cstr \<times> 'd jvalue) list" where
  "put_pair \<equiv> \<lambda>d (k, v). dict_put k v d"

lemma parse_pair_ok:
  assumes "pair_ok pv e" "map tkey ts = pair_toks e"
  shows "parse_pair pv d c (ts @ r) = (Some (dict_put (fst e) (rebuild (snd e)) d, r), c)"
proof -
  obtain k v where e: "e = (k, v)" by (cases e)
  have p: "c_str k = k" "parses pv (JStr k)" "parses pv v" using assms(1) by (simp_all add: pair_ok_def e)
  have "map tkey ts = (JSON_STRING, json_string k) # op_token 0x3a # toks v" using assms(2) by (simp add: e)
  then obtain a u where a: "ts = a # u" "tkey a = (JSON_STRING, json_string k)" "map tkey u = op_token 0x3a # toks v" by (rule keys_Cons)
  obtain b w where b: "u = b # w" "tkey b = op_token 0x3a" "map tkey w = toks v" using a(3) by (rule keys_Cons)
  have "pv c ([a] @ u @ r) = (Some (JStr k, u @ r), c)" using parsesD [OF p(2), of "[a]"] a(2) p(1) by simp
  moreover have "pv c (w @ r) = (Some (rebuild v, r), c)" using parsesD [OF p(3) b(3)] .
  ultimately show ?thesis using a(1) b(1,2) p(1) by (simp add: parse_pair_def is_operator e)
qed

lemma parse_members_ok:
  "\<forall>e\<in>set es. pair_ok pv e \<Longrightarrow> length es < n \<Longrightarrow> map tkey ts = concat (map (\<lambda>e. op_token 0x2c # pair_toks e) es) @ [op_token 0x7d] \<Longrightarrow>
     parse_members n pv d c (ts @ r) = (Some (JDict (foldl put_pair d (map (\<lambda>(k, v). (k, rebuild v)) es)), r), c)"
proof (induction es arbitrary: n d ts)
  case Nil
  then obtain t m where "ts = [t]" "tkey t = op_token 0x7d" "n = Suc m" by (cases n) auto
  then show ?case by (simp add: is_operator)
next
  case (Cons e es)
  then obtain m where n: "n = Suc m" by (cases n) auto
  have "map tkey ts = op_token 0x2c # pair_toks e @ (concat (map (\<lambda>e. op_token 0x2c # pair_toks e) es) @ [op_token 0x7d])"
    using Cons.prems(3) by simp
  then obtain t us where t: "ts = t # us" "tkey t = op_token 0x2c"
    "map tkey us = pair_toks e @ (concat (map (\<lambda>e. op_token 0x2c # pair_toks e) es) @ [op_token 0x7d])"
    by (rule keys_Cons)
  obtain ws ws' where w: "us = ws @ ws'" "map tkey ws = pair_toks e"
    "map tkey ws' = concat (map (\<lambda>e. op_token 0x2c # pair_toks e) es) @ [op_token 0x7d]" using t(3) by (rule keys_append)
  let ?d = "dict_put (fst e) (rebuild (snd e)) d"
  have "parse_pair pv d c (ws @ ws' @ r) = (Some (?d, ws' @ r), c)" using Cons.prems(1) w(2) by (intro parse_pair_ok) simp_all
  moreover have "parse_members m pv ?d c (ws' @ r) = (Some (JDict (foldl put_pair ?d (map (\<lambda>(k, v). (k, rebuild v)) es)), r), c)"
    using Cons.prems n w(3) by (intro Cons.IH) simp_all
  ultimately show ?case using t w(1) n by (cases e) (simp add: is_operator)
qed

lemma parse_object_ok:
  assumes "\<forall>e\<in>set es. pair_ok pv e" "length es < n + 1" "map tkey ts = toks (JDict es)"
  shows "parse_object n pv c (ts @ r) = (Some (rebuild (JDict es), r), c)"
proof -
  from assms(3) obtain t us where t: "ts = t # us" "tkey t = op_token 0x7b" "map tkey us = separated (map pair_toks es) @ [op_token 0x7d]"
    unfolding toks.simps by (rule keys_Cons)
  show ?thesis
  proof (cases es)
    case Nil
    then obtain u where "us = [u]" "tkey u = op_token 0x7d" using t(3) by (auto simp: separated_def)
    then show ?thesis using t Nil by (simp add: parse_object_def is_operator)
  next
    case (Cons e ws)
    have "map tkey us = pair_toks e @ (concat (map (\<lambda>e. op_token 0x2c # pair_toks e) ws) @ [op_token 0x7d])"
      using t(3) Cons by (simp add: separated_def comp_def)
    then obtain u u' where u: "us = u @ u'" "map tkey u = pair_toks e" "map tkey u' = concat (map (\<lambda>e. op_token 0x2c # pair_toks e) ws) @ [op_token 0x7d]"
      by (rule keys_append)
    have "map tkey u = (JSON_STRING, json_string (fst e)) # op_token 0x3a # toks (snd e)" using u(2) by (simp add: split_beta)
    then obtain p p' where p: "u = p # p'" "tkey p = (JSON_STRING, json_string (fst e))" by (rule keys_Cons)
    let ?d = "dict_put (fst e) (rebuild (snd e)) []"
    have "\<not> token_is_operator p 0x7d" using p(2) by (simp add: not_operator)
    moreover have "parse_pair pv [] c (u @ u' @ r) = (Some (?d, u' @ r), c)" using assms(1) Cons u(2) by (intro parse_pair_ok) simp_all
    moreover have "parse_members n pv ?d c (u' @ r) = (Some (JDict (foldl put_pair ?d (map (\<lambda>(k, v). (k, rebuild v)) ws)), r), c)"
      using assms(1,2) Cons u(3) by (intro parse_members_ok) simp_all
    ultimately show ?thesis using t u(1) Cons p(1) by (cases e) (simp add: parse_object_def is_operator)
  qed
qed

lemma parse_scalar:
  fixes c :: "'d pctx"
  assumes "ttype t \<noteq> JSON_OPERATOR" "ttype t \<noteq> JSON_ESCAPE"
  shows "parse_value (Suc n) strtod c (t # r) = por (parse_keyword c (t # r)) (\<lambda>c. parse_literal strtod c (t # r))"
proof -
  have "parse_escape c (t # r) = (None, c)" for c :: "'d pctx"
    using assms(2) by (simp add: parse_escape_def token_get_type_def split: option.split)
  then show ?thesis using assms(1) by (simp add: parse_object_def parse_array_def not_operator)
qed

lemma parses_string:
  assumes "bmp_utf8 (c_str s)" "0 < n"
  shows "parses (parse_value n strtod) (JStr s)"
  unfolding parses_def
proof (intro allI impI)
  fix c ts r
  assume "map tkey ts = toks (JStr s :: 'a jvalue)"
  then obtain t where t: "ts = [t]" "ttype t = JSON_STRING" "tvalue t = json_string s" by auto
  obtain m where "n = Suc m" using assms(2) by (cases n) auto
  then show "parse_value n strtod c (ts @ r) = (Some (rebuild (JStr s), r), c)"
    using parse_scalar [of t m strtod c r] t string_token(3) [OF assms(1) t(3)]
    by (simp add: parse_keyword_def parse_literal_def token_get_type_def)
qed

lemma parses_int: "0 < n \<Longrightarrow> parses (parse_value n strtod) (JInt v)"
  unfolding parses_def
proof (intro allI impI)
  fix c ts r
  assume n: "0 < n" and "map tkey ts = toks (JInt v :: 'a jvalue)"
  then obtain t where t: "ts = [t]" "ttype t = JSON_INTEGER" "tvalue t = json_int v" by auto
  obtain m where "n = Suc m" using n by (cases n) auto
  then show "parse_value n strtod c (ts @ r) = (Some (rebuild (JInt v), r), c)"
    using parse_scalar [of t m strtod c r] t int_token(3) [of v] c_str_id [OF int_token(2), of v]
    by (simp add: parse_keyword_def parse_literal_def token_get_type_def token_get_value_def)
qed

lemma parses_bool: "0 < n \<Longrightarrow> parses (parse_value n strtod) (JBool b)"
  unfolding parses_def
proof (intro allI impI)
  fix c ts r
  assume n: "0 < n" and "map tkey ts = toks (JBool b :: 'a jvalue)"
  then obtain t where t: "ts = [t]" "ttype t = JSON_KEYWORD" "tvalue t = (if b \<noteq> 0 then [0x74, 0x72, 0x75, 0x65] else [0x66, 0x61, 0x6c, 0x73, 0x65])"
    by auto
  obtain m where "n = Suc m" using n by (cases n) auto
  then show "parse_value n strtod c (ts @ r) = (Some (rebuild (JBool b), r), c)"
    using parse_scalar [of t m strtod c r] t
    by (simp add: parse_keyword_def token_is_keyword_def token_get_type_def token_get_value_def c_str_def)
qed

lemma separated_length:
  "length (separated (map f l)) \<ge> length l" "x \<in> set l \<Longrightarrow> length (f x) \<le> length (separated (map f l))" if "\<And>x. x \<in> set l \<Longrightarrow> f x \<noteq> []"
proof -
  have 1: "length l \<le> length (concat (map (\<lambda>i. op_token 0x2c # f i) l))" for l by (induction l) auto
  have 2: "x \<in> set l \<Longrightarrow> length (f x) \<le> length (concat (map (\<lambda>i. op_token 0x2c # f i) l))" for x l by (induction l) auto
  show "length (separated (map f l)) \<ge> length l"
  proof (cases l)
    case (Cons a l')
    then have "f a \<noteq> []" using that by simp
    then have "1 \<le> length (f a)" by (cases "f a") auto
    then show ?thesis using 1 [of l'] Cons by (simp add: separated_def comp_def)
  qed simp
  show "length (f x) \<le> length (separated (map f l))" if "x \<in> set l" for x
    using that 2 by (cases l) (force simp: separated_def comp_def)+
qed

lemma toks_nonempty: "json_ok v \<Longrightarrow> toks v \<noteq> []"
  by (cases v) auto

lemma parses_value:
  fixes v :: "'d jvalue"
  shows "json_ok v \<Longrightarrow> length (toks v) \<le> n \<Longrightarrow> parses (parse_value n strtod) v"
proof (induction v arbitrary: n)
  case (JInt v)
  then show ?case by (intro parses_int) simp
next
  case (JBool b)
  then show ?case by (intro parses_bool) simp
next
  case (JStr s)
  then show ?case by (intro parses_string) simp_all
next
  case (JList l)
  have ne: "\<And>v. v \<in> set l \<Longrightarrow> toks v \<noteq> []" using JList.prems(1) toks_nonempty by auto
  obtain m where n: "n = Suc m" "length (separated (map toks l)) < m" using JList.prems(2) by (cases n) auto
  have "parses (parse_value m strtod) v \<and> json_ok v" if "v \<in> set l" for v
    using JList.IH [OF that, of m] JList.prems(1) separated_length(2) [where f = toks and l = l, OF ne that] n(2) that by auto
  then have a: "parse_array m (parse_value m strtod) c (ts @ r) = (Some (rebuild (JList l), r), c)" if "map tkey ts = toks (JList l)" for c ts r
    using separated_length(1) [where f = toks and l = l, OF ne] n(2) that by (intro parse_array_ok) auto
  have "parse_object m pv c (ts @ r) = (None, c)" if ts: "map tkey ts = toks (JList l)" for pv and c :: "'d pctx" and ts r
  proof -
    obtain t us where "ts = t # us" "tkey t = op_token 0x5b" using ts unfolding toks.simps by (rule keys_Cons)
    then show ?thesis by (simp add: parse_object_def is_operator)
  qed
  with a show ?case by (simp add: parses_def n(1) del: toks.simps rebuild.simps)
next
  case (JDict d)
  have ne: "\<And>e. e \<in> set d \<Longrightarrow> pair_toks e \<noteq> []" by (auto split: prod.split)
  obtain m where n: "n = Suc m" "length (separated (map pair_toks d)) < m" using JDict.prems(2) by (cases n) auto
  have "pair_ok (parse_value m strtod) e" if "e \<in> set d" for e
  proof -
    obtain k v where e: "e = (k, v)" by (cases e)
    note o = json_ok_entry [OF JDict.prems(1) that [unfolded e]]
    have "length (toks v) \<le> m" using separated_length(2) [where f = pair_toks and l = d, OF ne that] n(2) by (simp add: e)
    then have "parses (parse_value m strtod) v" using JDict.IH [OF that, of v m] o(3) by (simp add: e)
    then show ?thesis using o n(2) by (simp add: pair_ok_def e parses_string)
  qed
  then have "parse_object m (parse_value m strtod) c (ts @ r) = (Some (rebuild (JDict d), r), c)" if "map tkey ts = toks (JDict d)" for c ts r
    using separated_length(1) [where f = pair_toks and l = d, OF ne] n(2) that by (intro parse_object_ok) auto
  then show ?case by (simp add: parses_def n(1) del: toks.simps rebuild.simps)
qed simp_all

lemma join_size:
  assumes "\<And>x. x \<in> set l \<Longrightarrow> keys_size (g x) \<le> length (f x)"
  shows "keys_size (separated (map g l)) \<le> length (json_join (map f l))"
proof -
  have "keys_size (concat (map (\<lambda>x. op_token 0x2c # g x) l)) \<le> length (concat (map (\<lambda>x. [0x2c, 0x20] @ f x) l))"
    if "\<And>x. x \<in> set l \<Longrightarrow> keys_size (g x) \<le> length (f x)" for l
    using that by (induction l) (auto, fastforce)
  from this [of "tl l"] assms show ?thesis
    by (cases l) (fastforce simp: separated_def json_join_def comp_def)+
qed

lemma toks_size: "keys_size (toks v) \<le> length (to_json fmt pretty n v)"
proof (induction v arbitrary: n)
  case (JList l)
  have "keys_size (separated (map toks l)) \<le> length (json_join (map (\<lambda>v. json_newline pretty (n + 1) @ to_json fmt pretty (n + 1) v) l))"
    using JList by (intro join_size) (simp add: trans_le_add2)
  then show ?case by simp
next
  case (JDict d)
  have "keys_size (separated (map pair_toks d)) \<le>
      length (json_join (map (\<lambda>(k, v). json_newline pretty (n + 1) @ json_string k @ [0x3a, 0x20] @ to_json fmt pretty (n + 1) v) d))"
  proof (intro join_size)
    fix e assume m: "e \<in> set d"
    obtain k v where e: "e = (k, v)" by (rule prod.exhaust)
    have "keys_size (toks v) \<le> length (to_json fmt pretty (n + 1) v)" using JDict [OF m, of v] by (simp add: e)
    then show "keys_size (pair_toks e) \<le> length (case e of (k, v) \<Rightarrow> json_newline pretty (n + 1) @ json_string k @ [0x3a, 0x20] @ to_json fmt pretty (n + 1) v)"
      by (simp add: e)
  qed
  then show ?case by simp
qed simp_all

section \<open>The round trip\<close>

text \<open>
  What a value says: booleans are true or false, strings end at the first null byte, and a dictionary
  is a finite map, whatever the order of its entries.
\<close>

datatype 'd aval =
  AInt int | ABool bool | AStr cstr | AFloat 'd | AList "'d aval list" | ADict "(cstr, 'd aval) fmap" | AErr

fun jabs :: "'d jvalue \<Rightarrow> 'd aval" where
  "jabs (JInt v) = AInt (sint v)"
| "jabs (JBool b) = ABool (b \<noteq> 0)"
| "jabs (JStr s) = AStr (c_str s)"
| "jabs (JFloat x) = AFloat x"
| "jabs (JList l) = AList (map jabs l)"
| "jabs (JDict d) = ADict (fmap_of_list (map (\<lambda>(k, v). (k, jabs v)) d))"
| "jabs JErr = AErr"

lemma c_str_c_str [simp]: "c_str (c_str s) = c_str s"
  by (simp add: c_str_def)

lemma put_pairs_lookup: "map_of (foldl put_pair d es) = map_of d ++ map_of (rev es)"
proof (induction es arbitrary: d)
  case (Cons e es)
  obtain k v where e: "e = (k, v)" by (rule prod.exhaust)
  have "map_of (dict_put k v d) = map_of d ++ [k \<mapsto> v]" unfolding dict_put_lookup by simp
  with Cons [of "dict_put k v d"] show ?case by (simp only: e foldl_Cons prod.case rev.simps map_of_append map_of.simps fst_conv snd_conv map_add_assoc)
qed simp

lemma rebuild_value: "json_ok v \<Longrightarrow> jabs (rebuild v) = jabs v"
proof (induction v)
  case (JDict d)
  let ?r = "map (\<lambda>(k, v). (k, rebuild v)) d"
  have "map fst ?r = map fst d" by (simp add: comp_def case_prod_unfold)
  then have "distinct (map fst ?r)" using JDict.prems by (simp only: json_ok.simps)
  then have "map_of (rev ?r) = map_of ?r" using map_of_inject_set [of "rev ?r" ?r] by (simp add: rev_map [symmetric])
  then have m: "map_of (foldl put_pair [] ?r) = map_of ?r" unfolding put_pairs_lookup by simp
  have v: "jabs (rebuild v) = jabs v" if "(k, v) \<in> set d" for k v
    using JDict.IH [OF that _ json_ok_entry(3) [OF JDict.prems that]] by simp
  have "map_of (map (\<lambda>(k, v). (k, jabs v)) (foldl put_pair [] ?r)) = map_option jabs \<circ> map_of ?r"
    unfolding map_of_map m ..
  also have "\<dots> = map_of (map (\<lambda>(k, v). (k, jabs v)) ?r)" unfolding map_of_map ..
  also have "map (\<lambda>(k, v). (k, jabs v)) ?r = map (\<lambda>(k, v). (k, jabs v)) d" using v by (auto intro!: map_cong)
  finally show ?case by (simp add: fmap_ext fmlookup_of_list)
qed (simp_all add: comp_def)

text \<open>
  C4: what \<open>qobject_to_json\<close> and \<open>qobject_to_json_pretty\<close> print is read back by \<open>qobject_from_json\<close>
  as the same value: every integer, every boolean, every string of code points of the basic plane,
  and every list and dictionary of such values, nested up to 1024 deep, within the size the message
  parser accepts. In particular the escapes of the printer are those of the lexer and the parser, the
  white space does not matter, and one text is one message.
\<close>

theorem qjson_roundtrip:
  assumes "json_ok v" "height v \<le> 1024"
    and "s = qobject_to_json fmt v \<or> s = qobject_to_json_pretty fmt v" "length s \<le> MAX_TOKEN_SIZE"
  shows "\<exists>v'. qobject_from_json strtod s = Some v' \<and> jabs v' = jabs v"
proof -
  obtain pretty where s: "s = to_json fmt pretty 0 v" using assms(3) by (auto simp: qobject_to_json_def qobject_to_json_pretty_def)
  have z: "c_str s = s" unfolding s by (rule c_str_id [OF text_value [OF assms(1)]])
  obtain ts ms p ms' p' where t: "map tkey ts = toks v" "json_message_parser_feed json_message_parser_init s = (ms, p)"
    "json_message_parser_flush p = (ms', p')" "ms @ ms' = fst (process_tokens json_message_parser_init ts)"
    using read_tokens [OF reads_value [OF assms(1), of fmt pretty 0], folded s, OF assms(4)] by blast
  have "keys_size (toks v) \<le> MAX_TOKEN_SIZE" using toks_size [of v fmt pretty 0, folded s] assms(4) by linarith
  then have m: "ms @ ms' = [Some ts]" using one_message [OF assms(1,2) t(1)] t(4) by simp
  have "length (toks v) \<le> parse_fuel ts" using t(1) by (simp add: parse_fuel_def flip: t(1))
  then have "parse_value (parse_fuel ts) strtod c (ts @ []) = (Some (rebuild v, []), c)" for c
    using parsesD [OF parses_value [OF assms(1)] t(1)] by blast
  then have "qobject_from_json strtod s = Some (rebuild v)"
    unfolding qobject_from_json_def qobject_from_jsonv_def z t(2) Let_def prod.case t(3) m
    by (simp add: parse_json_def json_parser_parse_err_def)
  then show ?thesis using rebuild_value [OF assms(1)] by blast
qed

lemma example_size:
  "length (qobject_to_json_pretty (\<lambda>_ :: nat. []) (JDict [([0x61], JList [JStr [0x78, 0x0a, 0xc3, 0xa9], JBool 1]), ([0x62], JInt 5)])) \<le> 100"
  by code_simp

theorem qjson_roundtrip_witness:
  "\<exists>v'. qobject_from_json (\<lambda>_. 0 :: nat) (qobject_to_json_pretty (\<lambda>_ :: nat. [])
       (JDict [([0x61], JList [JStr [0x78, 0x0a, 0xc3, 0xa9], JBool 1]), ([0x62], JInt 5)])) = Some v' \<and>
     jabs v' = ADict (fmap_of_list [([0x61], AList [AStr [0x78, 0x0a, 0xc3, 0xa9], ABool True]), ([0x62], AInt 5)])"
proof -
  let ?v = "JDict [([0x61], JList [JStr [0x78, 0x0a, 0xc3, 0xa9], JBool 1]), ([0x62], JInt 5)] :: nat jvalue"
  have "json_ok ?v" "height ?v \<le> 1024" by (simp_all add: c_str_def byte_at_def)
  moreover have "length (qobject_to_json_pretty (\<lambda>_ :: nat. []) ?v) \<le> MAX_TOKEN_SIZE"
    using example_size by (simp add: MAX_TOKEN_SIZE_def)
  ultimately have "\<exists>v'. qobject_from_json (\<lambda>_. 0 :: nat) (qobject_to_json_pretty (\<lambda>_ :: nat. []) ?v) = Some v' \<and> jabs v' = jabs ?v"
    by (intro qjson_roundtrip [where fmt = "\<lambda>_. []"]) simp_all
  then show ?thesis by (simp add: c_str_def)
qed

end
